(* ===== verification/Prelude.thy ===== *)
theory Prelude
  imports
    Main
    "HOL-Library.Word"
    "HOL-Library.AList"
    "HOL-Library.Multiset"
    "HOL-Library.Monad_Syntax"
    "HOL-Library.Signed_Division"
begin

text \<open>
  Shared vocabulary of the development.

  \<^item> Names for Go's machine types.  \<open>uint64\<close>, \<open>uint32\<close> and \<open>byte\<close> are words of
    their width; \<open>int\<close>, \<open>int64\<close> and \<open>time.Duration\<close> are the HOL type \<open>int\<close> with
    \<open>i64\<close> written wherever an operation can leave the 64-bit range; a Go string is a
    sequence of bytes, hence \<open>string\<close>.
  \<^item> \<open>'a go\<close>: the result of code that may panic; \<open>None\<close> is the panic.
  \<^item> Go maps as association lists with distinct keys (\<open>gomap\<close>), the laws of such a map
    as the locale \<open>keyed_store\<close>, and sums over the values of a map.
  \<^item> \<open>sort.Slice\<close> with the comparator as an argument, and the locale
    \<open>strict_weak_order\<close> that states what a comparator has to satisfy.
  \<^item> The collections \<open>xray_defs\<close>, \<open>xray_inv\<close> that the component theories fill.
\<close>

named_theorems xray_defs "definitions that the component proofs unfold"
named_theorems xray_inv "preservation of the component invariants"

type_synonym u8 = "8 word"
type_synonym u32 = "32 word"
type_synonym u64 = "64 word"
type_synonym bytes = "u8 list"

type_synonym 'a go = "'a option"

section \<open>64-bit signed arithmetic\<close>

definition i64 :: "int \<Rightarrow> int" where
  "i64 x = (x + 2 ^ 63) mod 2 ^ 64 - 2 ^ 63"

definition max_i64 :: int where
  "max_i64 = 2 ^ 63 - 1"

definition min_i64 :: int where
  "min_i64 = - (2 ^ 63)"

text \<open>\<open>uint64(x)\<close> of a signed value, and \<open>int64(x)\<close> of an unsigned one.\<close>

definition to_u64 :: "int \<Rightarrow> u64" where
  "to_u64 x = word_of_int x"

definition to_i64 :: "u64 \<Rightarrow> int" where
  "to_i64 w = sint w"

lemma i64_id [simp]: "min_i64 \<le> x \<Longrightarrow> x \<le> max_i64 \<Longrightarrow> i64 x = x"
  by (simp add: i64_def min_i64_def max_i64_def)

lemma i64_range: "min_i64 \<le> i64 x \<and> i64 x \<le> max_i64"
proof -
  have "0 \<le> (x + 2 ^ 63) mod 2 ^ 64" and "(x + 2 ^ 63) mod 2 ^ 64 < (2 :: int) ^ 64"
    by (simp_all add: pos_mod_bound)
  then show ?thesis
    unfolding i64_def min_i64_def max_i64_def by simp
qed

lemma uint_to_u64 [simp]: "0 \<le> x \<Longrightarrow> x < 2 ^ 64 \<Longrightarrow> uint (to_u64 x) = x"
  by (simp add: to_u64_def uint_word_of_int)

lemma to_i64_small: "uint w < 2 ^ 63 \<Longrightarrow> to_i64 w = uint w"
  by (simp add: to_i64_def sint_uint signed_take_bit_int_eq_self_iff order_trans [OF _ uint_ge_0])

lemma word_inc_less: "w \<noteq> - 1 \<Longrightarrow> w < w + 1" for w :: "'a::len word"
proof -
  assume "w \<noteq> - 1"
  then have "w < - 1" using word_order.not_eq_extremum [of w] by simp
  then have "uint w + 1 < 2 ^ LENGTH('a)" by (simp add: word_less_def unsigned_minus_1_eq_mask mask_eq_exp_minus_1)
  then show ?thesis by (simp add: word_less_def uint_word_ariths take_bit_int_eq_self)
qed

section \<open>Go maps\<close>

type_synonym ('k, 'v) gomap = "('k \<times> 'v) list"

definition gm_ok :: "('k, 'v) gomap \<Rightarrow> bool" where
  "gm_ok m \<longleftrightarrow> distinct (map fst m)"

abbreviation gget :: "('k, 'v) gomap \<Rightarrow> 'k \<Rightarrow> 'v option" where
  "gget m k \<equiv> map_of m k"

abbreviation gput :: "'k \<Rightarrow> 'v \<Rightarrow> ('k, 'v) gomap \<Rightarrow> ('k, 'v) gomap" where
  "gput k v m \<equiv> AList.update k v m"

abbreviation gdel :: "'k \<Rightarrow> ('k, 'v) gomap \<Rightarrow> ('k, 'v) gomap" where
  "gdel k m \<equiv> AList.delete k m"

abbreviation gkeys :: "('k, 'v) gomap \<Rightarrow> 'k set" where
  "gkeys m \<equiv> fst ` set m"

abbreviation gvals :: "('k, 'v) gomap \<Rightarrow> 'v list" where
  "gvals m \<equiv> map snd m"

text \<open>The contract of a map: what a lookup returns after each update.\<close>

locale keyed_store =
  fixes empty :: 'm
    and get :: "'m \<Rightarrow> 'k \<Rightarrow> 'v option"
    and put :: "'k \<Rightarrow> 'v \<Rightarrow> 'm \<Rightarrow> 'm"
    and del :: "'k \<Rightarrow> 'm \<Rightarrow> 'm"
    and keys :: "'m \<Rightarrow> 'k set"
    and invar :: "'m \<Rightarrow> bool"
  assumes get_empty: "get empty k = None"
    and get_put: "invar m \<Longrightarrow> get (put k v m) = (get m)(k \<mapsto> v)"
    and get_del: "invar m \<Longrightarrow> get (del k m) = (get m)(k := None)"
    and keys_get: "invar m \<Longrightarrow> k \<in> keys m \<longleftrightarrow> get m k \<noteq> None"
    and invar_empty: "invar empty"
    and invar_put: "invar m \<Longrightarrow> invar (put k v m)"
    and invar_del: "invar m \<Longrightarrow> invar (del k m)"
begin

lemma keys_put: "invar m \<Longrightarrow> keys (put k v m) = insert k (keys m)"
  by (auto simp: keys_get get_put invar_put split: if_splits)

lemma keys_del: "invar m \<Longrightarrow> keys (del k m) = keys m - {k}"
  by (auto simp: keys_get get_del invar_del split: if_splits)

lemma put_twice: "invar m \<Longrightarrow> get (put k w (put k v m)) = get (put k w m)"
  by (simp add: get_put invar_put)

lemma put_swap:
  "invar m \<Longrightarrow> j \<noteq> k \<Longrightarrow> get (put j w (put k v m)) = get (put k v (put j w m))"
  by (simp add: get_put invar_put fun_upd_twist)

lemma get_fold_put:
  "invar m \<Longrightarrow> distinct (map fst kvs) \<Longrightarrow>
   get (fold (\<lambda>(k, v). put k v) kvs m) = (\<lambda>k. case map_of kvs k of None \<Rightarrow> get m k | Some v \<Rightarrow> Some v)"
proof (induction kvs arbitrary: m)
  case Nil
  then show ?case by simp
next
  case (Cons kv kvs)
  obtain k v where kv: "kv = (k, v)" by (cases kv)
  have "map_of kvs k = None"
    using Cons.prems(2) kv by (simp add: map_of_eq_None_iff)
  then show ?case
    using Cons kv by (auto simp: get_put invar_put fun_eq_iff split: option.splits)
qed

end

lemma gm_ok_Nil [simp]: "gm_ok []"
  by (simp add: gm_ok_def)

lemma gm_ok_put [simp]: "gm_ok m \<Longrightarrow> gm_ok (gput k v m)"
  by (simp add: gm_ok_def AList.distinct_update)

lemma gm_ok_del [simp]: "gm_ok m \<Longrightarrow> gm_ok (gdel k m)"
  by (simp add: gm_ok_def AList.distinct_delete)

lemma gget_gput [simp]: "gget (gput k v m) = (gget m)(k \<mapsto> v)"
  by (simp add: AList.update_conv' fun_eq_iff)

lemma gget_gdel [simp]: "gget (gdel k m) = (gget m)(k := None)"
  by (simp add: AList.delete_conv' fun_eq_iff)

interpretation gm: keyed_store "[]" map_of "\<lambda>k v m. gput k v m" "\<lambda>k m. gdel k m" gkeys gm_ok
  by unfold_locales (auto simp: map_of_eq_None_iff weak_map_of_SomeI gm_ok_def AList.distinct_update AList.distinct_delete)

lemma set_gput: "x \<in> set (gput k v m) \<Longrightarrow> x = (k, v) \<or> x \<in> set m"
  by (induction m) (auto split: if_splits)

lemma set_gput_iff:
  "gm_ok m \<Longrightarrow> x \<in> set (gput k v m) \<longleftrightarrow> x = (k, v) \<or> (x \<in> set m \<and> fst x \<noteq> k)"
  by (induction m) (auto simp: gm_ok_def AList.update_nonempty)

lemma set_gdel [simp]: "set (gdel k m) = {x \<in> set m. fst x \<noteq> k}"
  by (auto simp: AList.delete_eq)

lemma gget_in: "gget m k = Some v \<Longrightarrow> (k, v) \<in> set m"
  by (rule map_of_SomeD)

lemma gget_iff: "gm_ok m \<Longrightarrow> (k, v) \<in> set m \<longleftrightarrow> gget m k = Some v"
  by (simp add: gm_ok_def)

lemma gm_ok_Cons [simp]: "gm_ok ((k, v) # m) \<longleftrightarrow> k \<notin> gkeys m \<and> gm_ok m"
  by (simp add: gm_ok_def)

lemma length_gput:
  "length (gput k v m) = (if gget m k = None then Suc (length m) else length m)"
  by (induction m) auto

lemma gdel_absent: "k \<notin> gkeys m \<Longrightarrow> gdel k m = m"
  by (induction m) auto

lemma length_gdel_mem: "gm_ok m \<Longrightarrow> gget m k \<noteq> None \<Longrightarrow> length (gdel k m) = length m - 1"
proof (induction m)
  case Nil
  then show ?case by simp
next
  case (Cons kv m)
  obtain a b where kv: "kv = (a, b)" by (cases kv)
  show ?case
  proof (cases "a = k")
    case True
    with Cons.prems kv have "k \<notin> gkeys m" by simp
    then have "gdel k m = m" by (rule gdel_absent)
    with True kv show ?thesis by simp
  next
    case False
    with Cons kv have "length (gdel k m) = length m - 1" and "gget m k \<noteq> None"
      by simp_all
    moreover from this(2) have "m \<noteq> []" by auto
    ultimately show ?thesis using False kv by (cases m) simp_all
  qed
qed

lemma length_gdel_le: "length (gdel k m) \<le> length m"
  by (simp add: AList.length_delete_le)

text \<open>The sum of a field over the values of a map: an update moves it by the difference.\<close>

definition gsum :: "('v \<Rightarrow> 'a::comm_monoid_add) \<Rightarrow> ('k, 'v) gomap \<Rightarrow> 'a" where
  "gsum f m = sum_list (map (\<lambda>kv. f (snd kv)) m)"

lemma gsum_Nil [simp]: "gsum f [] = 0"
  by (simp add: gsum_def)

lemma gsum_Cons [simp]: "gsum f ((k, v) # m) = f v + gsum f m"
  by (simp add: gsum_def)

lemma gsum_gput:
  fixes f :: "'v \<Rightarrow> 'a::ab_group_add"
  shows "gsum f (gput k v m) = gsum f m + f v - (case gget m k of None \<Rightarrow> 0 | Some w \<Rightarrow> f w)"
  by (induction m) (auto simp: algebra_simps)

section \<open>The comparator contract of sort.Slice\<close>

text \<open>
  \<open>sort.Slice(xs, less)\<close> returns a permutation of \<open>xs\<close> that the comparator accepts
  as ordered.  The model inserts elements one by one with the source's own comparator.
  Go's sort is not stable, so the order of elements that the comparator does not separate
  is only one of the possible outcomes; \<open>sort_unique\<close> shows that there is no other
  outcome where the comparator separates all elements.
\<close>

fun insort_by :: "('a \<Rightarrow> 'a \<Rightarrow> bool) \<Rightarrow> 'a \<Rightarrow> 'a list \<Rightarrow> 'a list" where
  "insort_by lt x [] = [x]"
| "insort_by lt x (y # ys) = (if lt y x then y # insort_by lt x ys else x # y # ys)"

definition sort_slice :: "('a \<Rightarrow> 'a \<Rightarrow> bool) \<Rightarrow> 'a list \<Rightarrow> 'a list" where
  "sort_slice lt xs = foldr (insort_by lt) xs []"

lemma mset_insort_by [simp]: "mset (insort_by lt x ys) = add_mset x (mset ys)"
  by (induction ys) simp_all

lemma mset_sort_slice [simp]: "mset (sort_slice lt xs) = mset xs"
  by (induction xs) (simp_all add: sort_slice_def)

lemma set_sort_slice [simp]: "set (sort_slice lt xs) = set xs"
  using mset_sort_slice [of lt xs] by (metis set_mset_mset)

lemma length_sort_slice [simp]: "length (sort_slice lt xs) = length xs"
  using mset_sort_slice [of lt xs] by (metis size_mset)

locale strict_weak_order =
  fixes lt :: "'a \<Rightarrow> 'a \<Rightarrow> bool"
  assumes lt_asym: "lt x y \<Longrightarrow> \<not> lt y x"
    and lt_neg_trans: "lt x z \<Longrightarrow> lt x y \<or> lt y z"
begin

abbreviation ordered :: "'a list \<Rightarrow> bool" where
  "ordered \<equiv> sorted_wrt (\<lambda>a b. \<not> lt b a)"

lemma set_insort_by: "set (insort_by lt x ys) = insert x (set ys)"
  by (induction ys) auto

lemma ordered_insort_by: "ordered ys \<Longrightarrow> ordered (insort_by lt x ys)"
proof (induction ys)
  case Nil
  then show ?case by simp
next
  case (Cons y ys)
  then show ?case
    by (auto simp: set_insort_by dest: lt_asym lt_neg_trans)
qed

lemma ordered_sort_slice: "ordered (sort_slice lt xs)"
  by (induction xs) (simp_all add: sort_slice_def ordered_insort_by)

lemma ordered_unique:
  assumes "mset xs = mset ys" and "ordered xs" and "ordered ys"
    and "\<forall>a \<in> set xs. \<forall>b \<in> set xs. a \<noteq> b \<longrightarrow> lt a b \<or> lt b a"
  shows "xs = ys"
  using assms
proof (induction xs arbitrary: ys)
  case Nil
  then show ?case by simp
next
  case (Cons x xs)
  from Cons.prems(1) obtain y ys' where ys: "ys = y # ys'"
    by (cases ys) auto
  have sets: "set (x # xs) = set ys"
    using Cons.prems(1) by (metis set_mset_mset)
  have "x = y"
  proof (rule ccontr)
    assume "x \<noteq> y"
    with sets ys have "y \<in> set xs" and "x \<in> set ys'" by auto
    with Cons.prems(2,3) ys have "\<not> lt y x" and "\<not> lt x y" by auto
    with Cons.prems(4) \<open>x \<noteq> y\<close> \<open>y \<in> set xs\<close> show False by auto
  qed
  with Cons ys show ?case by simp
qed

text \<open>Whatever order the elements come in, and whatever algorithm sorts them.\<close>

lemma sort_unique:
  assumes "mset ys = mset xs" and "ordered ys"
    and "\<forall>a \<in> set xs. \<forall>b \<in> set xs. a \<noteq> b \<longrightarrow> lt a b \<or> lt b a"
  shows "ys = sort_slice lt xs"
proof (rule ordered_unique)
  show "mset ys = mset (sort_slice lt xs)" using assms(1) by simp
  show "ordered ys" by (rule assms(2))
  show "ordered (sort_slice lt xs)" by (rule ordered_sort_slice)
  have "set ys = set xs" using assms(1) by (metis set_mset_mset)
  then show "\<forall>a \<in> set ys. \<forall>b \<in> set ys. a \<noteq> b \<longrightarrow> lt a b \<or> lt b a"
    using assms(3) by simp
qed

end

text \<open>Comparators that compare a key, ascending or descending, satisfy the contract.\<close>

definition by_key_asc :: "('a \<Rightarrow> 'k::linorder) \<Rightarrow> 'a \<Rightarrow> 'a \<Rightarrow> bool" where
  "by_key_asc f a b \<longleftrightarrow> f a < f b"

definition by_key_desc :: "('a \<Rightarrow> 'k::linorder) \<Rightarrow> 'a \<Rightarrow> 'a \<Rightarrow> bool" where
  "by_key_desc f a b \<longleftrightarrow> f b < f a"

interpretation key_asc: strict_weak_order "by_key_asc f" for f :: "'a \<Rightarrow> 'k::linorder"
  by unfold_locales (auto simp: by_key_asc_def)

interpretation key_desc: strict_weak_order "by_key_desc f" for f :: "'a \<Rightarrow> 'k::linorder"
  by unfold_locales (auto simp: by_key_desc_def)

section \<open>The newest entries\<close>

text \<open>
  A list of the newest entries of a set: strictly descending by key, at most \<open>n\<close> entries when \<open>n\<close>
  is positive, and every entry left out is older than all entries of a full list.
\<close>

definition newest :: "('a \<Rightarrow> 'k::linorder) \<Rightarrow> int \<Rightarrow> 'a set \<Rightarrow> 'a list \<Rightarrow> bool" where
  "newest f n S xs \<longleftrightarrow> sorted_wrt (\<lambda>a b. f b < f a) xs \<and> set xs \<subseteq> S \<and> (0 < n \<longrightarrow> int (length xs) \<le> n)
     \<and> (\<forall>s \<in> S. s \<in> set xs \<or> 0 < n \<and> int (length xs) = n \<and> (\<forall>x \<in> set xs. f s < f x))"

lemma sort_strict:
  assumes "distinct (map f xs)"
  shows "sorted_wrt (\<lambda>a b. f b < f a) (sort_slice (by_key_desc f) xs)"
    and "sorted_wrt (\<lambda>a b. f a < f b) (sort_slice (by_key_asc f) xs)"
proof -
  have dist: "distinct (map f (sort_slice lt xs))" for lt
    using assms mset_sort_slice [of lt xs] by (metis mset_eq_imp_distinct_iff mset_map)
  have "sorted_wrt (\<lambda>a b. f b \<le> f a) (sort_slice (by_key_desc f) xs)"
    using key_desc.ordered_sort_slice [of f xs] by (simp add: by_key_desc_def not_less)
  moreover have "sorted_wrt (\<lambda>a b. f b < f a) ys" if "sorted_wrt (\<lambda>a b. f b \<le> f a) ys" "distinct (map f ys)" for ys
    using that by (induction ys) (auto simp: order_less_le image_iff)
  ultimately show "sorted_wrt (\<lambda>a b. f b < f a) (sort_slice (by_key_desc f) xs)" using dist by blast
  have "sorted_wrt (\<lambda>a b. f a \<le> f b) (sort_slice (by_key_asc f) xs)"
    using key_asc.ordered_sort_slice [of f xs] by (simp add: by_key_asc_def not_less)
  moreover have "sorted_wrt (\<lambda>a b. f a < f b) ys" if "sorted_wrt (\<lambda>a b. f a \<le> f b) ys" "distinct (map f ys)" for ys
    using that by (induction ys) (auto simp: order_less_le image_iff)
  ultimately show "sorted_wrt (\<lambda>a b. f a < f b) (sort_slice (by_key_asc f) xs)" using dist by blast
qed

lemma strict_sorted_unique:
  fixes f :: "'a \<Rightarrow> 'k::linorder"
  assumes "sorted_wrt (\<lambda>a b. f b < f a) xs" and "sorted_wrt (\<lambda>a b. f b < f a) ys" and "set xs = set ys"
  shows "xs = ys"
proof -
  have "sorted (rev (map f zs)) \<and> distinct (rev (map f zs)) \<and> inj_on f (set zs)" if "sorted_wrt (\<lambda>a b. f b < f a) zs" for zs
    using that by (induction zs) (auto simp: sorted_append order_less_imp_le inj_on_def)
  note keys = this [OF assms(1)] this [OF assms(2)]
  then have "rev (map f xs) = rev (map f ys)" using assms(3) by (intro sorted_distinct_set_unique) simp_all
  moreover have "inj_on f (set xs \<union> set ys)" using keys assms(3) by simp
  ultimately show ?thesis by (simp add: map_inj_on)
qed

lemma newest_prefix:
  fixes n :: int
  assumes "sorted_wrt (\<lambda>a b. f b < f a) rows"
  shows "newest f n (set rows) (if 0 < n \<and> int (length rows) > n then take (nat n) rows else rows)"
proof (cases "0 < n \<and> int (length rows) > n")
  case False
  with assms show ?thesis by (auto simp: newest_def)
next
  case True
  let ?out = "take (nat n) rows" and ?rest = "drop (nat n) rows"
  have rows: "rows = ?out @ ?rest" by simp
  with assms have "sorted_wrt (\<lambda>a b. f b < f a) (?out @ ?rest)" by simp
  then have so: "sorted_wrt (\<lambda>a b. f b < f a) ?out" "\<forall>x \<in> set ?out. \<forall>s \<in> set ?rest. f s < f x"
    unfolding sorted_wrt_append by simp_all
  have "set rows = set ?out \<union> set ?rest" by (subst (1) rows) (simp only: set_append)
  moreover have "int (length ?out) = n" using True by (simp add: min_def) linarith
  ultimately show ?thesis using so True by (auto simp: newest_def)
qed

lemma newest_sort:
  fixes n :: int
  assumes "distinct (map f xs)"
  defines "rows \<equiv> sort_slice (by_key_desc f) xs"
  shows "newest f n (set xs) (if 0 < n \<and> int (length rows) > n then take (nat n) rows else rows)"
  using newest_prefix [OF sort_strict(1) [OF assms(1)], of n] unfolding rows_def set_sort_slice .

lemma newest_limit:
  fixes n :: int
  assumes "0 < n"
  shows "(if 0 < n \<and> int (length rows) > n then take (nat n) rows else rows) = take (nat n) rows"
  using assms by auto

text \<open>With \<open>n\<close> keys above a bound to choose from, a list of the newest \<open>n\<close> is full and above the bound.\<close>

lemma newest_crowded:
  assumes "newest f n (set zs) rows" and "0 < n" and "K \<subseteq> f ` set zs" and "int (card K) = n" and "\<And>k. k \<in> K \<Longrightarrow> b < k"
  shows "int (length rows) = n" and "\<And>x. x \<in> set rows \<Longrightarrow> b < f x"
proof -
  have len: "int (length rows) \<le> n"
    and out: "\<And>z. z \<in> set zs \<Longrightarrow> z \<notin> set rows \<Longrightarrow> int (length rows) = n \<and> (\<forall>x \<in> set rows. f z < f x)"
    using assms(1,2) by (auto simp: newest_def)
  have cov: "card L \<le> length rows" if "L \<subseteq> f ` set rows" for L
    using card_mono [OF _ that] card_image_le [of "set rows" f] card_length [of rows] by simp
  show "int (length rows) = n"
  proof (rule ccontr)
    assume "int (length rows) \<noteq> n"
    with out have "set zs \<subseteq> set rows" by blast
    with assms(3) have "K \<subseteq> f ` set rows" by blast
    then have "card K \<le> length rows" by (rule cov)
    with assms(4) len \<open>int (length rows) \<noteq> n\<close> show False by linarith
  qed
  fix x assume x: "x \<in> set rows"
  show "b < f x"
  proof (rule ccontr)
    assume "\<not> b < f x"
    have "K \<subseteq> f ` set rows"
    proof
      fix k assume k: "k \<in> K"
      with assms(3) obtain z where z: "z \<in> set zs" "k = f z" by blast
      have "\<not> f z < f x" using assms(5) [OF k] z(2) \<open>\<not> b < f x\<close> by auto
      with out [OF z(1)] x have "z \<in> set rows" by blast
      with z(2) show "k \<in> f ` set rows" by blast
    qed
    moreover have "f x \<notin> K" using assms(5) \<open>\<not> b < f x\<close> by blast
    moreover have "finite K" by (rule card_ge_0_finite) (use assms(2,4) in simp)
    ultimately have "card (insert (f x) K) \<le> length rows" "card (insert (f x) K) = Suc (card K)" using x cov [of "insert (f x) K"] by simp_all
    with len assms(4) show False by simp
  qed
qed

text \<open>The contract of a component that lists the newest entries it holds.\<close>

locale newest_listing =
  fixes key :: "'a \<Rightarrow> 'k::linorder"
    and invar :: "'s \<Rightarrow> bool"
    and holds :: "'s \<Rightarrow> 'a set"
    and listing :: "int \<Rightarrow> 's \<Rightarrow> 'a list option"
  assumes listing_newest: "invar s \<Longrightarrow> 0 < n \<Longrightarrow> \<exists>xs. listing n s = Some xs \<and> newest key n (holds s) xs"
begin

lemma listing_distinct:
  assumes "invar s" and "0 < n" and "listing n s = Some xs"
  shows "distinct (map key xs)"
proof -
  have "sorted_wrt (\<lambda>a b. key b < key a) xs" using listing_newest [OF assms(1,2)] assms(3) by (auto simp: newest_def)
  then show ?thesis by (induction xs) auto
qed

end

end
