(* ===== verification/Go_Lib.thy ===== *)
theory Go_Lib
  imports Prelude
begin

text \<open>
  The parts of Go's standard library that the program calls, as executable functions with
  their round trips: \<open>strconv\<close> (decimal numbers), \<open>strings\<close>, \<open>encoding/binary\<close>
  (varints, little-endian words), \<open>hash/fnv\<close>, and slice expressions, which panic when the
  bounds are out of order or out of range.
\<close>

unbundle bit_operations_syntax

section \<open>strconv\<close>

datatype num_error = ErrSyntax | ErrRange

definition digit_char :: "nat \<Rightarrow> char" where
  "digit_char d = char_of (48 + d)"

definition is_digit :: "char \<Rightarrow> bool" where
  "is_digit c \<longleftrightarrow> 48 \<le> (of_char c :: nat) \<and> (of_char c :: nat) \<le> 57"

definition digit_val :: "char \<Rightarrow> nat" where
  "digit_val c = of_char c - 48"

fun dec_string :: "nat \<Rightarrow> string" where
  "dec_string n =
     (if n < 10 then [digit_char n] else dec_string (n div 10) @ [digit_char (n mod 10)])"

declare dec_string.simps [simp del]

definition FormatUint :: "u64 \<Rightarrow> string" where
  "FormatUint w = dec_string (unat w)"

definition Itoa :: "int \<Rightarrow> string" where
  "Itoa i = (if i < 0 then CHR ''-'' # dec_string (nat (- i)) else dec_string (nat i))"

text \<open>
  The digit loop of \<open>ParseUint(s, 10, 64)\<close>: a character that is no digit is a syntax
  error, a value past the largest \<open>uint64\<close> is a range error, whichever comes first.
\<close>

fun parse_digits :: "nat \<Rightarrow> string \<Rightarrow> num_error + nat" where
  "parse_digits n [] = Inr n"
| "parse_digits n (c # cs) =
     (if \<not> is_digit c then Inl ErrSyntax
      else if 2 ^ 64 \<le> 10 * n + digit_val c then Inl ErrRange
      else parse_digits (10 * n + digit_val c) cs)"

definition ParseUint :: "string \<Rightarrow> u64 \<times> num_error option" where
  "ParseUint s =
     (if s = [] then (0, Some ErrSyntax)
      else case parse_digits 0 s of
        Inl ErrSyntax \<Rightarrow> (0, Some ErrSyntax)
      | Inl ErrRange \<Rightarrow> (- 1, Some ErrRange)
      | Inr n \<Rightarrow> (of_nat n, None))"

text \<open>\<open>Atoi\<close>: an optional sign, then digits, within the range of a 64-bit \<open>int\<close>.\<close>

definition Atoi :: "string \<Rightarrow> int \<times> num_error option" where
  "Atoi s =
     (let neg = (case s of c # _ \<Rightarrow> c = CHR ''-'' | [] \<Rightarrow> False);
          ds = (case s of c # cs \<Rightarrow> if c = CHR ''-'' \<or> c = CHR ''+'' then cs else s | [] \<Rightarrow> [])
      in case ParseUint ds of
        (_, Some ErrSyntax) \<Rightarrow> (0, Some ErrSyntax)
      | (un, _) \<Rightarrow>
          if \<not> neg \<and> 2 ^ 63 \<le> uint un then (max_i64, Some ErrRange)
          else if neg \<and> 2 ^ 63 < uint un then (min_i64, Some ErrRange)
          else (if neg then - uint un else uint un, None))"

lemma digit_char_props:
  "d < 10 \<Longrightarrow> is_digit (digit_char d)"
  "d < 10 \<Longrightarrow> digit_val (digit_char d) = d"
  by (simp_all add: is_digit_def digit_val_def digit_char_def of_char_of)

lemma parse_digits_append:
  "parse_digits n (xs @ ys) =
     (case parse_digits n xs of Inl e \<Rightarrow> Inl e | Inr m \<Rightarrow> parse_digits m ys)"
  by (induction xs arbitrary: n) auto

lemma dec_string_nonempty [simp]: "dec_string n \<noteq> []"
  by (subst dec_string.simps) simp

lemma parse_dec_string: "n < 2 ^ 64 \<Longrightarrow> parse_digits 0 (dec_string n) = Inr n"
proof (induction n rule: dec_string.induct)
  case (1 n)
  show ?case
  proof (cases "n < 10")
    case True
    with "1.prems" show ?thesis
      by (subst dec_string.simps) (simp add: digit_char_props)
  next
    case False
    with "1" have "parse_digits 0 (dec_string (n div 10)) = Inr (n div 10)" by simp
    with False "1.prems" show ?thesis
      by (subst dec_string.simps) (simp add: parse_digits_append digit_char_props)
  qed
qed

lemma ParseUint_FormatUint [simp]: "ParseUint (FormatUint w) = (w, None)"
proof -
  have "unat w < 2 ^ 64" using unsigned_less [of w] by simp
  then show ?thesis by (simp add: ParseUint_def FormatUint_def parse_dec_string)
qed

lemma dec_string_digits: "c \<in> set (dec_string n) \<Longrightarrow> is_digit c"
proof (induction n rule: dec_string.induct)
  case (1 n)
  then show ?case
    by (subst (asm) (2) dec_string.simps) (auto simp: digit_char_props split: if_splits)
qed

lemma dec_string_sign: "dec_string n = c # cs \<Longrightarrow> c \<noteq> CHR ''-'' \<and> c \<noteq> CHR ''+''"
  using dec_string_digits [of c n] by (auto simp: is_digit_def)

lemma ParseUint_dec_string: "n < 2 ^ 64 \<Longrightarrow> ParseUint (dec_string n) = (of_nat n, None)"
  by (simp add: ParseUint_def parse_dec_string)

lemma uint_of_nat_u64: "n < 2 ^ 64 \<Longrightarrow> uint (of_nat n :: u64) = int n"
  by (simp add: unsigned_of_nat take_bit_nat_eq_self)

lemma Atoi_Itoa:
  assumes "min_i64 \<le> i" and "i \<le> max_i64"
  shows "Atoi (Itoa i) = (i, None)"
proof (cases "i < 0")
  case True
  define n where "n = nat (- i)"
  with True assms have b: "n < 2 ^ 64" and i: "i = - int n"
    by (simp_all add: min_i64_def)
  with True assms show ?thesis
    by (simp add: Atoi_def Itoa_def ParseUint_dec_string [OF b] uint_of_nat_u64 min_i64_def)
next
  case False
  define n where "n = nat i"
  with False assms have b: "n < 2 ^ 64" and i: "i = int n"
    by (simp_all add: max_i64_def)
  obtain c cs where ds: "dec_string n = c # cs"
    by (cases "dec_string n") simp_all
  note sign = dec_string_sign [OF ds]
  from ParseUint_dec_string [OF b] ds
  have "ParseUint (c # cs) = (of_nat n, None)" by simp
  with False assms sign ds i b show ?thesis
    by (simp add: Atoi_def Itoa_def max_i64_def uint_of_nat_u64)
qed

section \<open>strings\<close>

definition HasPrefix :: "string \<Rightarrow> string \<Rightarrow> bool" where
  "HasPrefix s p \<longleftrightarrow> take (length p) s = p"

definition HasSuffix :: "string \<Rightarrow> string \<Rightarrow> bool" where
  "HasSuffix s p \<longleftrightarrow> length p \<le> length s \<and> drop (length s - length p) s = p"

definition TrimPrefix :: "string \<Rightarrow> string \<Rightarrow> string" where
  "TrimPrefix s p = (if HasPrefix s p then drop (length p) s else s)"

text \<open>\<open>strings.Split\<close> with a separator of one character.\<close>

fun Split :: "char \<Rightarrow> string \<Rightarrow> string list" where
  "Split c [] = [[]]"
| "Split c (x # xs) =
     (if x = c then [] # Split c xs
      else case Split c xs of [] \<Rightarrow> [[x]] | p # ps \<Rightarrow> (x # p) # ps)"

fun Contains :: "string \<Rightarrow> string \<Rightarrow> bool" where
  "Contains [] sub = (sub = [])"
| "Contains (x # xs) sub = (HasPrefix (x # xs) sub \<or> Contains xs sub)"

text \<open>
  \<open>strings.TrimSpace\<close> removes leading and trailing white space.  The white space characters
  of Unicode are listed by their UTF-8 encodings.
\<close>

definition white_space :: "string list" where
  "white_space = map (map char_of)
     ([[9], [10], [11], [12], [13], [32], [194, 133], [194, 160], [225, 154, 128],
       [226, 128, 168], [226, 128, 169], [226, 128, 175], [226, 129, 159], [227, 128, 128 :: nat]]
      @ map (\<lambda>k. [226, 128, 128 + k]) [0 ..< 11])"

function trim_left :: "string list \<Rightarrow> string \<Rightarrow> string" where
  "trim_left ws s =
     (case filter (\<lambda>w. w \<noteq> [] \<and> HasPrefix s w) ws of
        [] \<Rightarrow> s
      | w # _ \<Rightarrow> trim_left ws (drop (length w) s))"
  by pat_completeness auto
termination
proof (relation "measure (\<lambda>(ws, s). length s)")
  fix ws s w rest
  assume "filter (\<lambda>w. w \<noteq> [] \<and> HasPrefix s w) ws = w # rest"
  then have "w \<in> set (filter (\<lambda>w. w \<noteq> [] \<and> HasPrefix s w) ws)" by simp
  then have "w \<noteq> []" and "take (length w) s = w" by (simp_all add: HasPrefix_def)
  moreover from this have "s \<noteq> []" by auto
  ultimately show "((ws, drop (length w) s), (ws, s)) \<in> measure (\<lambda>(ws, s). length s)"
    by (simp add: diff_less)
qed simp

declare trim_left.simps [simp del]

definition TrimSpace :: "string \<Rightarrow> string" where
  "TrimSpace s = rev (trim_left (map rev white_space) (rev (trim_left white_space s)))"

text \<open>
  \<open>strings.ToLower\<close>: on ASCII text the letters A to Z change; on other text the Unicode case
  tables decide, which the argument \<open>uni\<close> stands for.
\<close>

definition ToLower :: "(string \<Rightarrow> string) \<Rightarrow> string \<Rightarrow> string" where
  "ToLower uni s =
     (if list_all (\<lambda>c. (of_char c :: nat) < 128) s
      then map (\<lambda>c. if 65 \<le> (of_char c :: nat) \<and> (of_char c :: nat) \<le> 90
                    then char_of (of_char c + 32 :: nat) else c) s
      else uni s)"

lemma Split_nonempty [simp]: "Split c s \<noteq> []"
  by (cases s) (auto split: list.splits)

lemma Split_absent: "c \<notin> set s \<Longrightarrow> Split c s = [s]"
  by (induction s) auto

lemma Split_sep: "c \<notin> set p \<Longrightarrow> Split c (p @ c # s) = p # Split c s"
  by (induction p) auto

lemma HasPrefix_append [simp]: "HasPrefix (p @ s) p"
  by (simp add: HasPrefix_def)

lemma HasPrefix_obtain: "HasPrefix s p \<Longrightarrow> \<exists>r. s = p @ r"
  unfolding HasPrefix_def by (metis append_take_drop_id)

lemma Contains_iff: "Contains s sub \<longleftrightarrow> (\<exists>a b. s = a @ sub @ b)"
proof (induction s)
  case Nil
  then show ?case by simp
next
  case IH: (Cons x xs)
  show ?case
  proof
    assume "Contains (x # xs) sub"
    then consider "HasPrefix (x # xs) sub" | "Contains xs sub" by auto
    then show "\<exists>a b. x # xs = a @ sub @ b"
    proof cases
      case 1
      then show ?thesis using HasPrefix_obtain by (metis append_Nil)
    next
      case 2
      then show ?thesis using IH by (metis append_Cons)
    qed
  next
    assume "\<exists>a b. x # xs = a @ sub @ b"
    then obtain a b where ab: "x # xs = a @ sub @ b" by blast
    show "Contains (x # xs) sub"
    proof (cases a)
      case Nil
      then have "HasPrefix (x # xs) sub" using ab by simp
      then show ?thesis by simp
    next
      case (Cons y ys)
      with ab have "\<exists>a b. xs = a @ sub @ b" by auto
      then show ?thesis using IH by simp
    qed
  qed
qed

section \<open>encoding/binary and slices\<close>

text \<open>
  \<open>s[lo:hi]\<close>.  Go bounds a slice expression by the capacity; the model panics already past
  the length, so code shown not to panic here does not panic in Go.
\<close>

definition slice :: "'a list \<Rightarrow> int \<Rightarrow> int \<Rightarrow> 'a list go" where
  "slice s lo hi =
     (if 0 \<le> lo \<and> lo \<le> hi \<and> hi \<le> int (length s)
      then Some (take (nat (hi - lo)) (drop (nat lo) s)) else None)"

fun le_word :: "bytes \<Rightarrow> 'a::len word" where
  "le_word [] = 0"
| "le_word (b # bs) = ucast b OR push_bit 8 (le_word bs)"

fun put_le :: "nat \<Rightarrow> 'a::len word \<Rightarrow> bytes" where
  "put_le 0 w = []"
| "put_le (Suc n) w = ucast w # put_le n (drop_bit 8 w)"

text \<open>\<open>LittleEndian.Uint64(d[lo:lo+8])\<close> and \<open>LittleEndian.Uint32(d[lo:lo+4])\<close>.\<close>

definition le_uint64 :: "bytes \<Rightarrow> int \<Rightarrow> u64 go" where
  "le_uint64 d lo = do { b \<leftarrow> slice d lo (lo + 8); Some (le_word b) }"

definition le_uint32 :: "bytes \<Rightarrow> int \<Rightarrow> u32 go" where
  "le_uint32 d lo = do { b \<leftarrow> slice d lo (lo + 4); Some (le_word b) }"

text \<open>
  \<open>binary.Uvarint\<close> returns the value and the number of bytes read: 0 when the buffer is
  too small, negative when the value overflows 64 bits.
\<close>

fun uvarint_loop :: "nat \<Rightarrow> nat \<Rightarrow> u64 \<Rightarrow> bytes \<Rightarrow> u64 \<times> int" where
  "uvarint_loop i s x [] = (0, 0)"
| "uvarint_loop i s x (b # bs) =
     (if i = 10 then (0, - (int i + 1))
      else if b < 0x80 then
        (if i = 9 \<and> b > 1 then (0, - (int i + 1))
         else (x OR push_bit s (ucast b), int i + 1))
      else uvarint_loop (Suc i) (s + 7) (x OR push_bit s (ucast (b AND 0x7f))) bs)"

definition Uvarint :: "bytes \<Rightarrow> u64 \<times> int" where
  "Uvarint buf = uvarint_loop 0 0 0 buf"

function PutUvarint :: "u64 \<Rightarrow> bytes" where
  "PutUvarint x =
     (if x < 0x80 then [ucast x] else (ucast x OR 0x80) # PutUvarint (drop_bit 7 x))"
  by pat_completeness auto
termination
proof (relation "measure unat")
  fix x :: u64
  assume "\<not> x < 0x80"
  then have "x \<noteq> 0" by auto
  then have "drop_bit 7 (unat x) < unat x"
    by (simp add: unat_gt_0 drop_bit_eq_div)
  then show "(drop_bit 7 x, x) \<in> measure unat"
    by (simp only: in_measure unat_drop_bit_eq)
qed simp

declare PutUvarint.simps [simp del]

lemma low7: "(b AND 0x7f :: u8) = take_bit 7 b"
  by (simp add: take_bit_eq_mask mask_eq_exp_minus_1)

lemma high_bit: "(0x80 :: u8) = push_bit 7 1"
  by simp

lemma varint_step:
  fixes y :: u64
  shows "push_bit s (ucast ((ucast y OR 0x80 :: u8) AND 0x7f)) OR push_bit (s + 7) (drop_bit 7 y)
    = (push_bit s y :: u64)"
  unfolding low7 high_bit
proof (rule bit_word_eqI)
  fix n
  assume "n < LENGTH(64)"
  moreover have "7 + (n - (s + 7)) = n - s" if "s + 7 \<le> n" using that by simp
  ultimately show "bit (push_bit s (ucast (take_bit 7 (ucast y OR push_bit 7 1 :: u8)))
      OR push_bit (s + 7) (drop_bit 7 y)) n = bit (push_bit s y) n"
    by (cases "s + 7 \<le> n") (auto simp: bit_simps)
qed

lemma Uvarint_put_loop:
  "i \<le> 9 \<Longrightarrow> unat y < 2 ^ (64 - 7 * i) \<Longrightarrow>
   uvarint_loop i (7 * i) x (PutUvarint y @ rest)
     = (x OR push_bit (7 * i) y, int i + int (length (PutUvarint y)))"
proof (induction y arbitrary: i x rule: PutUvarint.induct)
  case (1 y)
  show ?case
  proof (cases "y < 0x80")
    case True
    then have put: "PutUvarint y = [ucast y]" by (simp add: PutUvarint.simps)
    from True have small: "unat y < 128" by (simp add: word_less_nat_alt)
    then have uc: "unat (ucast y :: u8) = unat y" by (simp add: unsigned_ucast_eq take_bit_nat_eq_self)
    have up: "ucast (ucast y :: u8) = y"
      using small by (simp add: word_unat_eq_iff unsigned_ucast_eq unsigned_take_bit_eq take_bit_nat_eq_self)
    have "\<not> (i = 9 \<and> (ucast y :: u8) > 1)"
      using "1.prems"(2) uc by (auto simp: word_less_nat_alt)
    with "1.prems"(1) put uc small up show ?thesis
      by (simp add: word_less_nat_alt)
  next
    case False
    then have put: "PutUvarint y = (ucast y OR 0x80) # PutUvarint (drop_bit 7 y)"
      by (simp add: PutUvarint.simps [of y])
    from False have big: "128 \<le> unat y" by (simp add: word_less_nat_alt)
    have i: "Suc i \<le> 9"
    proof (rule ccontr)
      assume "\<not> Suc i \<le> 9"
      then have "(2 :: nat) ^ (64 - 7 * i) \<le> 2 ^ 1"
        using "1.prems"(1) by (intro power_increasing) simp_all
      with "1.prems"(2) big show False by simp
    qed
    have "unat (drop_bit 7 y) < 2 ^ (64 - 7 * Suc i)"
    proof -
      have "64 - 7 * i = (64 - 7 * Suc i) + 7" using i by simp
      then have "unat y < 2 ^ (64 - 7 * Suc i) * 2 ^ 7"
        using "1.prems"(2) by (metis power_add)
      then have "drop_bit 7 (unat y) < 2 ^ (64 - 7 * Suc i)"
        by (simp only: drop_bit_eq_div less_mult_imp_div_less)
      then show ?thesis by (simp only: unat_drop_bit_eq)
    qed
    from "1.IH" [OF False i this]
    have "uvarint_loop (Suc i) (7 * i + 7) z (PutUvarint (drop_bit 7 y) @ rest)
      = (z OR push_bit (7 * i + 7) (drop_bit 7 y), int (Suc i) + int (length (PutUvarint (drop_bit 7 y))))" for z
      by (simp add: add.commute)
    moreover have "\<not> ((ucast y OR 0x80 :: u8) < 0x80)"
      using le_word_or1 [of "0x80 :: u8" "ucast y"] by (simp add: not_less)
    ultimately show ?thesis
      using i put by (simp add: varint_step or.assoc)
  qed
qed

lemma Uvarint_PutUvarint:
  "Uvarint (PutUvarint x @ rest) = (x, int (length (PutUvarint x)))"
proof -
  have "unat x < 2 ^ (64 - 7 * 0)" using unsigned_less [of x] by simp
  then show ?thesis
    using Uvarint_put_loop [of 0 x 0 rest] by (simp add: Uvarint_def)
qed

lemma PutUvarint_nonempty [simp]: "PutUvarint x \<noteq> []"
  by (subst PutUvarint.simps) simp

text \<open>More bytes never change a decision: a value or an overflow stays what it is.\<close>

lemma uvarint_loop_append:
  "uvarint_loop i s x bs = (v, n) \<Longrightarrow> n \<noteq> 0 \<Longrightarrow> uvarint_loop i s x (bs @ cs) = (v, n)"
  by (induction i s x bs rule: uvarint_loop.induct) (auto split: if_splits)

lemma Uvarint_append: "Uvarint bs = (v, n) \<Longrightarrow> n \<noteq> 0 \<Longrightarrow> Uvarint (bs @ cs) = (v, n)"
  by (simp add: Uvarint_def uvarint_loop_append)

lemma uvarint_loop_len:
  "uvarint_loop i s x bs = (v, n) \<Longrightarrow> 0 < n \<Longrightarrow> i \<le> 10 \<Longrightarrow> n \<le> int i + int (length bs) \<and> n \<le> 10 \<and> int i < n"
proof (induction i s x bs rule: uvarint_loop.induct)
  case (1 i s x)
  then show ?case by simp
next
  case (2 i s x b bs)
  then show ?case by (auto split: if_splits)
qed

lemma Uvarint_len: "Uvarint bs = (v, n) \<Longrightarrow> 0 < n \<Longrightarrow> 1 \<le> n \<and> n \<le> 10 \<and> n \<le> int (length bs)"
  using uvarint_loop_len [of 0 0 0 bs v n] by (simp add: Uvarint_def)

lemma uvarint_loop_short: "uvarint_loop i s x bs = (v, 0) \<Longrightarrow> i \<le> 10 \<Longrightarrow> i + length bs \<le> 10"
  by (induction i s x bs rule: uvarint_loop.induct) (auto split: if_splits)

lemma Uvarint_short: "Uvarint bs = (v, 0) \<Longrightarrow> length bs \<le> 10"
  using uvarint_loop_short [of 0 0 0 bs v] by (simp add: Uvarint_def)

lemma PutUvarint_length: "1 \<le> length (PutUvarint x) \<and> length (PutUvarint x) \<le> 10"
  using Uvarint_PutUvarint [of x "[]"] Uvarint_len [of "PutUvarint x" x "int (length (PutUvarint x))"]
    PutUvarint.simps [of x]
  by (auto split: if_splits)

lemma slice_Some: "0 \<le> lo \<Longrightarrow> lo \<le> hi \<Longrightarrow> hi \<le> int (length s) \<Longrightarrow>
    slice s lo hi = Some (take (nat (hi - lo)) (drop (nat lo) s))"
  by (simp add: slice_def)

lemma le_uint64_Some: "0 \<le> lo \<Longrightarrow> lo + 8 \<le> int (length d) \<Longrightarrow>
    le_uint64 d lo = Some (le_word (take 8 (drop (nat lo) d)))"
  by (simp add: le_uint64_def slice_Some)

lemma le_uint32_Some: "0 \<le> lo \<Longrightarrow> lo + 4 \<le> int (length d) \<Longrightarrow>
    le_uint32 d lo = Some (le_word (take 4 (drop (nat lo) d)))"
  by (simp add: le_uint32_def slice_Some)

lemma length_put_le [simp]: "length (put_le n w) = n"
  by (induction n arbitrary: w) simp_all

lemma le_word_put_le:
  fixes w :: "'a::len word"
  shows "le_word (put_le n w) = take_bit (8 * n) w"
proof (induction n arbitrary: w)
  case 0
  then show ?case by simp
next
  case (Suc n)
  have "ucast (ucast w :: u8) OR push_bit 8 (take_bit (8 * n) (drop_bit 8 w)) = take_bit (8 * Suc n) w"
  proof (rule bit_word_eqI)
    fix k
    assume "k < LENGTH('a)"
    moreover have "8 + (k - 8) = k" if "8 \<le> k" using that by simp
    ultimately show "bit (ucast (ucast w :: u8) OR push_bit 8 (take_bit (8 * n) (drop_bit 8 w))) k
        = bit (take_bit (8 * Suc n) w) k"
      by (cases "8 \<le> k") (auto simp: bit_simps)
  qed
  with Suc show ?case by simp
qed

lemma le_uint64_put:
  assumes "nat lo = length pre" and "0 \<le> lo"
  shows "le_uint64 (pre @ put_le 8 w @ post) lo = Some w"
  using assms by (simp add: le_uint64_Some le_word_put_le take_bit_word_eq_self)

lemma le_uint32_put:
  assumes "nat lo = length pre" and "0 \<le> lo"
  shows "le_uint32 (pre @ put_le 4 w @ post) lo = Some w"
  using assms by (simp add: le_uint32_Some le_word_put_le take_bit_word_eq_self)

section \<open>Framings\<close>

text \<open>
  What a framing promises: a frame is taken back off the front of a stream, whatever
  follows it.
\<close>

locale framing =
  fixes enc :: "bytes \<Rightarrow> bytes"
    and dec :: "bytes \<Rightarrow> 'e + bytes \<times> bytes"
    and fits :: "bytes \<Rightarrow> bool"
  assumes dec_enc: "fits d \<Longrightarrow> dec (enc d @ rest) = Inr (d, rest)"
begin

text \<open>Reading as many frames as were written returns them in order.\<close>

primrec dec_many :: "nat \<Rightarrow> bytes \<Rightarrow> 'e + bytes list \<times> bytes" where
  "dec_many 0 r = Inr ([], r)"
| "dec_many (Suc n) r =
     (case dec r of
        Inl e \<Rightarrow> Inl e
      | Inr (d, r') \<Rightarrow>
          (case dec_many n r' of Inl e \<Rightarrow> Inl e | Inr (ds, r'') \<Rightarrow> Inr (d # ds, r'')))"

lemma dec_many_concat:
  "list_all fits ds \<Longrightarrow> dec_many (length ds) (concat (map enc ds) @ rest) = Inr (ds, rest)"
  by (induction ds) (simp_all add: dec_enc)

lemma enc_inj: "fits d \<Longrightarrow> fits d' \<Longrightarrow> enc d = enc d' \<Longrightarrow> d = d'"
  using dec_enc [of d "[]"] dec_enc [of d' "[]"] by simp

end

section \<open>hash/fnv\<close>

definition fnv64a :: "bytes \<Rightarrow> u64" where
  "fnv64a data = foldl (\<lambda>h b. (h XOR ucast b) * 1099511628211) 14695981039346656037 data"

end
