(* ===== verification/Ssz.thy ===== *)
theory Ssz
  imports Go_Lib
begin

text \<open>
  \<open>internal/eth/ssz_slot.go\<close> and \<open>internal/eth/ssz_meta.go\<close>: reading the slot number and
  block metadata out of a gossip payload at fixed SSZ offsets, and the cache of decoded
  payloads.

  Every slice expression of the source is a \<open>slice\<close> that can panic; the theorems show that
  no payload reaches a panic.  Snappy is a third-party package: \<open>snappy data\<close> is the
  result of \<open>snappy.Decode(nil, data)\<close>, \<open>None\<close> for an error.  The package-level variable
  \<open>decodeCache\<close> is passed in and returned.
\<close>

section \<open>Slot offsets and topic names\<close>

definition topicSlotOffset :: "(string, int) gomap" where
  "topicSlotOffset =
     [(''beacon_block'', 100),
      (''beacon_aggregate_and_proof'', 212),
      (''beacon_attestation'', 4),
      (''proposer_slashing'', 0),
      (''attester_slashing'', 12),
      (''sync_committee'', 0),
      (''sync_committee_contribution_and_proof'', 8),
      (''data_column_sidecar'', 20),
      (''blob_sidecar'', 131176)]"

definition subnetPrefixes :: "string list" where
  "subnetPrefixes =
     [''beacon_attestation_'', ''sync_committee_'', ''data_column_sidecar_'', ''blob_sidecar_'']"

definition isDigits :: "string \<Rightarrow> bool" where
  "isDigits s \<longleftrightarrow> list_all is_digit s"

fun strip_loop :: "string list \<Rightarrow> string \<Rightarrow> string" where
  "strip_loop [] topic = topic"
| "strip_loop (prefix # ps) topic =
     (if HasPrefix topic prefix
       \<and> (let suffix = drop (length prefix) topic in suffix \<noteq> [] \<and> isDigits suffix)
      then take (length prefix - 1) topic
      else strip_loop ps topic)"

definition stripSubnetID :: "string \<Rightarrow> string" where
  "stripSubnetID topic = strip_loop subnetPrefixes topic"

section \<open>Metadata\<close>

record SSZMeta =
  m_ProposerIndex :: u64
  m_AttestationCount :: int
  m_BlobCommitments :: int
  m_TxCount :: int
  m_SidecarIndex :: u64
  m_HasProposer :: bool
  m_HasAttestations :: bool
  m_HasCommitments :: bool
  m_HasTxCount :: bool
  m_HasSidecarIndex :: bool

definition zero_SSZMeta :: SSZMeta where
  "zero_SSZMeta = \<lparr>m_ProposerIndex = 0, m_AttestationCount = 0, m_BlobCommitments = 0, m_TxCount = 0,
     m_SidecarIndex = 0, m_HasProposer = False, m_HasAttestations = False, m_HasCommitments = False,
     m_HasTxCount = False, m_HasSidecarIndex = False\<rparr>"

text \<open>
  The number of elements of a list of variable-size elements that lies at \<open>start\<close>: its
  first offset divided by four.  The source repeats these lines for attestations and for
  transactions.
\<close>

definition offset_list_count :: "bytes \<Rightarrow> int \<Rightarrow> int \<Rightarrow> int option go" where
  "offset_list_count data start stop =
     (if stop > start \<and> start + 4 \<le> int (length data) then do {
        firstOff \<leftarrow> le_uint32 data start;
        Some (if uint firstOff > 0 \<and> uint firstOff mod 4 = 0 then Some (uint firstOff div 4) else None)
      }
      else if stop = start then Some (Some 0)
      else Some None)"

definition with_attestations :: "int option \<Rightarrow> SSZMeta \<Rightarrow> SSZMeta" where
  "with_attestations c m = (case c of None \<Rightarrow> m
     | Some n \<Rightarrow> m\<lparr>m_AttestationCount := n, m_HasAttestations := True\<rparr>)"

definition with_txs :: "int option \<Rightarrow> SSZMeta \<Rightarrow> SSZMeta" where
  "with_txs c m = (case c of None \<Rightarrow> m
     | Some n \<Rightarrow> m\<lparr>m_TxCount := n, m_HasTxCount := True\<rparr>)"

definition decodeBeaconBlockMeta :: "bytes \<Rightarrow> SSZMeta go" where
  "decodeBeaconBlockMeta data =
     (let blockBase = 100; len = int (length data) in
      if len < blockBase + 84 then Some zero_SSZMeta
      else do {
        proposer \<leftarrow> le_uint64 data (blockBase + 8);
        bodyOff \<leftarrow> le_uint32 data (blockBase + 80);
        let m = zero_SSZMeta\<lparr>m_ProposerIndex := proposer, m_HasProposer := True\<rparr>;
        let bodyBase = blockBase + uint bodyOff;
        if len < bodyBase + 396 then Some m
        else do {
          attOff \<leftarrow> le_uint32 data (bodyBase + 208);
          depOff \<leftarrow> le_uint32 data (bodyBase + 212);
          atts \<leftarrow> offset_list_count data (bodyBase + uint attOff) (bodyBase + uint depOff);
          let m = with_attestations atts m;
          blobKzgOff \<leftarrow> le_uint32 data (bodyBase + 388);
          execReqOff \<leftarrow> le_uint32 data (bodyBase + 392);
          let regionSize = uint execReqOff - uint blobKzgOff;
          let m = (if regionSize \<ge> 0
                   then m\<lparr>m_BlobCommitments := regionSize div 48, m_HasCommitments := True\<rparr> else m);
          epOff \<leftarrow> le_uint32 data (bodyBase + 380);
          let epBase = bodyBase + uint epOff;
          if epBase + 512 \<le> len then do {
            txOff \<leftarrow> le_uint32 data (epBase + 504);
            wdOff \<leftarrow> le_uint32 data (epBase + 508);
            txs \<leftarrow> offset_list_count data (epBase + uint txOff) (epBase + uint wdOff);
            Some (with_txs txs m)
          }
          else Some m
        }
      })"

definition decodeSidecarMeta :: "bytes \<Rightarrow> SSZMeta go" where
  "decodeSidecarMeta data =
     (if int (length data) \<ge> 8 then do {
        index \<leftarrow> le_uint64 data 0;
        Some (zero_SSZMeta\<lparr>m_SidecarIndex := index, m_HasSidecarIndex := True\<rparr>)
      }
      else Some zero_SSZMeta)"

definition DecodeMeta :: "string \<Rightarrow> bytes \<Rightarrow> SSZMeta go" where
  "DecodeMeta normalizedTopic data =
     (let base = stripSubnetID normalizedTopic in
      if base = ''beacon_block'' then decodeBeaconBlockMeta data
      else if base = ''blob_sidecar'' then decodeSidecarMeta data
      else if base = ''data_column_sidecar'' then decodeSidecarMeta data
      else Some zero_SSZMeta)"

section \<open>Decoding payloads\<close>

type_synonym snappy = "bytes \<Rightarrow> bytes option"

definition decompress :: "snappy \<Rightarrow> bytes \<Rightarrow> bytes" where
  "decompress snappy data = (case snappy data of None \<Rightarrow> data | Some d \<Rightarrow> d)"

text \<open>The slot at the topic's offset, and whether there is one.\<close>

definition slot_at :: "string \<Rightarrow> bytes \<Rightarrow> (u64 \<times> bool) go" where
  "slot_at base data =
     (case gget topicSlotOffset base of
        None \<Rightarrow> Some (0, False)
      | Some offset \<Rightarrow>
          if int (length data) < offset + 8 then Some (0, False)
          else do { slot \<leftarrow> le_uint64 data offset; Some (slot, True) })"

definition DecodeSlot :: "snappy \<Rightarrow> string \<Rightarrow> bytes \<Rightarrow> (u64 \<times> bool) go" where
  "DecodeSlot snappy normalizedTopic compressedData =
     (let base = stripSubnetID normalizedTopic in
      if gget topicSlotOffset base = None then Some (0, False)
      else slot_at base (decompress snappy compressedData))"

record cachedPayload =
  cp_slot :: u64
  cp_slotOk :: bool
  cp_meta :: SSZMeta

type_synonym decode_cache = "(u64, cachedPayload) gomap"

definition decodeCacheMax :: nat where
  "decodeCacheMax = 256"

definition payloadKey :: "bytes \<Rightarrow> u64" where
  "payloadKey data = fnv64a data"

text \<open>What \<open>DecodePayload\<close> computes when the cache has no entry.\<close>

definition decodeUncached :: "snappy \<Rightarrow> string \<Rightarrow> bytes \<Rightarrow> cachedPayload go" where
  "decodeUncached snappy normalizedTopic compressedData = do {
     let data = decompress snappy compressedData;
     (slot, slotOk) \<leftarrow> slot_at (stripSubnetID normalizedTopic) data;
     meta \<leftarrow> DecodeMeta normalizedTopic data;
     Some \<lparr>cp_slot = slot, cp_slotOk = slotOk, cp_meta = meta\<rparr>
   }"

definition DecodePayload ::
  "snappy \<Rightarrow> decode_cache \<Rightarrow> string \<Rightarrow> bytes \<Rightarrow> (cachedPayload \<times> decode_cache) go" where
  "DecodePayload snappy cache normalizedTopic compressedData =
     (let key = payloadKey compressedData in
      case gget cache key of
        Some cached \<Rightarrow> Some (cached, cache)
      | None \<Rightarrow> do {
          res \<leftarrow> decodeUncached snappy normalizedTopic compressedData;
          let cache = (if length cache \<ge> decodeCacheMax then [] else cache);
          Some (res, gput key res cache)
        })"

section \<open>No payload makes the decoder panic\<close>

lemma offset_list_count_total: "0 \<le> start \<Longrightarrow> \<exists>c. offset_list_count data start stop = Some c"
  by (simp add: offset_list_count_def le_uint32_Some)

lemma decodeBeaconBlockMeta_total: "\<exists>m. decodeBeaconBlockMeta data = Some m"
proof (cases "int (length data) < 184")
  case True
  then show ?thesis by (simp add: decodeBeaconBlockMeta_def Let_def)
next
  case False
  then obtain p off where rd: "le_uint64 data 108 = Some p" "le_uint32 data 180 = Some off"
    by (simp add: le_uint64_Some le_uint32_Some)
  define b where "b = 100 + uint off"
  have b: "0 \<le> b" by (simp add: b_def)
  show ?thesis
  proof (cases "int (length data) < b + 396")
    case True
    with False rd show ?thesis by (simp add: decodeBeaconBlockMeta_def Let_def b_def)
  next
    case inside: False
    then obtain a d k e q where
      "le_uint32 data (b + 208) = Some a" "le_uint32 data (b + 212) = Some d"
      "le_uint32 data (b + 388) = Some k" "le_uint32 data (b + 392) = Some e"
      "le_uint32 data (b + 380) = Some q"
      using b by (simp add: le_uint32_Some)
    moreover obtain atts where "offset_list_count data (b + uint a) (b + uint d) = Some atts"
      using offset_list_count_total [of "b + uint a"] b by auto
    moreover have "\<exists>t w txs. le_uint32 data (b + uint q + 504) = Some t
        \<and> le_uint32 data (b + uint q + 508) = Some w
        \<and> offset_list_count data (b + uint q + uint t) (b + uint q + uint w) = Some txs"
      if "b + uint q + 512 \<le> int (length data)"
      using that b offset_list_count_total by (simp add: le_uint32_Some)
    ultimately show ?thesis
      using False inside rd by (auto simp: decodeBeaconBlockMeta_def Let_def b_def [symmetric])
  qed
qed

lemma decodeSidecarMeta_total: "\<exists>m. decodeSidecarMeta data = Some m"
  by (simp add: decodeSidecarMeta_def le_uint64_Some)

lemma DecodeMeta_total: "\<exists>m. DecodeMeta topic data = Some m"
  using decodeBeaconBlockMeta_total decodeSidecarMeta_total by (simp add: DecodeMeta_def Let_def)

lemma topicSlotOffset_nonneg: "gget topicSlotOffset base = Some offset \<Longrightarrow> 0 \<le> offset"
  by (auto simp: topicSlotOffset_def split: if_splits)

lemma slot_at_total: "\<exists>r. slot_at base data = Some r"
  using topicSlotOffset_nonneg [of base] by (auto simp: slot_at_def le_uint64_Some split: option.split)

lemma decodeUncached_total: "\<exists>r. decodeUncached snappy topic data = Some r"
  using slot_at_total [of "stripSubnetID topic" "decompress snappy data"]
    DecodeMeta_total [of topic "decompress snappy data"]
  by (auto simp: decodeUncached_def Let_def)

lemma DecodePayload_total: "\<exists>r cache'. DecodePayload snappy cache topic data = Some (r, cache')"
  using decodeUncached_total [of snappy topic data]
  by (auto simp: DecodePayload_def Let_def split: option.split)

lemma DecodePayload_cases:
  assumes "DecodePayload snappy cache topic data = Some (r, cache')"
  obtains (hit) "gget cache (payloadKey data) = Some r" and "cache' = cache"
  | (miss) "gget cache (payloadKey data) = None" and "decodeUncached snappy topic data = Some r"
      and "cache' = gput (payloadKey data) r (if length cache \<ge> decodeCacheMax then [] else cache)"
  using assms by (auto simp: DecodePayload_def Let_def bind_eq_Some_conv split: option.splits)

text \<open>
  C36: whatever bytes a peer publishes on whatever topic, and whatever Snappy makes of them,
  decoding the payload returns: no slice of the SSZ decoder is out of range, and the
  cache holds at most 256 entries afterwards if it did before.
\<close>

theorem DecodePayload_never_panics:
  "\<exists>r cache'. DecodePayload snappy cache topic data = Some (r, cache')
     \<and> length cache' \<le> max (length cache) decodeCacheMax"
proof -
  obtain r cache' where dec: "DecodePayload snappy cache topic data = Some (r, cache')"
    using DecodePayload_total by blast
  moreover have "length cache' \<le> max (length cache) decodeCacheMax"
    using dec by (cases rule: DecodePayload_cases) (auto simp: length_gput decodeCacheMax_def)
  ultimately show ?thesis by blast
qed

section \<open>What is read\<close>

lemma isDigits_Nil [simp]: "isDigits []"
  by (simp add: isDigits_def)

lemma HasPrefix_eq: "HasPrefix (p @ s) p" by (rule HasPrefix_append)

text \<open>
  a subnet topic is reduced to its base name: for each of the four subnet families, the
  family name followed by an underscore and a decimal subnet number is stripped to the
  family name, and the result has a slot offset.
\<close>

lemma stripSubnetID_subnet:
  assumes "base \<in> {''beacon_attestation'', ''sync_committee'', ''data_column_sidecar'', ''blob_sidecar''}"
    and "n \<noteq> []" and "isDigits n"
  shows "stripSubnetID (base @ ''_'' @ n) = base \<and> gget topicSlotOffset base \<noteq> None"
  using assms
  by (auto simp: stripSubnetID_def subnetPrefixes_def HasPrefix_def topicSlotOffset_def Let_def)

text \<open>
  C37: the slot written little-endian at a topic's offset is the slot that is decoded, whether
  the payload is Snappy-compressed or arrives uncompressed and Snappy rejects it.
\<close>

theorem DecodeSlot_reads_slot:
  assumes "gget topicSlotOffset (stripSubnetID topic) = Some (int (length pre))"
    and "snappy payload = Some (pre @ put_le 8 slot @ post)
      \<or> snappy payload = None \<and> payload = pre @ put_le 8 slot @ post"
  shows "DecodeSlot snappy topic payload = Some (slot, True)"
proof -
  have data: "decompress snappy payload = pre @ put_le 8 slot @ post"
    using assms(2) by (auto simp: decompress_def)
  have "le_uint64 (pre @ put_le 8 slot @ post) (int (length pre)) = Some slot"
    by (rule le_uint64_put) simp_all
  with assms(1) data show ?thesis by (simp add: DecodeSlot_def Let_def slot_at_def)
qed

theorem DecodeSlot_reads_slot_witness:
  "DecodeSlot (\<lambda>_. None) ''beacon_attestation_5'' ([9, 9, 9, 9] @ put_le 8 (99 :: u64) @ [7]) = Some (99, True)"
  by (rule DecodeSlot_reads_slot [where pre = "[9, 9, 9, 9]" and post = "[7]"])
    (simp_all add: stripSubnetID_def subnetPrefixes_def HasPrefix_def topicSlotOffset_def Let_def
      isDigits_def is_digit_def)

text \<open>
  An SSZ list of variable-size elements: the table of 4-byte offsets, then the elements.
\<close>

fun ssz_offsets :: "nat \<Rightarrow> bytes list \<Rightarrow> bytes" where
  "ssz_offsets off [] = []"
| "ssz_offsets off (x # xs) = put_le 4 (of_nat off :: u32) @ ssz_offsets (off + length x) xs"

definition ssz_list :: "bytes list \<Rightarrow> bytes" where
  "ssz_list xs = ssz_offsets (4 * length xs) xs @ concat xs"

text \<open>
  the count of attestations and of transactions is right: where the bytes from
  \<open>start\<close> to \<open>stop\<close> are the SSZ encoding of a list of variable-size elements, the
  count read from its first offset is the number of elements, including zero.
\<close>

lemma offset_list_count_ssz:
  assumes "start = int (length pre)" and "stop = start + int (length (ssz_list xs))"
    and "4 * length xs < 2 ^ 32"
  shows "offset_list_count (pre @ ssz_list xs @ post) start stop = Some (Some (int (length xs)))"
proof (cases xs)
  case Nil
  then show ?thesis using assms(1,2) by (simp add: offset_list_count_def ssz_list_def)
next
  case (Cons x ys)
  define rest where "rest = ssz_offsets (4 * length xs + length x) ys @ concat xs"
  have enc: "ssz_list xs = put_le 4 (of_nat (4 * length xs) :: u32) @ rest"
    by (simp add: ssz_list_def Cons rest_def)
  have rd: "le_uint32 (pre @ put_le 4 (of_nat (4 * length xs) :: u32) @ rest @ post) start
      = Some (of_nat (4 * length xs))"
    using assms(1) by (intro le_uint32_put) simp_all
  have u: "uint (of_nat (4 * length xs) :: u32) = 4 * int (length xs)"
    using assms(3) by (simp add: unsigned_of_nat take_bit_nat_eq_self del: of_nat_mult)
  have "start < stop" and "start + 4 \<le> int (length (pre @ ssz_list xs @ post))"
    using assms(1,2) enc by simp_all
  moreover have "pre @ ssz_list xs @ post = pre @ put_le 4 (of_nat (4 * length xs) :: u32) @ rest @ post"
    by (simp add: enc)
  ultimately show ?thesis
    using rd u Cons by (simp add: offset_list_count_def)
qed

section \<open>The cache\<close>

text \<open>The answers to a sequence of requests, each a topic and a payload, from one cache.\<close>

primrec run_decodes ::
  "snappy \<Rightarrow> decode_cache \<Rightarrow> (string \<times> bytes) list \<Rightarrow> cachedPayload list go" where
  "run_decodes snappy cache [] = Some []"
| "run_decodes snappy cache (q # qs) = do {
     (r, cache) \<leftarrow> DecodePayload snappy cache (fst q) (snd q);
     rs \<leftarrow> run_decodes snappy cache qs;
     Some (r # rs)
   }"

text \<open>No two requests with the same cache key differ in payload or base topic.\<close>

definition keys_separate :: "(string \<times> bytes) set \<Rightarrow> bool" where
  "keys_separate Q \<longleftrightarrow> (\<forall>(t, d) \<in> Q. \<forall>(t', d') \<in> Q.
     payloadKey d = payloadKey d' \<longrightarrow> d = d' \<and> stripSubnetID t = stripSubnetID t')"

definition cache_from :: "snappy \<Rightarrow> (string \<times> bytes) set \<Rightarrow> decode_cache \<Rightarrow> bool" where
  "cache_from snappy Q cache \<longleftrightarrow> (\<forall>k r. gget cache k = Some r \<longrightarrow>
     (\<exists>(t, d) \<in> Q. payloadKey d = k \<and> decodeUncached snappy t d = Some r))"

lemma decodeUncached_base:
  "stripSubnetID t = stripSubnetID t' \<Longrightarrow> decodeUncached snappy t d = decodeUncached snappy t' d"
  by (simp add: decodeUncached_def DecodeMeta_def)

lemma DecodePayload_separate:
  assumes "cache_from snappy Q cache" and "keys_separate Q" and "(t, d) \<in> Q"
  shows "\<exists>r cache'. DecodePayload snappy cache t d = Some (r, cache')
     \<and> decodeUncached snappy t d = Some r \<and> cache_from snappy Q cache'"
proof -
  obtain r cache' where dec: "DecodePayload snappy cache t d = Some (r, cache')"
    using DecodePayload_total by blast
  then have "decodeUncached snappy t d = Some r \<and> cache_from snappy Q cache'"
  proof (cases rule: DecodePayload_cases)
    case hit
    then obtain t' d' where q: "(t', d') \<in> Q" "payloadKey d' = payloadKey d"
      and r: "decodeUncached snappy t' d' = Some r"
      using assms(1) by (fastforce simp: cache_from_def)
    then have "d' = d" and "stripSubnetID t' = stripSubnetID t"
      using assms(2,3) by (auto simp: keys_separate_def)
    with r hit assms(1) show ?thesis using decodeUncached_base by metis
  next
    case miss
    then show ?thesis
      using assms(1,3) by (auto simp: cache_from_def split: if_splits)
  qed
  with dec show ?thesis by blast
qed

text \<open>
  C38: the cache changes no answer as long as distinct payloads do not collide under FNV-1a
  and one payload is seen on one base topic only: every request is then answered as if
  it were decoded afresh, whatever evictions happened in between.
\<close>

theorem run_decodes_uncached:
  assumes "keys_separate (set qs)"
  shows "run_decodes snappy [] qs = Some (map (\<lambda>(t, d). the (decodeUncached snappy t d)) qs)"
proof -
  have "run_decodes snappy cache ps = Some (map (\<lambda>(t, d). the (decodeUncached snappy t d)) ps)"
    if "cache_from snappy (set qs) cache" and "set ps \<subseteq> set qs" for cache ps
    using that
  proof (induction ps arbitrary: cache)
    case Nil
    then show ?case by simp
  next
    case (Cons p ps)
    obtain t d where p: "p = (t, d)" by (cases p)
    with Cons.prems obtain r cache' where "DecodePayload snappy cache t d = Some (r, cache')"
      and "decodeUncached snappy t d = Some r" and "cache_from snappy (set qs) cache'"
      using DecodePayload_separate [OF _ assms, of snappy cache t d] by auto
    with Cons p show ?case by simp
  qed
  from this [of "[]" qs] show ?thesis by (simp add: cache_from_def)
qed

theorem run_decodes_uncached_witness:
  "run_decodes (\<lambda>_. None) [] [(''beacon_attestation_1'', [1]), (''beacon_attestation_2'', [1])]
     = Some (map (\<lambda>(t, d). the (decodeUncached (\<lambda>_. None) t d))
         [(''beacon_attestation_1'', [1]), (''beacon_attestation_2'', [1])])"
  by (rule run_decodes_uncached)
    (simp add: keys_separate_def stripSubnetID_def subnetPrefixes_def HasPrefix_def Let_def isDigits_def
      is_digit_def)

text \<open>
  The condition on topics is needed: the key is the payload alone.  The same eight bytes, first
  seen on a topic without a slot offset and then on \<open>sync_committee\<close>, get the first
  topic's answer, although decoding them afresh gives a slot.
\<close>

theorem cache_ignores_topic:
  "run_decodes (\<lambda>_. None) [] [(''voluntary_exit'', put_le 8 (5 :: u64)), (''sync_committee'', put_le 8 (5 :: u64))]
     = Some [\<lparr>cp_slot = 0, cp_slotOk = False, cp_meta = zero_SSZMeta\<rparr>,
             \<lparr>cp_slot = 0, cp_slotOk = False, cp_meta = zero_SSZMeta\<rparr>]
   \<and> decodeUncached (\<lambda>_. None) ''sync_committee'' (put_le 8 (5 :: u64))
     = Some \<lparr>cp_slot = 5, cp_slotOk = True, cp_meta = zero_SSZMeta\<rparr>"
proof -
  have "decodeUncached (\<lambda>_. None) ''voluntary_exit'' (put_le 8 (5 :: u64))
      = Some \<lparr>cp_slot = 0, cp_slotOk = False, cp_meta = zero_SSZMeta\<rparr>"
    by (simp add: decodeUncached_def decompress_def stripSubnetID_def subnetPrefixes_def HasPrefix_def
        slot_at_def topicSlotOffset_def DecodeMeta_def Let_def)
  moreover have "le_uint64 (put_le 8 (5 :: u64)) 0 = Some 5"
    using le_uint64_put [of 0 "[]" 5 "[]"] by simp
  then have "decodeUncached (\<lambda>_. None) ''sync_committee'' (put_le 8 (5 :: u64))
      = Some \<lparr>cp_slot = 5, cp_slotOk = True, cp_meta = zero_SSZMeta\<rparr>"
    by (simp add: decodeUncached_def decompress_def stripSubnetID_def subnetPrefixes_def HasPrefix_def
        slot_at_def topicSlotOffset_def DecodeMeta_def Let_def)
  ultimately show ?thesis
    by (simp add: DecodePayload_def Let_def decodeCacheMax_def)
qed

end
