(* ===== verification/Gossipsub.thy ===== *)
theory Gossipsub
  imports Ssz
begin

text \<open>
  \<open>internal/decode\<close>, \<open>internal/gossipsub/decoder.go\<close>, \<open>internal/eth/gossipsub.go\<close> and
  \<open>internal/processor/decode.go\<close>: the incremental parser of gossipsub streams.

  The protobuf types of go-libp2p-pubsub are not part of the repository.  The records
  below hold what the decoder reads of a message: its optional topic, its data and
  the result of its method \<open>Size\<close>.  \<open>proto.Unmarshal\<close> of an RPC and
  \<open>snappy.Decode\<close> are fields of \<open>externals\<close>.

  \<open>observe\<close> calls \<open>emit\<close> once per action; the model returns the emissions as a list, in the
  order of the calls.  The third argument of \<open>emit\<close>, the parsed object, is ignored by the
  only consumer and left out.
\<close>

section \<open>Tags\<close>

record Tag =
  tag_Name :: string
  tag_Values :: "string list"

definition TagTopic :: string where "TagTopic = ''topic''"
definition TagMessageKind :: string where "TagMessageKind = ''message_kind''"
definition TagFraming :: string where "TagFraming = ''_framing''"
definition TagDecodedSlot :: string where "TagDecodedSlot = ''eth.payload.slot''"
definition TagDecodedFrom :: string where "TagDecodedFrom = ''eth.payload.from''"
definition TagProposerIndex :: string where "TagProposerIndex = ''eth.proposer_index''"
definition TagAttestationCount :: string where "TagAttestationCount = ''eth.attestation_count''"
definition TagBlobCommitments :: string where "TagBlobCommitments = ''eth.blob_commitments''"
definition TagTxCount :: string where "TagTxCount = ''eth.tx_count''"
definition TagSidecarIndex :: string where "TagSidecarIndex = ''eth.sidecar_index''"

lemmas tag_names = TagTopic_def TagMessageKind_def TagFraming_def TagDecodedSlot_def TagDecodedFrom_def
  TagProposerIndex_def TagAttestationCount_def TagBlobCommitments_def TagTxCount_def TagSidecarIndex_def

record emission =
  em_wireBytes :: int
  em_tags :: "Tag list"

type_synonym tag_map = "(string, string list) gomap"

definition tagsFromMap :: "tag_map \<Rightarrow> Tag list" where
  "tagsFromMap m = map (\<lambda>(name, values). \<lparr>tag_Name = name, tag_Values = values\<rparr>) m"

fun tagValue :: "Tag list \<Rightarrow> string \<Rightarrow> string" where
  "tagValue [] name = []"
| "tagValue (tag # tags) name =
     (if tag_Name tag = name \<and> tag_Values tag \<noteq> [] then hd (tag_Values tag) else tagValue tags name)"

section \<open>Pubsub messages\<close>

record SubOpts =
  so_Subscribe :: bool
  so_Topicid :: "string option"
  so_Size :: nat

record PbMessage =
  pm_Topic :: "string option"
  pm_Data :: bytes
  pm_Size :: nat

text \<open>\<open>ControlIHave\<close>, \<open>ControlGraft\<close> and \<open>ControlPrune\<close> carry a topic; the others only a size.\<close>

record TopicControl =
  tc_TopicID :: "string option"
  tc_Size :: nat

record ControlMessage =
  ctl_Ihave :: "TopicControl list"
  ctl_Iwant :: "nat list"
  ctl_Graft :: "TopicControl list"
  ctl_Prune :: "TopicControl list"
  ctl_Idontwant :: "nat list"

record RPC =
  rpc_Subscriptions :: "SubOpts list"
  rpc_Publish :: "PbMessage list"
  rpc_Control :: "ControlMessage option"

record externals =
  ext_snappy :: snappy
  ext_unmarshal :: "bytes \<Rightarrow> string + RPC"

section \<open>Atomising one RPC\<close>

type_synonym MessageDecoder = "PbMessage \<Rightarrow> tag_map \<Rightarrow> decode_cache \<Rightarrow> (tag_map \<times> decode_cache) go"

definition emitTopicControl :: "nat \<Rightarrow> string \<Rightarrow> string option \<Rightarrow> emission" where
  "emitTopicControl sz kind topicID =
     \<lparr>em_wireBytes = int sz,
      em_tags = \<lparr>tag_Name = TagMessageKind, tag_Values = [kind]\<rparr> #
        (case topicID of None \<Rightarrow> [] | Some t \<Rightarrow> [\<lparr>tag_Name = TagTopic, tag_Values = [t]\<rparr>])\<rparr>"

definition emitPlainControl :: "string \<Rightarrow> nat \<Rightarrow> emission" where
  "emitPlainControl kind sz =
     \<lparr>em_wireBytes = int sz, em_tags = [\<lparr>tag_Name = TagMessageKind, tag_Values = [kind]\<rparr>]\<rparr>"

fun emitPublishes ::
  "MessageDecoder option \<Rightarrow> decode_cache \<Rightarrow> PbMessage list \<Rightarrow> (emission list \<times> decode_cache) go" where
  "emitPublishes md cache [] = Some ([], cache)"
| "emitPublishes md cache (msg # msgs) = do {
     let tags = [(TagMessageKind, [''PUBLISH''])];
     let tags = (case pm_Topic msg of None \<Rightarrow> tags | Some t \<Rightarrow> gput TagTopic [t] tags);
     (tags, cache) \<leftarrow> (case md of None \<Rightarrow> Some (tags, cache) | Some decode \<Rightarrow> decode msg tags cache);
     (ems, cache) \<leftarrow> emitPublishes md cache msgs;
     Some (\<lparr>em_wireBytes = int (pm_Size msg), em_tags = tagsFromMap tags\<rparr> # ems, cache)
   }"

definition emitControls :: "ControlMessage option \<Rightarrow> emission list" where
  "emitControls control = (case control of None \<Rightarrow> [] | Some ctrl \<Rightarrow>
     map (\<lambda>c. emitTopicControl (tc_Size c) ''IHAVE'' (tc_TopicID c)) (ctl_Ihave ctrl)
     @ map (emitPlainControl ''IWANT'') (ctl_Iwant ctrl)
     @ map (\<lambda>c. emitTopicControl (tc_Size c) ''GRAFT'' (tc_TopicID c)) (ctl_Graft ctrl)
     @ map (\<lambda>c. emitTopicControl (tc_Size c) ''PRUNE'' (tc_TopicID c)) (ctl_Prune ctrl)
     @ map (emitPlainControl ''IDONTWANT'') (ctl_Idontwant ctrl))"

definition emitted_bytes :: "emission list \<Rightarrow> int" where
  "emitted_bytes ems = sum_list (map em_wireBytes ems)"

text \<open>\<open>emitActions\<close> returns the bytes of the inner messages, which are the sizes it emitted.\<close>

definition emitActions ::
  "MessageDecoder option \<Rightarrow> decode_cache \<Rightarrow> RPC \<Rightarrow> (int \<times> emission list \<times> decode_cache) go" where
  "emitActions md cache rpc = do {
     let subs = map (\<lambda>sub. emitTopicControl (so_Size sub)
       (if so_Subscribe sub then ''SUBSCRIBE'' else ''UNSUBSCRIBE'') (so_Topicid sub)) (rpc_Subscriptions rpc);
     (pubs, cache) \<leftarrow> emitPublishes md cache (rpc_Publish rpc);
     let ems = subs @ pubs @ emitControls (rpc_Control rpc);
     Some (emitted_bytes ems, ems, cache)
   }"

section \<open>Framing\<close>

datatype decode_error = DVarintOverflow | DMessageTooLarge | DUnmarshal string

definition DefaultMaxRPCSize :: int where
  "DefaultMaxRPCSize = 2 ^ 20"

datatype frame_step = NeedMore | Bad decode_error | Frame bytes int bytes

text \<open>
  The head of the loop body of \<open>observe\<close>: the length prefix, its checks, and the split of
  the buffer into the payload of one frame and the rest.
\<close>

definition next_frame :: "int \<Rightarrow> bytes \<Rightarrow> frame_step go" where
  "next_frame maxSize buf =
     (if buf = [] then Some NeedMore
      else case Uvarint buf of (msgLen, headerLen) \<Rightarrow>
        if headerLen = 0 then Some NeedMore
        else if headerLen < 0 then Some (Bad DVarintOverflow)
        else if msgLen > to_u64 maxSize then Some (Bad DMessageTooLarge)
        else
          let totalLen = i64 (headerLen + to_i64 msgLen) in
          if int (length buf) < totalLen then Some NeedMore
          else do {
            payload \<leftarrow> slice buf headerLen totalLen;
            rest \<leftarrow> slice buf totalLen (int (length buf));
            Some (Frame payload totalLen rest)
          })"

lemma next_frame_Frame:
  assumes "next_frame maxSize buf = Some (Frame payload totalLen rest)"
  shows "buf = take (nat totalLen) buf @ rest" and "0 < totalLen" and "totalLen \<le> int (length buf)"
    and "\<exists>hdr. take (nat totalLen) buf = hdr @ payload \<and> hdr \<noteq> [] \<and> length hdr \<le> 10"
    and "length rest < length buf"
proof -
  obtain msgLen headerLen where u: "Uvarint buf = (msgLen, headerLen)" by (cases "Uvarint buf")
  from assms u have h: "0 < headerLen" "headerLen \<le> totalLen" "totalLen \<le> int (length buf)"
    and p: "payload = take (nat (totalLen - headerLen)) (drop (nat headerLen) buf)"
    and r: "rest = drop (nat totalLen) buf"
    by (auto simp: next_frame_def Let_def slice_def bind_eq_Some_conv split: if_splits)
  show "buf = take (nat totalLen) buf @ rest" "0 < totalLen" "totalLen \<le> int (length buf)"
    using h r by simp_all
  have "take (nat totalLen) buf = take (nat headerLen) buf @ payload"
    using h p by (simp add: take_add [symmetric] nat_diff_distrib)
  moreover have "take (nat headerLen) buf \<noteq> []" and "length (take (nat headerLen) buf) \<le> 10"
    using h Uvarint_len [OF u h(1)] by auto
  ultimately show "\<exists>hdr. take (nat totalLen) buf = hdr @ payload \<and> hdr \<noteq> [] \<and> length hdr \<le> 10"
    by blast
  show "length rest < length buf" using h r by (simp add: less_le_trans)
qed

record bufferingRPC =
  v_max :: int
  v_buf :: bytes

definition newVarintRPC :: "int \<Rightarrow> bufferingRPC" where
  "newVarintRPC maxSize = \<lparr>v_max = maxSize, v_buf = []\<rparr>"

definition buffered :: "bufferingRPC \<Rightarrow> nat" where
  "buffered v = length (v_buf v)"

definition reset :: "bufferingRPC \<Rightarrow> bufferingRPC" where
  "reset v = v\<lparr>v_buf := []\<rparr>"

type_synonym observation = "bytes \<times> decode_cache \<times> emission list \<times> decode_error option"

function observe_loop ::
  "externals \<Rightarrow> MessageDecoder option \<Rightarrow> int \<Rightarrow> decode_cache \<Rightarrow> bytes \<Rightarrow> observation go" where
  "observe_loop ext md maxSize cache buf =
     (case next_frame maxSize buf of
        None \<Rightarrow> None
      | Some NeedMore \<Rightarrow> Some (buf, cache, [], None)
      | Some (Bad err) \<Rightarrow> Some (buf, cache, [], Some err)
      | Some (Frame payload totalLen rest) \<Rightarrow>
          (case ext_unmarshal ext payload of
             Inl err \<Rightarrow> Some (buf, cache, [], Some (DUnmarshal err))
           | Inr rpc \<Rightarrow>
               (case emitActions md cache rpc of
                  None \<Rightarrow> None
                | Some (innerBytes, ems, cache') \<Rightarrow>
                    let framing = totalLen - innerBytes;
                        ems = ems @ (if framing > 0
                          then [\<lparr>em_wireBytes = framing, em_tags = [\<lparr>tag_Name = TagFraming, tag_Values = []\<rparr>]\<rparr>]
                          else [])
                    in case observe_loop ext md maxSize cache' rest of
                         None \<Rightarrow> None
                       | Some (buf', cache'', ems', err) \<Rightarrow> Some (buf', cache'', ems @ ems', err))))"
  by pat_completeness auto
termination
  by (relation "measure (\<lambda>(ext, md, maxSize, cache, buf). length buf)") (auto dest: next_frame_Frame(5))

declare observe_loop.simps [simp del]

definition observe ::
  "externals \<Rightarrow> MessageDecoder option \<Rightarrow> decode_cache \<Rightarrow> bufferingRPC \<Rightarrow> bytes \<Rightarrow>
   (bufferingRPC \<times> decode_cache \<times> emission list \<times> decode_error option) go" where
  "observe ext md cache v data =
     (case observe_loop ext md (v_max v) cache (v_buf v @ data) of
        None \<Rightarrow> None
      | Some (buf, cache, ems, err) \<Rightarrow> Some (v\<lparr>v_buf := buf\<rparr>, cache, ems, err))"

section \<open>Decoder instances\<close>

record Decoder =
  dec_MaxRPCSize :: int
  dec_MessageDecoder :: "MessageDecoder option"

definition Match :: "Decoder \<Rightarrow> string \<Rightarrow> bool" where
  "Match d protocol \<longleftrightarrow> HasPrefix protocol ''/meshsub/'' \<or> HasPrefix protocol ''/floodsub/''"

record instance_state =
  i_in :: bufferingRPC
  i_out :: bufferingRPC
  i_msgDecoder :: "MessageDecoder option"

definition New :: "Decoder \<Rightarrow> instance_state" where
  "New d =
     (let m = (if dec_MaxRPCSize d = 0 then DefaultMaxRPCSize else dec_MaxRPCSize d)
      in \<lparr>i_in = newVarintRPC m, i_out = newVarintRPC m, i_msgDecoder = dec_MessageDecoder d\<rparr>)"

type_synonym step = "(instance_state \<times> decode_cache \<times> emission list \<times> decode_error option) go"

definition ObserveRead :: "externals \<Rightarrow> decode_cache \<Rightarrow> instance_state \<Rightarrow> bytes \<Rightarrow> step" where
  "ObserveRead ext cache i data =
     (case observe ext (i_msgDecoder i) cache (i_in i) data of
        None \<Rightarrow> None
      | Some (v, cache, ems, err) \<Rightarrow> Some (i\<lparr>i_in := v\<rparr>, cache, ems, err))"

definition ObserveWrite :: "externals \<Rightarrow> decode_cache \<Rightarrow> instance_state \<Rightarrow> bytes \<Rightarrow> step" where
  "ObserveWrite ext cache i data =
     (case observe ext (i_msgDecoder i) cache (i_out i) data of
        None \<Rightarrow> None
      | Some (v, cache, ems, err) \<Rightarrow> Some (i\<lparr>i_out := v\<rparr>, cache, ems, err))"

definition BufferedRead :: "instance_state \<Rightarrow> nat" where
  "BufferedRead i = buffered (i_in i)"

definition BufferedWrite :: "instance_state \<Rightarrow> nat" where
  "BufferedWrite i = buffered (i_out i)"

definition Reset :: "instance_state \<Rightarrow> instance_state" where
  "Reset i = i\<lparr>i_in := reset (i_in i), i_out := reset (i_out i)\<rparr>"

section \<open>The Ethereum message decoder\<close>

definition normalizeTopic :: "string \<Rightarrow> string" where
  "normalizeTopic topic =
     (if HasPrefix topic ''/eth2/'' then
        let parts = Split (CHR ''/'') topic in
        if length parts \<ge> 5 \<and> parts ! 3 \<noteq> [] then parts ! 3 else topic
      else topic)"

definition decodeMessage :: "snappy \<Rightarrow> MessageDecoder" where
  "decodeMessage snappy msg tags cache =
     (case pm_Topic msg of
        None \<Rightarrow> Some (tags, cache)
      | Some topic \<Rightarrow> do {
          let norm = normalizeTopic topic;
          let tags = gput TagTopic [norm] tags;
          (res, cache) \<leftarrow> DecodePayload snappy cache norm (pm_Data msg);
          let tags = (if cp_slotOk res then
              gput TagDecodedFrom [''gossipsub_publish'']
                (gput TagDecodedSlot
                  ((case gget tags TagDecodedSlot of None \<Rightarrow> [] | Some vs \<Rightarrow> vs) @ [FormatUint (cp_slot res)]) tags)
            else tags);
          let meta = cp_meta res;
          let tags = (if m_HasProposer meta
            then gput TagProposerIndex [FormatUint (m_ProposerIndex meta)] tags else tags);
          let tags = (if m_HasAttestations meta
            then gput TagAttestationCount [Itoa (m_AttestationCount meta)] tags else tags);
          let tags = (if m_HasCommitments meta
            then gput TagBlobCommitments [Itoa (m_BlobCommitments meta)] tags else tags);
          let tags = (if m_HasTxCount meta
            then gput TagTxCount [Itoa (m_TxCount meta)] tags else tags);
          let tags = (if m_HasSidecarIndex meta
            then gput TagSidecarIndex [FormatUint (m_SidecarIndex meta)] tags else tags);
          Some (tags, cache)
        })"

definition GossipSubDecoder :: "externals \<Rightarrow> Decoder" where
  "GossipSubDecoder ext = \<lparr>dec_MaxRPCSize = 0, dec_MessageDecoder = Some (decodeMessage (ext_snappy ext))\<rparr>"

text \<open>\<open>newEthStreamDecoder\<close>: \<open>None\<close> is the nil decoder of a stream that is not gossipsub.\<close>

definition newEthStreamDecoder :: "externals \<Rightarrow> string \<Rightarrow> instance_state option" where
  "newEthStreamDecoder ext protocol =
     (let decoder = GossipSubDecoder ext in
      if \<not> Match decoder protocol then None else Some (New decoder))"

section \<open>Incremental parsing\<close>

lemma next_frame_append_Frame:
  assumes "next_frame maxSize buf = Some (Frame payload totalLen rest)"
  shows "next_frame maxSize (buf @ bs) = Some (Frame payload totalLen (rest @ bs))"
proof -
  obtain msgLen headerLen where u: "Uvarint buf = (msgLen, headerLen)" by (cases "Uvarint buf")
  from assms u have h: "0 < headerLen" "headerLen \<le> totalLen" "totalLen \<le> int (length buf)"
      "\<not> msgLen > to_u64 maxSize" "totalLen = i64 (headerLen + to_i64 msgLen)"
    and p: "payload = take (nat (totalLen - headerLen)) (drop (nat headerLen) buf)"
    and r: "rest = drop (nat totalLen) buf" and ne: "buf \<noteq> []"
    by (auto simp: next_frame_def Let_def slice_def bind_eq_Some_conv split: if_splits)
  have u': "Uvarint (buf @ bs) = (msgLen, headerLen)"
    using Uvarint_append [OF u] h(1) by simp
  have "nat (totalLen - headerLen) \<le> length buf - nat headerLen" and "nat totalLen \<le> length buf"
    using h by linarith+
  with u' h p r ne show ?thesis
    by (simp add: next_frame_def Let_def slice_def take_drop)
qed

lemma next_frame_append_Bad:
  assumes "next_frame maxSize buf = Some (Bad err)"
  shows "next_frame maxSize (buf @ bs) = Some (Bad err)"
proof -
  obtain msgLen headerLen where u: "Uvarint buf = (msgLen, headerLen)" by (cases "Uvarint buf")
  from assms u have "headerLen \<noteq> 0" and "buf \<noteq> []"
    by (auto simp: next_frame_def Let_def bind_eq_Some_conv split: if_splits)
  with assms u Uvarint_append [OF u] show ?thesis
    by (auto simp: next_frame_def Let_def bind_eq_Some_conv split: if_splits)
qed

text \<open>Emissions of one feed followed by those of the next.\<close>

definition after :: "emission list \<Rightarrow> observation go \<Rightarrow> observation go" where
  "after ems r = (case r of None \<Rightarrow> None
     | Some (buf, cache, ems', err) \<Rightarrow> Some (buf, cache, ems @ ems', err))"

lemma after_Nil [simp]: "after [] r = r"
  by (auto simp: after_def split: option.split)

lemma after_after [simp]: "after xs (after ys r) = after (xs @ ys) r"
  by (auto simp: after_def split: option.split)

text \<open>One turn of the loop, for each outcome of \<open>next_frame\<close>.\<close>

definition frame_emissions :: "int \<Rightarrow> int \<Rightarrow> emission list \<Rightarrow> emission list" where
  "frame_emissions totalLen innerBytes ems =
     (let framing = totalLen - innerBytes in
      ems @ (if framing > 0
        then [\<lparr>em_wireBytes = framing, em_tags = [\<lparr>tag_Name = TagFraming, tag_Values = []\<rparr>]\<rparr>] else []))"

lemma observe_loop_turn:
  "next_frame maxSize buf = None \<Longrightarrow> observe_loop ext md maxSize cache buf = None"
  "next_frame maxSize buf = Some NeedMore \<Longrightarrow>
     observe_loop ext md maxSize cache buf = Some (buf, cache, [], None)"
  "next_frame maxSize buf = Some (Bad err) \<Longrightarrow>
     observe_loop ext md maxSize cache buf = Some (buf, cache, [], Some err)"
  "next_frame maxSize buf = Some (Frame payload totalLen rest) \<Longrightarrow>
     observe_loop ext md maxSize cache buf =
       (case ext_unmarshal ext payload of
          Inl err \<Rightarrow> Some (buf, cache, [], Some (DUnmarshal err))
        | Inr rpc \<Rightarrow>
            (case emitActions md cache rpc of
               None \<Rightarrow> None
             | Some (innerBytes, ems, cache') \<Rightarrow>
                 after (frame_emissions totalLen innerBytes ems) (observe_loop ext md maxSize cache' rest)))"
  by (subst observe_loop.simps, simp add: after_def frame_emissions_def Let_def
      split: option.split sum.split)+

lemma observe_loop_append:
  assumes "observe_loop ext md maxSize cache buf = Some (buf', cache', ems, None)"
  shows "observe_loop ext md maxSize cache (buf @ bs) = after ems (observe_loop ext md maxSize cache' (buf' @ bs))"
  using assms
proof (induction ext md maxSize cache buf arbitrary: ems rule: observe_loop.induct)
  case (1 ext md maxSize cache buf)
  consider "next_frame maxSize buf = None" | "next_frame maxSize buf = Some NeedMore"
    | err where "next_frame maxSize buf = Some (Bad err)"
    | payload totalLen rest where "next_frame maxSize buf = Some (Frame payload totalLen rest)"
    by (metis frame_step.exhaust option.exhaust)
  then show ?case
  proof cases
    case 4
    from "1.prems" obtain rpc inner ems1 cache1 where
      rpc: "ext_unmarshal ext payload = Inr rpc" and
      acts: "emitActions md cache rpc = Some (inner, ems1, cache1)"
      by (auto simp: observe_loop_turn(4) [OF 4] after_def split: sum.splits option.splits)
    with "1.prems" obtain ems2 where
      loop: "observe_loop ext md maxSize cache1 rest = Some (buf', cache', ems2, None)"
      and ems: "ems = frame_emissions totalLen inner ems1 @ ems2"
      by (auto simp: observe_loop_turn(4) [OF 4] after_def split: option.splits)
    have "observe_loop ext md maxSize cache1 (rest @ bs)
        = after ems2 (observe_loop ext md maxSize cache' (buf' @ bs))"
      by (rule "1.IH" [OF 4 refl rpc acts refl refl refl _ loop]) simp_all
    with rpc acts ems show ?thesis
      by (simp add: observe_loop_turn(4) [OF next_frame_append_Frame [OF 4]])
  qed (use "1.prems" in \<open>simp_all add: observe_loop_turn\<close>)
qed

lemma observe_loop_append_error:
  assumes "observe_loop ext md maxSize cache buf = Some (buf', cache', ems, Some err)"
  shows "observe_loop ext md maxSize cache (buf @ bs) = Some (buf' @ bs, cache', ems, Some err)"
  using assms
proof (induction ext md maxSize cache buf arbitrary: ems rule: observe_loop.induct)
  case (1 ext md maxSize cache buf)
  consider "next_frame maxSize buf = None" | "next_frame maxSize buf = Some NeedMore"
    | e where "next_frame maxSize buf = Some (Bad e)"
    | payload totalLen rest where "next_frame maxSize buf = Some (Frame payload totalLen rest)"
    by (metis frame_step.exhaust option.exhaust)
  then show ?case
  proof cases
    case 3
    with "1.prems" next_frame_append_Bad [OF 3] show ?thesis by (simp add: observe_loop_turn)
  next
    case 4
    note turn = observe_loop_turn(4) [OF 4] observe_loop_turn(4) [OF next_frame_append_Frame [OF 4]]
    show ?thesis
    proof (cases "ext_unmarshal ext payload")
      case (Inl e)
      with "1.prems" have "buf' = buf" "cache' = cache" "ems = []" "err = DUnmarshal e"
        by (simp_all add: turn(1))
      with Inl show ?thesis by (simp add: turn(2))
    next
      case (Inr rpc)
      with "1.prems" obtain inner ems1 cache1 where
        acts: "emitActions md cache rpc = Some (inner, ems1, cache1)"
        by (auto simp: turn after_def split: option.splits)
      with Inr "1.prems" obtain ems2 where
        loop: "observe_loop ext md maxSize cache1 rest = Some (buf', cache', ems2, Some err)"
        and ems: "ems = frame_emissions totalLen inner ems1 @ ems2"
        by (auto simp: turn after_def split: option.splits)
      have "observe_loop ext md maxSize cache1 (rest @ bs) = Some (buf' @ bs, cache', ems2, Some err)"
        by (rule "1.IH" [OF 4 refl Inr acts refl refl refl _ loop]) simp_all
      with Inr acts ems show ?thesis by (simp add: turn after_def)
    qed
  qed (use "1.prems" in \<open>simp_all add: observe_loop_turn\<close>)
qed

text \<open>
  The contract of \<open>decode.StreamDecoder\<close> that its clients rely on: what is decoded depends on
  the bytes of the stream, not on how they were cut into chunks; a reset decoder has
  nothing buffered.
\<close>

locale stream_decoder =
  fixes feed :: "'st \<Rightarrow> bytes \<Rightarrow> ('st \<times> emission list \<times> decode_error option) go"
    and clear :: "'st \<Rightarrow> 'st"
    and pending :: "'st \<Rightarrow> nat"
  assumes feed_append: "feed st a = Some (st', ems, None) \<Longrightarrow>
      feed st (a @ b) = (case feed st' b of None \<Rightarrow> None
        | Some (st'', ems', err) \<Rightarrow> Some (st'', ems @ ems', err))"
    and feed_error: "feed st a = Some (st', ems, Some err) \<Longrightarrow>
      \<exists>st''. feed st (a @ b) = Some (st'', ems, Some err)"
    and clear_pending: "pending (clear st) = 0"
begin

text \<open>Chunks fed one after the other; decoding stops at the first error.\<close>

primrec feeds :: "'st \<Rightarrow> bytes list \<Rightarrow> ('st \<times> emission list \<times> decode_error option) go" where
  "feeds st [] = Some (st, [], None)"
| "feeds st (c # cs) =
     (case feed st c of None \<Rightarrow> None
      | Some (st', ems, Some err) \<Rightarrow> Some (st', ems, Some err)
      | Some (st', ems, None) \<Rightarrow>
          (case feeds st' cs of None \<Rightarrow> None
           | Some (st'', ems', err) \<Rightarrow> Some (st'', ems @ ems', err)))"

lemma feeds_concat:
  assumes "feeds st (c # cs) = Some (st', ems, None)"
  shows "feed st (c @ concat cs) = Some (st', ems, None)"
  using assms
proof (induction cs arbitrary: st c ems)
  case Nil
  then show ?case by (auto split: option.splits)
next
  case (Cons d ds)
  from Cons.prems obtain st1 ems1 ems2 where
    c: "feed st c = Some (st1, ems1, None)" and
    ds: "feeds st1 (d # ds) = Some (st', ems2, None)" and ems: "ems = ems1 @ ems2"
    by (auto split: option.splits)
  from Cons.IH [OF ds] c ems show ?case by (simp add: feed_append)
qed

text \<open>Two ways to cut the same bytes into chunks decode to the same emissions.\<close>

lemma feeds_recut:
  assumes "feeds st (c # cs) = Some (st1, ems1, None)" and "feeds st (d # ds) = Some (st2, ems2, None)"
    and "c @ concat cs = d @ concat ds"
  shows "st1 = st2 \<and> ems1 = ems2"
  using feeds_concat [OF assms(1)] feeds_concat [OF assms(2)] assms(3) by simp

end

definition feed_varint ::
  "externals \<Rightarrow> MessageDecoder option \<Rightarrow> bufferingRPC \<times> decode_cache \<Rightarrow> bytes \<Rightarrow>
   ((bufferingRPC \<times> decode_cache) \<times> emission list \<times> decode_error option) go" where
  "feed_varint ext md st data =
     (case observe ext md (snd st) (fst st) data of None \<Rightarrow> None
      | Some (v, cache, ems, err) \<Rightarrow> Some ((v, cache), ems, err))"

lemma feed_varint_eq:
  "feed_varint ext md (v, cache) data =
     (case observe_loop ext md (v_max v) cache (v_buf v @ data) of None \<Rightarrow> None
      | Some (buf, cache, ems, err) \<Rightarrow> Some ((v\<lparr>v_buf := buf\<rparr>, cache), ems, err))"
  by (auto simp: feed_varint_def observe_def split: option.split)

interpretation varint: stream_decoder "feed_varint ext md"
  "\<lambda>(v, cache). (reset v, cache)" "\<lambda>(v, cache). buffered v" for ext md
proof
  fix st st' :: "bufferingRPC \<times> decode_cache" and a b ems
  assume fed: "feed_varint ext md st a = Some (st', ems, None)"
  obtain v cache where st: "st = (v, cache)" by (cases st)
  from fed st obtain buf cache' where
    loop: "observe_loop ext md (v_max v) cache (v_buf v @ a) = Some (buf, cache', ems, None)"
    and st': "st' = (v\<lparr>v_buf := buf\<rparr>, cache')"
    by (auto simp: feed_varint_eq split: option.splits)
  show "feed_varint ext md st (a @ b) = (case feed_varint ext md st' b of None \<Rightarrow> None
      | Some (st'', ems', err) \<Rightarrow> Some (st'', ems @ ems', err))"
    using observe_loop_append [OF loop, of b] st st'
    by (auto simp: feed_varint_eq after_def split: option.splits)
next
  fix st st' :: "bufferingRPC \<times> decode_cache" and a b ems err
  assume fed: "feed_varint ext md st a = Some (st', ems, Some err)"
  obtain v cache where st: "st = (v, cache)" by (cases st)
  from fed st obtain buf cache' where
    loop: "observe_loop ext md (v_max v) cache (v_buf v @ a) = Some (buf, cache', ems, Some err)"
    by (auto simp: feed_varint_eq split: option.splits)
  show "\<exists>st''. feed_varint ext md st (a @ b) = Some (st'', ems, Some err)"
    using observe_loop_append_error [OF loop, of b] st by (simp add: feed_varint_eq)
next
  fix st :: "bufferingRPC \<times> decode_cache"
  show "(case case st of (v, cache) \<Rightarrow> (reset v, cache) of (v, cache) \<Rightarrow> buffered v) = 0"
    by (simp add: reset_def buffered_def split: prod.split)
qed

text \<open>Chunks of one direction of a stream, observed one after the other until an error.\<close>

primrec observe_chunks ::
  "externals \<Rightarrow> MessageDecoder option \<Rightarrow> decode_cache \<Rightarrow> bufferingRPC \<Rightarrow> bytes list \<Rightarrow>
   (bufferingRPC \<times> decode_cache \<times> emission list \<times> decode_error option) go" where
  "observe_chunks ext md cache v [] = Some (v, cache, [], None)"
| "observe_chunks ext md cache v (c # cs) =
     (case observe ext md cache v c of None \<Rightarrow> None
      | Some (v', cache', ems, Some err) \<Rightarrow> Some (v', cache', ems, Some err)
      | Some (v', cache', ems, None) \<Rightarrow>
          (case observe_chunks ext md cache' v' cs of None \<Rightarrow> None
           | Some (v'', cache'', ems', err) \<Rightarrow> Some (v'', cache'', ems @ ems', err)))"

lemma feeds_observe_chunks:
  "varint.feeds ext md (v, cache) cs =
     (case observe_chunks ext md cache v cs of None \<Rightarrow> None
      | Some (v', cache', ems, err) \<Rightarrow> Some ((v', cache'), ems, err))"
  by (induction cs arbitrary: v cache) (auto simp: feed_varint_def split: option.splits)

text \<open>
  C9: decoding does not depend on how the network cut the stream into chunks: if the chunks are
  observed one by one without an error, observing all their bytes in one call ends in the
  same buffer and the same cache and makes the same emissions in the same order.
\<close>

theorem observe_chunks_concat:
  assumes "observe_chunks ext md cache v (c # cs) = Some (v', cache', ems, None)"
  shows "observe ext md cache v (concat (c # cs)) = Some (v', cache', ems, None)"
proof -
  have "varint.feeds ext md (v, cache) (c # cs) = Some ((v', cache'), ems, None)"
    by (simp only: feeds_observe_chunks assms) simp
  from varint.feeds_concat [OF this] show ?thesis
    by (auto simp: feed_varint_def split: option.splits)
qed

section \<open>Frames\<close>

lemma to_u64_nonneg_le:
  "0 \<le> m \<Longrightarrow> m < 2 ^ 62 \<Longrightarrow> w \<le> to_u64 m \<Longrightarrow> 0 \<le> to_i64 w \<and> to_i64 w \<le> m"
proof -
  assume m: "0 \<le> m" "m < 2 ^ 62" and w: "w \<le> to_u64 m"
  have "uint w \<le> m" using w m by (simp add: word_le_def)
  moreover from this m have "to_i64 w = uint w" by (intro to_i64_small) simp
  ultimately show ?thesis by simp
qed

lemma next_frame_total:
  assumes "0 \<le> m" and "m < 2 ^ 62"
  shows "\<exists>s. next_frame m buf = Some s"
proof -
  obtain msgLen headerLen where u: "Uvarint buf = (msgLen, headerLen)" by (cases "Uvarint buf")
  show ?thesis
  proof (cases "buf \<noteq> [] \<and> 0 < headerLen \<and> msgLen \<le> to_u64 m")
    case True
    then have h: "1 \<le> headerLen" "headerLen \<le> 10" using Uvarint_len [OF u] by simp_all
    from True to_u64_nonneg_le [OF assms] have l: "0 \<le> to_i64 msgLen" "to_i64 msgLen \<le> m" by auto
    have "i64 (headerLen + to_i64 msgLen) = headerLen + to_i64 msgLen"
      using h l assms by (intro i64_id) (simp_all add: min_i64_def max_i64_def)
    with True u h l show ?thesis
      by (simp add: next_frame_def Let_def slice_def)
  next
    case False
    with u show ?thesis by (auto simp: next_frame_def)
  qed
qed

lemma next_frame_NeedMore:
  assumes "0 \<le> m" and "m < 2 ^ 62" and "next_frame m buf = Some NeedMore"
  shows "int (length buf) \<le> m + 10"
proof -
  obtain msgLen headerLen where u: "Uvarint buf = (msgLen, headerLen)" by (cases "Uvarint buf")
  consider "buf = []" | "headerLen = 0"
    | "0 < headerLen" "msgLen \<le> to_u64 m" "int (length buf) < i64 (headerLen + to_i64 msgLen)"
    using assms(3) u by (auto simp: next_frame_def Let_def bind_eq_Some_conv split: if_splits)
  then show ?thesis
  proof cases
    case 1
    then show ?thesis using assms(1) by simp
  next
    case 2
    then show ?thesis using Uvarint_short [of buf msgLen] u assms(1) by simp
  next
    case 3
    have h: "1 \<le> headerLen" "headerLen \<le> 10" using Uvarint_len [OF u 3(1)] by simp_all
    from 3(2) to_u64_nonneg_le [OF assms(1,2)] have l: "0 \<le> to_i64 msgLen" "to_i64 msgLen \<le> m" by auto
    have "i64 (headerLen + to_i64 msgLen) = headerLen + to_i64 msgLen"
      using h l assms by (intro i64_id) (simp_all add: min_i64_def max_i64_def)
    with 3(3) h l show ?thesis by simp
  qed
qed

text \<open>The bytes of one gossipsub frame.\<close>

definition rpc_frame :: "bytes \<Rightarrow> bytes" where
  "rpc_frame payload = PutUvarint (of_nat (length payload)) @ payload"

lemma next_frame_rpc_frame:
  assumes "int (length d) \<le> m" and "m < 2 ^ 62"
  shows "next_frame m (rpc_frame d @ rest) = Some (Frame d (int (length (rpc_frame d))) rest)"
proof -
  let ?h = "PutUvarint (of_nat (length d))"
  have u: "Uvarint (rpc_frame d @ rest) = (of_nat (length d), int (length ?h))"
    using Uvarint_PutUvarint [of "of_nat (length d)" "d @ rest"] by (simp add: rpc_frame_def)
  have h: "0 < int (length ?h)" "length ?h \<le> 10" using PutUvarint_length [of "of_nat (length d)"] by auto
  have len: "uint (of_nat (length d) :: u64) = int (length d)"
    using assms by (intro uint_of_nat_u64) simp
  then have i: "to_i64 (of_nat (length d)) = int (length d)"
    using to_i64_small [of "of_nat (length d)"] assms by simp
  have le: "(of_nat (length d) :: u64) \<le> to_u64 m"
    using assms len by (simp add: word_le_def)
  have t: "i64 (int (length ?h) + int (length d)) = int (length ?h) + int (length d)"
    using h assms by (intro i64_id) (simp_all add: min_i64_def max_i64_def)
  show ?thesis
    using h le by (simp add: next_frame_def u i t Let_def slice_def) (simp add: rpc_frame_def not_less)
qed

definition split_frame :: "bytes \<Rightarrow> unit + bytes \<times> bytes" where
  "split_frame buf = (case next_frame DefaultMaxRPCSize buf of
     Some (Frame payload totalLen rest) \<Rightarrow> Inr (payload, rest) | _ \<Rightarrow> Inl ())"

definition rpc_fits :: "bytes \<Rightarrow> bool" where
  "rpc_fits d \<longleftrightarrow> int (length d) \<le> DefaultMaxRPCSize"

interpretation rpc_framing: framing rpc_frame split_frame rpc_fits
  by unfold_locales (simp add: split_frame_def rpc_fits_def next_frame_rpc_frame DefaultMaxRPCSize_def)

text \<open>The reference: each payload unmarshalled and atomised on its own, in order.\<close>

primrec decode_frames ::
  "externals \<Rightarrow> MessageDecoder option \<Rightarrow> decode_cache \<Rightarrow> bytes list \<Rightarrow> (emission list \<times> decode_cache) go" where
  "decode_frames ext md cache [] = Some ([], cache)"
| "decode_frames ext md cache (d # ds) =
     (case ext_unmarshal ext d of
        Inl _ \<Rightarrow> None
      | Inr rpc \<Rightarrow>
          (case emitActions md cache rpc of None \<Rightarrow> None
           | Some (inner, ems, cache') \<Rightarrow>
               (case decode_frames ext md cache' ds of None \<Rightarrow> None
                | Some (ems', cache'') \<Rightarrow>
                    Some (frame_emissions (int (length (rpc_frame d))) inner ems @ ems', cache''))))"

lemma observe_loop_frames:
  assumes "m < 2 ^ 62" and "list_all (\<lambda>d. int (length d) \<le> m) ds"
    and "decode_frames ext md cache ds = Some (ems, cache')"
  shows "observe_loop ext md m cache (concat (map rpc_frame ds) @ rest)
    = after ems (observe_loop ext md m cache' rest)"
  using assms(2,3)
proof (induction ds arbitrary: cache ems)
  case Nil
  then show ?case by simp
next
  case (Cons d ds)
  from Cons.prems(2) obtain rpc inner ems1 cache1 ems2 where
    d: "ext_unmarshal ext d = Inr rpc" "emitActions md cache rpc = Some (inner, ems1, cache1)"
    and ds: "decode_frames ext md cache1 ds = Some (ems2, cache')"
    and ems: "ems = frame_emissions (int (length (rpc_frame d))) inner ems1 @ ems2"
    by (auto split: sum.splits option.splits)
  have fr: "next_frame m (rpc_frame d @ concat (map rpc_frame ds) @ rest)
      = Some (Frame d (int (length (rpc_frame d))) (concat (map rpc_frame ds) @ rest))"
    using Cons.prems(1) assms(1) by (intro next_frame_rpc_frame) simp_all
  show ?case
    using Cons.IH [OF _ ds] Cons.prems(1) d ems by (simp add: observe_loop_turn(4) [OF fr])
qed

text \<open>
  C18: a stream of whole gossipsub frames is decoded completely: every frame is unmarshalled and
  atomised in order, exactly as decoding each frame on its own would, no error is raised and
  nothing stays buffered.
\<close>

theorem observe_decodes_frames:
  assumes "v_buf v = []" and "v_max v < 2 ^ 62" and "list_all (\<lambda>d. int (length d) \<le> v_max v) ds"
    and "decode_frames ext md cache ds = Some (ems, cache')"
  shows "observe ext md cache v (concat (map rpc_frame ds)) = Some (v, cache', ems, None)"
proof -
  have "observe_loop ext md (v_max v) cache' [] = Some ([], cache', [], None)"
    by (rule observe_loop_turn(2)) (simp add: next_frame_def)
  then show ?thesis
    using observe_loop_frames [OF assms(2-4), of "[]"] assms(1)
    by (simp add: observe_def after_def)
qed

definition demo_rpc :: RPC where
  "demo_rpc = \<lparr>rpc_Subscriptions = [\<lparr>so_Subscribe = True, so_Topicid = Some ''t'', so_Size = 5\<rparr>],
     rpc_Publish = [], rpc_Control = Some \<lparr>ctl_Ihave = [], ctl_Iwant = [2], ctl_Graft = [], ctl_Prune = [],
     ctl_Idontwant = []\<rparr>\<rparr>"

definition demo_ext :: externals where
  "demo_ext = \<lparr>ext_snappy = (\<lambda>_. None),
     ext_unmarshal = (\<lambda>d. if length d = 11 then Inr demo_rpc else Inl ''unexpected EOF'')\<rparr>"

lemma demo_actions:
  "emitActions md cache demo_rpc = Some (7, [emitTopicControl 5 ''SUBSCRIBE'' (Some ''t''), emitPlainControl ''IWANT'' 2], cache)"
  by (simp add: emitActions_def demo_rpc_def emitControls_def emitted_bytes_def emitTopicControl_def
      emitPlainControl_def)

theorem observe_decodes_frames_witness:
  "observe demo_ext None [] (newVarintRPC DefaultMaxRPCSize) (concat (map rpc_frame [replicate 11 0, replicate 11 1]))
     = Some (newVarintRPC DefaultMaxRPCSize, [],
         frame_emissions 12 7 [emitTopicControl 5 ''SUBSCRIBE'' (Some ''t''), emitPlainControl ''IWANT'' 2]
         @ frame_emissions 12 7 [emitTopicControl 5 ''SUBSCRIBE'' (Some ''t''), emitPlainControl ''IWANT'' 2],
         None)"
  by (rule observe_decodes_frames)
    (simp_all add: newVarintRPC_def DefaultMaxRPCSize_def demo_ext_def demo_actions rpc_frame_def
      PutUvarint.simps)

theorem observe_chunks_concat_witness:
  "observe demo_ext None [] (newVarintRPC DefaultMaxRPCSize) (concat [[5], [1, 2]])
     = Some (\<lparr>v_max = DefaultMaxRPCSize, v_buf = [5, 1, 2]\<rparr>, [], [], None)"
proof (rule observe_chunks_concat)
  have n: "next_frame DefaultMaxRPCSize [5] = Some NeedMore" "next_frame DefaultMaxRPCSize [5, 1, 2] = Some NeedMore"
    by (simp_all add: next_frame_def Uvarint_def DefaultMaxRPCSize_def to_u64_def to_i64_def i64_def)
  show "observe_chunks demo_ext None [] (newVarintRPC DefaultMaxRPCSize) [[5], [1, 2]]
      = Some (\<lparr>v_max = DefaultMaxRPCSize, v_buf = [5, 1, 2]\<rparr>, [], [], None)"
    by (simp add: observe_def newVarintRPC_def observe_loop_turn(2) [OF n(1)] observe_loop_turn(2) [OF n(2)])
qed

section \<open>No panic, bounded buffers, no byte lost\<close>

lemma decodeMessage_total: "\<exists>tags' cache'. decodeMessage snappy msg tags cache = Some (tags', cache')"
proof (cases "pm_Topic msg")
  case (Some topic)
  obtain r cache' where "DecodePayload snappy cache (normalizeTopic topic) (pm_Data msg) = Some (r, cache')"
    using DecodePayload_total by blast
  with Some show ?thesis by (simp add: decodeMessage_def Let_def)
qed (simp add: decodeMessage_def)

lemma emitPublishes_total:
  "\<exists>ems cache'. emitPublishes (Some (decodeMessage snappy)) cache msgs = Some (ems, cache')"
proof (induction msgs arbitrary: cache)
  case (Cons msg msgs)
  let ?tags = "case pm_Topic msg of None \<Rightarrow> [(TagMessageKind, [''PUBLISH''])]
    | Some t \<Rightarrow> gput TagTopic [t] [(TagMessageKind, [''PUBLISH''])]"
  obtain tags' cache1 where "decodeMessage snappy msg ?tags cache = Some (tags', cache1)"
    using decodeMessage_total by blast
  moreover obtain ems cache2 where "emitPublishes (Some (decodeMessage snappy)) cache1 msgs = Some (ems, cache2)"
    using Cons.IH by blast
  ultimately show ?case by simp
qed simp

lemma emitActions_total: "\<exists>r. emitActions (Some (decodeMessage snappy)) cache rpc = Some r"
  using emitPublishes_total [of snappy cache "rpc_Publish rpc"] by (auto simp: emitActions_def Let_def)

lemma observe_loop_total:
  assumes "0 \<le> m" and "m < 2 ^ 62"
  shows "\<exists>r. observe_loop ext (Some (decodeMessage snappy)) m cache buf = Some r"
proof (induction "length buf" arbitrary: buf cache rule: less_induct)
  case less
  obtain s where s: "next_frame m buf = Some s" using next_frame_total [OF assms] by blast
  show ?case
  proof (cases s)
    case NeedMore
    then show ?thesis using s by (simp add: observe_loop_turn(2))
  next
    case (Bad err)
    then show ?thesis using s by (simp add: observe_loop_turn(3))
  next
    case (Frame payload totalLen rest)
    with s have nf: "next_frame m buf = Some (Frame payload totalLen rest)" by simp
    show ?thesis
    proof (cases "ext_unmarshal ext payload")
      case (Inl err)
      then show ?thesis by (simp add: observe_loop_turn(4) [OF nf])
    next
      case (Inr rpc)
      obtain inner ems c where acts: "emitActions (Some (decodeMessage snappy)) cache rpc = Some (inner, ems, c)"
        using emitActions_total [of snappy cache rpc] by auto
      obtain r where "observe_loop ext (Some (decodeMessage snappy)) m c rest = Some r"
        using less [OF next_frame_Frame(5) [OF nf]] by blast
      with Inr acts show ?thesis
        by (cases r) (simp add: observe_loop_turn(4) [OF nf] after_def)
    qed
  qed
qed

lemma observe_loop_NeedMore:
  "observe_loop ext md m cache buf = Some (buf', cache', ems, None) \<Longrightarrow> next_frame m buf' = Some NeedMore"
proof (induction ext md m cache buf arbitrary: ems rule: observe_loop.induct)
  case (1 ext md m cache buf)
  consider "next_frame m buf = None" | "next_frame m buf = Some NeedMore"
    | e where "next_frame m buf = Some (Bad e)"
    | payload totalLen rest where "next_frame m buf = Some (Frame payload totalLen rest)"
    by (metis frame_step.exhaust option.exhaust)
  then show ?case
  proof cases
    case 4
    with "1.prems" obtain rpc inner ems1 cache1 ems2 where
      d: "ext_unmarshal ext payload = Inr rpc" "emitActions md cache rpc = Some (inner, ems1, cache1)"
      and loop: "observe_loop ext md m cache1 rest = Some (buf', cache', ems2, None)"
      by (auto simp: observe_loop_turn(4) [OF 4] after_def split: sum.splits option.splits)
    show ?thesis
      by (rule "1.IH" [OF 4 refl d refl refl refl _ loop]) simp_all
  qed (use "1.prems" in \<open>auto simp: observe_loop_turn\<close>)
qed

text \<open>
  C19: whatever bytes arrive and whatever \<open>proto.Unmarshal\<close> and \<open>snappy.Decode\<close> answer, the stream
  decoder that the processor creates for a gossipsub stream returns from a chunk without
  a panic; unless it reports an error, it keeps at most one incomplete frame, that is
  \<open>DefaultMaxRPCSize\<close> bytes and a ten byte header, however much data the peer sends.
\<close>

theorem eth_decoder_bounded:
  assumes "newEthStreamDecoder ext protocol = Some i0"
    and "i_msgDecoder i = i_msgDecoder i0" and "v_max (i_in i) = v_max (i_in i0)"
  shows "\<exists>i' cache' ems err. ObserveRead ext cache i data = Some (i', cache', ems, err)
    \<and> i_msgDecoder i' = i_msgDecoder i0 \<and> v_max (i_in i') = v_max (i_in i0)
    \<and> (err = None \<longrightarrow> int (BufferedRead i') \<le> DefaultMaxRPCSize + 10)
    \<and> BufferedRead (Reset i') = 0"
proof -
  have i: "i_msgDecoder i0 = Some (decodeMessage (ext_snappy ext))" "v_max (i_in i0) = DefaultMaxRPCSize"
    using assms(1) by (auto simp: newEthStreamDecoder_def New_def GossipSubDecoder_def newVarintRPC_def
        Let_def split: if_splits)
  obtain buf cache' ems err where loop: "observe_loop ext (i_msgDecoder i) (v_max (i_in i)) cache (v_buf (i_in i) @ data)
      = Some (buf, cache', ems, err)"
    using observe_loop_total [of DefaultMaxRPCSize ext "ext_snappy ext" cache "v_buf (i_in i) @ data"] i assms(2,3)
    by (auto simp: DefaultMaxRPCSize_def)
  have "err = None \<longrightarrow> int (length buf) \<le> DefaultMaxRPCSize + 10"
    using loop observe_loop_NeedMore [of ext "i_msgDecoder i" "v_max (i_in i)" cache _ buf cache' ems]
      next_frame_NeedMore [of DefaultMaxRPCSize buf] i(2) assms(3)
    by (auto simp: DefaultMaxRPCSize_def)
  with loop assms i show ?thesis
    by (simp add: ObserveRead_def observe_def BufferedRead_def buffered_def Reset_def reset_def)
qed

theorem eth_decoder_bounded_witness:
  "\<exists>i' cache' ems err. ObserveRead demo_ext [] (New (GossipSubDecoder demo_ext)) [1, 2, 3] = Some (i', cache', ems, err)
    \<and> i_msgDecoder i' = i_msgDecoder (New (GossipSubDecoder demo_ext))
    \<and> v_max (i_in i') = v_max (i_in (New (GossipSubDecoder demo_ext)))
    \<and> (err = None \<longrightarrow> int (BufferedRead i') \<le> DefaultMaxRPCSize + 10)
    \<and> BufferedRead (Reset i') = 0"
  by (rule eth_decoder_bounded [of demo_ext "''/meshsub/1.1.0''"])
    (simp_all add: newEthStreamDecoder_def Match_def HasPrefix_def)

text \<open>The bytes \<open>emitActions\<close> emits for an RPC are the sizes of the messages it holds.\<close>

definition inner_size :: "RPC \<Rightarrow> int" where
  "inner_size rpc = sum_list (map (int \<circ> so_Size) (rpc_Subscriptions rpc))
     + sum_list (map (int \<circ> pm_Size) (rpc_Publish rpc))
     + (case rpc_Control rpc of None \<Rightarrow> 0 | Some c \<Rightarrow>
          sum_list (map (int \<circ> tc_Size) (ctl_Ihave c)) + sum_list (map int (ctl_Iwant c))
          + sum_list (map (int \<circ> tc_Size) (ctl_Graft c)) + sum_list (map (int \<circ> tc_Size) (ctl_Prune c))
          + sum_list (map int (ctl_Idontwant c)))"

lemma emitted_bytes_simps [simp]:
  "emitted_bytes [] = 0" "emitted_bytes (e # es) = em_wireBytes e + emitted_bytes es"
  "emitted_bytes (xs @ ys) = emitted_bytes xs + emitted_bytes ys"
  by (simp_all add: emitted_bytes_def)

lemma emitted_bytes_map [simp]: "emitted_bytes (map f xs) = sum_list (map (\<lambda>x. em_wireBytes (f x)) xs)"
  by (simp add: emitted_bytes_def comp_def)

lemma emitPublishes_bytes:
  "emitPublishes md cache msgs = Some (ems, cache') \<Longrightarrow>
     emitted_bytes ems = sum_list (map (int \<circ> pm_Size) msgs)"
  by (induction md cache msgs arbitrary: ems rule: emitPublishes.induct)
    (auto simp: Let_def bind_eq_Some_conv)

lemma emitActions_bytes:
  assumes "emitActions md cache rpc = Some (inner, ems, cache')"
  shows "inner = inner_size rpc" and "emitted_bytes ems = inner"
  using assms
  by (auto simp: emitActions_def Let_def bind_eq_Some_conv emitPublishes_bytes inner_size_def
      emitTopicControl_def emitPlainControl_def emitControls_def comp_def split: option.splits)

definition sizes_fit :: "externals \<Rightarrow> bool" where
  "sizes_fit ext \<longleftrightarrow> (\<forall>d rpc. ext_unmarshal ext d = Inr rpc \<longrightarrow> inner_size rpc \<le> int (length d))"

lemma observe_loop_bytes:
  "observe_loop ext md m cache buf = Some (buf', cache', ems, err) \<Longrightarrow> sizes_fit ext \<Longrightarrow>
     emitted_bytes ems + int (length buf') = int (length buf)"
proof (induction ext md m cache buf arbitrary: ems rule: observe_loop.induct)
  case (1 ext md m cache buf)
  consider "next_frame m buf = None" | "next_frame m buf = Some NeedMore"
    | e where "next_frame m buf = Some (Bad e)"
    | payload totalLen rest where "next_frame m buf = Some (Frame payload totalLen rest)"
    by (metis frame_step.exhaust option.exhaust)
  then show ?case
  proof cases
    case 4
    note turn = observe_loop_turn(4) [OF 4]
    show ?thesis
    proof (cases "ext_unmarshal ext payload")
      case (Inl e)
      with "1.prems" show ?thesis by (auto simp: turn)
    next
      case (Inr rpc)
      with "1.prems" obtain inner ems1 cache1 ems2 where
        acts: "emitActions md cache rpc = Some (inner, ems1, cache1)"
        and loop: "observe_loop ext md m cache1 rest = Some (buf', cache', ems2, err)"
        and ems: "ems = frame_emissions totalLen inner ems1 @ ems2"
        by (auto simp: turn after_def split: option.splits)
      have "emitted_bytes ems2 + int (length buf') = int (length rest)"
        by (rule "1.IH" [OF 4 refl Inr acts refl refl refl _ loop "1.prems"(2)]) simp_all
      moreover obtain hdr where frame: "take (nat totalLen) buf = hdr @ payload"
        using next_frame_Frame(4) [OF 4] by blast
      have len: "int (length buf) = totalLen + int (length rest)"
        using next_frame_Frame(1,2,3) [OF 4] by (metis append_take_drop_id length_append length_take
            nat_le_iff of_nat_add int_nat_eq min.absorb2 less_imp_le)
      moreover have "inner \<le> totalLen"
        using "1.prems"(2) Inr emitActions_bytes(1) [OF acts] next_frame_Frame(2,3) [OF 4]
          arg_cong [OF frame, of length] by (fastforce simp: sizes_fit_def)
      ultimately show ?thesis
        using ems emitActions_bytes(2) [OF acts] by (auto simp: frame_emissions_def Let_def)
    qed
  qed (use "1.prems" in \<open>auto simp: observe_loop_turn\<close>)
qed

text \<open>
  C20: every byte observed on a gossipsub stream is accounted for exactly once: what \<open>observe\<close>
  emits for the inner messages and as framing overhead, together with what it leaves in the
  buffer, is what was buffered before plus the new chunk, whether or not an error ends
  the chunk.  It relies on protobuf never giving an RPC inner messages larger than its encoding.
\<close>

theorem observe_accounts_all_bytes:
  assumes "\<forall>d rpc. ext_unmarshal ext d = Inr rpc \<longrightarrow> inner_size rpc \<le> int (length d)"
    and "observe ext md cache v data = Some (v', cache', ems, err)"
  shows "emitted_bytes ems + int (buffered v') = int (buffered v) + int (length data)"
proof -
  from assms(2) obtain buf where
    "observe_loop ext md (v_max v) cache (v_buf v @ data) = Some (buf, cache', ems, err)" "v' = v\<lparr>v_buf := buf\<rparr>"
    by (auto simp: observe_def split: option.splits)
  with observe_loop_bytes [of ext md "v_max v" cache "v_buf v @ data" buf cache' ems err] assms(1)
  show ?thesis by (simp add: sizes_fit_def buffered_def)
qed

lemma demo_observe:
  "observe demo_ext None [] (newVarintRPC DefaultMaxRPCSize) (rpc_frame (replicate 11 0))
     = Some (newVarintRPC DefaultMaxRPCSize, [], frame_emissions 12 7
         [emitTopicControl 5 ''SUBSCRIBE'' (Some ''t''), emitPlainControl ''IWANT'' 2], None)"
proof -
  have nf: "next_frame DefaultMaxRPCSize (rpc_frame (replicate 11 0))
      = Some (Frame (replicate 11 0) (int (length (rpc_frame (replicate 11 0)))) [])"
    using next_frame_rpc_frame [of "replicate 11 0" DefaultMaxRPCSize "[]"] by (simp add: DefaultMaxRPCSize_def)
  have nx: "next_frame DefaultMaxRPCSize [] = Some NeedMore" by (simp add: next_frame_def)
  have um: "ext_unmarshal demo_ext (replicate 11 0) = Inr demo_rpc" by (simp add: demo_ext_def)
  have len: "length (rpc_frame (replicate 11 0)) = 12" by (simp add: rpc_frame_def PutUvarint.simps)
  show ?thesis
    by (simp add: observe_def newVarintRPC_def observe_loop_turn(4) [OF nf] observe_loop_turn(2) [OF nx]
        um len demo_actions after_def)
qed

lemma demo_sizes: "ext_unmarshal demo_ext d = Inr rpc \<Longrightarrow> inner_size rpc \<le> int (length d)"
  by (auto simp: demo_ext_def demo_rpc_def inner_size_def split: if_splits)

theorem observe_accounts_all_bytes_witness:
  "emitted_bytes (frame_emissions 12 7 [emitTopicControl 5 ''SUBSCRIBE'' (Some ''t''), emitPlainControl ''IWANT'' 2])
     + int (buffered (newVarintRPC DefaultMaxRPCSize))
   = int (buffered (newVarintRPC DefaultMaxRPCSize)) + int (length (rpc_frame (replicate 11 0)))"
  by (rule observe_accounts_all_bytes [OF _ demo_observe]) (simp add: demo_sizes)

section \<open>What the tags of a publication say\<close>

lemma tagValue_tagsFromMap:
  "gm_ok m \<Longrightarrow> tagValue (tagsFromMap m) name =
     (case gget m name of None \<Rightarrow> [] | Some [] \<Rightarrow> [] | Some (v # vs) \<Rightarrow> v)"
proof (induction m)
  case (Cons kv m)
  obtain k vs where kv: "kv = (k, vs)" by (cases kv)
  with Cons.prems have "k \<notin> gkeys m" "gm_ok m" by simp_all
  moreover from this(1) have "gget m k = None" by (simp add: map_of_eq_None_iff)
  ultimately show ?case using Cons.IH kv by (cases vs) (auto simp: tagsFromMap_def)
qed (simp add: tagsFromMap_def)

text \<open>Go ranges over a map in any order: the value of a tag does not depend on it.\<close>

lemma tagValue_any_order:
  assumes "gm_ok m" and "mset m' = mset m"
  shows "tagValue (tagsFromMap m') name = tagValue (tagsFromMap m) name"
proof -
  from assms have "mset (map fst m') = mset (map fst m)" and set_eq: "set m' = set m"
    by (simp_all flip: set_mset_mset)
  with assms(1) have ok': "gm_ok m'" by (metis gm_ok_def mset_eq_imp_distinct_iff)
  with assms(1) set_eq have "gget m' = gget m"
    by (metis gm_ok_def map_of_inject_set)
  with assms(1) ok' show ?thesis by (simp add: tagValue_tagsFromMap)
qed

lemma normalizeTopic_eth2:
  assumes "CHR ''/'' \<notin> set digest" and "CHR ''/'' \<notin> set name" and "name \<noteq> []"
  shows "normalizeTopic (''/eth2/'' @ digest @ ''/'' @ name @ ''/ssz_snappy'') = name"
proof -
  have "Split (CHR ''/'') (''/eth2/'' @ digest @ ''/'' @ name @ ''/ssz_snappy'')
      = [[], ''eth2'', digest, name, ''ssz_snappy'']"
    using Split_sep [OF assms(1), of "name @ ''/ssz_snappy''"] Split_sep [OF assms(2), of "''ssz_snappy''"]
      Split_absent [of "CHR ''/''" "''ssz_snappy''"] by simp
  then show ?thesis
    using assms(3) HasPrefix_append [of "''/eth2/''"] by (simp only: normalizeTopic_def Let_def) simp
qed

lemma tag_distinct:
  "TagTopic \<noteq> TagDecodedSlot" "TagMessageKind \<noteq> TagDecodedSlot" "TagMessageKind \<noteq> TagTopic"
  "name \<in> {TagDecodedFrom, TagProposerIndex, TagAttestationCount, TagBlobCommitments, TagTxCount, TagSidecarIndex}
     \<Longrightarrow> TagTopic \<noteq> name \<and> TagMessageKind \<noteq> name \<and> TagDecodedSlot \<noteq> name"
  by (auto simp: tag_names)

lemma cond_gput:
  "gm_ok m \<Longrightarrow> gm_ok (if b then gput k v m else m)"
  "gget (if b then gput k v m else m) j = (if b \<and> j = k then Some v else gget m j)"
  by simp_all

text \<open>
  C39: a published message on an Ethereum topic \<open>/eth2/<digest>/<name>/ssz_snappy\<close> whose payload
  decodes to a slot is emitted with the short topic name, the kind \<open>PUBLISH\<close> and a
  slot tag that the processor's \<open>ParseUint\<close> reads back as that slot, in whatever order Go
  ranges over the tag map.
\<close>

theorem publish_tags:
  assumes "CHR ''/'' \<notin> set digest" and "CHR ''/'' \<notin> set name" and "name \<noteq> []"
    and "pm_Topic msg = Some (''/eth2/'' @ digest @ ''/'' @ name @ ''/ssz_snappy'')"
    and "DecodePayload snappy cache name (pm_Data msg) = Some (res, cache')" and "cp_slotOk res"
  shows "\<exists>tags. emitPublishes (Some (decodeMessage snappy)) cache [msg]
       = Some ([\<lparr>em_wireBytes = int (pm_Size msg), em_tags = tagsFromMap tags\<rparr>], cache')
    \<and> (\<forall>m. mset m = mset tags \<longrightarrow>
          tagValue (tagsFromMap m) TagTopic = name \<and> tagValue (tagsFromMap m) TagMessageKind = ''PUBLISH''
          \<and> ParseUint (tagValue (tagsFromMap m) TagDecodedSlot) = (cp_slot res, None))"
proof -
  have norm: "normalizeTopic (''/eth2/'' @ digest @ ''/'' @ name @ ''/ssz_snappy'') = name"
    by (rule normalizeTopic_eth2 [OF assms(1-3)])
  obtain tags where dm: "decodeMessage snappy msg [(TagMessageKind, [''PUBLISH'']),
      (TagTopic, [''/eth2/'' @ digest @ ''/'' @ name @ ''/ssz_snappy''])] cache = Some (tags, cache')"
    and ok: "gm_ok tags" and vals: "gget tags TagTopic = Some [name]"
      "gget tags TagMessageKind = Some [''PUBLISH'']" "gget tags TagDecodedSlot = Some [FormatUint (cp_slot res)]"
    unfolding decodeMessage_def Let_def assms(4) option.case norm assms(5)
    using assms(6) by (simp add: cond_gput tag_distinct tag_distinct(1-3) [symmetric])
  have "emitPublishes (Some (decodeMessage snappy)) cache [msg]
       = Some ([\<lparr>em_wireBytes = int (pm_Size msg), em_tags = tagsFromMap tags\<rparr>], cache')"
    using dm assms(4) by (simp add: tag_names)
  moreover have "\<forall>m. mset m = mset tags \<longrightarrow>
          tagValue (tagsFromMap m) TagTopic = name \<and> tagValue (tagsFromMap m) TagMessageKind = ''PUBLISH''
          \<and> ParseUint (tagValue (tagsFromMap m) TagDecodedSlot) = (cp_slot res, None)"
    using tagValue_any_order [OF ok] tagValue_tagsFromMap [OF ok] vals by simp
  ultimately show ?thesis by blast
qed

theorem publish_tags_witness:
  "\<exists>tags. emitPublishes (Some (decodeMessage (\<lambda>_. None))) []
       [\<lparr>pm_Topic = Some ''/eth2/00/sync_committee_3/ssz_snappy'', pm_Data = put_le 8 (7 :: u64), pm_Size = 40\<rparr>]
       = Some ([\<lparr>em_wireBytes = 40, em_tags = tagsFromMap tags\<rparr>],
           [(payloadKey (put_le 8 (7 :: u64)), \<lparr>cp_slot = 7, cp_slotOk = True, cp_meta = zero_SSZMeta\<rparr>)])
    \<and> (\<forall>m. mset m = mset tags \<longrightarrow>
          tagValue (tagsFromMap m) TagTopic = ''sync_committee_3''
          \<and> tagValue (tagsFromMap m) TagMessageKind = ''PUBLISH''
          \<and> ParseUint (tagValue (tagsFromMap m) TagDecodedSlot) = (7, None))"
proof -
  let ?res = "\<lparr>cp_slot = 7, cp_slotOk = True, cp_meta = zero_SSZMeta\<rparr>"
  let ?msg = "\<lparr>pm_Topic = Some ''/eth2/00/sync_committee_3/ssz_snappy'', pm_Data = put_le 8 (7 :: u64), pm_Size = 40\<rparr>"
  have base: "stripSubnetID ''sync_committee_3'' = ''sync_committee''"
    by (simp add: stripSubnetID_def subnetPrefixes_def HasPrefix_def Let_def isDigits_def is_digit_def)
  have "le_uint64 (put_le 8 (7 :: u64)) 0 = Some 7"
    using le_uint64_put [of 0 "[]" 7 "[]"] by simp
  then have "DecodePayload (\<lambda>_. None) [] ''sync_committee_3'' (put_le 8 (7 :: u64))
      = Some (?res, [(payloadKey (put_le 8 (7 :: u64)), ?res)])"
    by (simp add: DecodePayload_def decodeUncached_def decompress_def base DecodeMeta_def slot_at_def
        topicSlotOffset_def decodeCacheMax_def)
  with publish_tags [of "''00''" "''sync_committee_3''" ?msg "\<lambda>_. None" "[]" ?res] show ?thesis by simp
qed

end
