(* ===== verification/Slot_Clock.thy ===== *)
theory Slot_Clock
  imports Prelude
begin

text \<open>
  \<open>internal/eth/clock.go\<close>: the map from wall-clock time to beacon chain slots.

  A \<open>time.Time\<close> is the number of nanoseconds since the Unix epoch, as an integer; a
  \<open>time.Duration\<close> is an \<open>int64\<close> number of nanoseconds, and its arithmetic wraps.
  \<open>Time.Sub\<close> saturates.  The division panics when the slot duration wraps to zero.
\<close>

type_synonym time = int
type_synonym duration = int

definition Second :: duration where
  "Second = 1000000000"

definition Millisecond :: duration where
  "Millisecond = 1000000"

text \<open>\<open>t.Sub(u)\<close> returns the largest or smallest duration where the difference does not fit.\<close>

definition time_sub :: "time \<Rightarrow> time \<Rightarrow> duration" where
  "time_sub t u = max min_i64 (min max_i64 (t - u))"

definition UnixNano :: "time \<Rightarrow> int" where
  "UnixNano t = i64 t"

definition DefaultSlotsPerEpoch :: u64 where
  "DefaultSlotsPerEpoch = 32"

record SlotRef =
  ref_Slot :: u64
  ref_Epoch :: u64
  ref_SlotStart :: time
  ref_SlotEnd :: time
  ref_Offset :: duration
  ref_OffsetMillis :: int

record SlotClock =
  clk_GenesisTime :: time
  clk_SecondsPerSlot :: u64
  clk_SlotsPerEpoch :: u64

definition NewSlotClock :: "time \<Rightarrow> u64 \<Rightarrow> SlotClock" where
  "NewSlotClock genesis secondsPerSlot =
     \<lparr>clk_GenesisTime = genesis, clk_SecondsPerSlot = secondsPerSlot,
      clk_SlotsPerEpoch = DefaultSlotsPerEpoch\<rparr>"

definition slotDuration :: "SlotClock \<Rightarrow> duration" where
  "slotDuration c = i64 (to_i64 (clk_SecondsPerSlot c) * Second)"

text \<open>
  \<open>At\<close>: the outer \<open>None\<close> is the panic of the division by zero, \<open>Some None\<close> the
  result \<open>(SlotRef{}, false)\<close>.
\<close>

definition At :: "SlotClock \<Rightarrow> time \<Rightarrow> SlotRef option go" where
  "At c t =
     (if clk_SecondsPerSlot c = 0 then Some None
      else
        let slotsPerEpoch =
          (if clk_SlotsPerEpoch c = 0 then DefaultSlotsPerEpoch else clk_SlotsPerEpoch c) in
        if t < clk_GenesisTime c then Some None
        else
          let dur = slotDuration c; elapsed = time_sub t (clk_GenesisTime c) in
          if dur = 0 then None
          else
            let slot = to_u64 (i64 (elapsed sdiv dur));
                offset = elapsed smod dur;
                slotStart = clk_GenesisTime c + i64 (to_i64 slot * dur)
            in Some (Some
              \<lparr>ref_Slot = slot,
               ref_Epoch = slot div slotsPerEpoch,
               ref_SlotStart = slotStart,
               ref_SlotEnd = slotStart + dur,
               ref_Offset = offset,
               ref_OffsetMillis = offset sdiv Millisecond\<rparr>))"

text \<open>
  The clocks the theorems are about: a slot lasts at least a second and its duration fits
  in a \<open>time.Duration\<close> (at most 292 years).
\<close>

definition clock_ok :: "SlotClock \<Rightarrow> bool" where
  "clock_ok c \<longleftrightarrow> 1 \<le> uint (clk_SecondsPerSlot c) \<and> uint (clk_SecondsPerSlot c) * Second \<le> max_i64"

lemma slotDuration_ok:
  assumes "clock_ok c"
  shows "slotDuration c = uint (clk_SecondsPerSlot c) * Second"
    and "Second \<le> slotDuration c" and "slotDuration c \<le> max_i64"
proof -
  have small: "uint (clk_SecondsPerSlot c) < 2 ^ 63"
    using assms by (simp add: clock_ok_def Second_def max_i64_def)
  show "slotDuration c = uint (clk_SecondsPerSlot c) * Second"
    unfolding slotDuration_def to_i64_small [OF small]
    using assms by (simp add: clock_ok_def min_i64_def Second_def)
  then show "Second \<le> slotDuration c" and "slotDuration c \<le> max_i64"
    using assms by (simp_all add: clock_ok_def Second_def)
qed

text \<open>The nanoseconds since genesis that a duration can hold.\<close>

definition elapsed_ns :: "SlotClock \<Rightarrow> time \<Rightarrow> int" where
  "elapsed_ns c t = min max_i64 (t - clk_GenesisTime c)"

lemma At_ok:
  assumes "clock_ok c" and "clk_GenesisTime c \<le> t"
  shows "At c t = Some (Some
    (let e = elapsed_ns c t; d = slotDuration c; s = to_u64 (e div d);
         start = clk_GenesisTime c + (e div d) * d
     in \<lparr>ref_Slot = s,
         ref_Epoch = s div (if clk_SlotsPerEpoch c = 0 then DefaultSlotsPerEpoch else clk_SlotsPerEpoch c),
         ref_SlotStart = start, ref_SlotEnd = start + d,
         ref_Offset = e mod d, ref_OffsetMillis = (e mod d) div Millisecond\<rparr>))"
proof -
  let ?d = "slotDuration c" and ?e = "elapsed_ns c t"
  have d: "0 < ?d" using slotDuration_ok(2) [OF assms(1)] by (simp add: Second_def)
  have nz: "clk_SecondsPerSlot c \<noteq> 0" using assms(1) by (auto simp: clock_ok_def)
  have sub: "time_sub t (clk_GenesisTime c) = ?e"
    using assms(2) by (auto simp: time_sub_def elapsed_ns_def min_i64_def max_i64_def)
  have e: "0 \<le> ?e" "?e \<le> max_i64"
    using assms(2) by (auto simp: elapsed_ns_def max_i64_def)
  have sd: "?e sdiv ?d = ?e div ?d" "?e smod ?d = ?e mod ?d"
    using e(1) d by (simp_all add: signed_divide_int_def signed_modulo_int_def sgn_if)
  have q: "0 \<le> ?e div ?d" "?e div ?d \<le> ?e"
    using e(1) d zdiv_mono2 [of ?e 1 ?d] by (simp_all add: pos_imp_zdiv_nonneg_iff)
  then have q63: "?e div ?d < 2 ^ 63" using e(2) by (simp add: max_i64_def)
  have slot: "i64 (?e div ?d) = ?e div ?d"
    using q e(2) by (simp add: min_i64_def)
  have cast: "to_i64 (to_u64 (?e div ?d)) = ?e div ?d"
    using q(1) q63 by (simp add: to_i64_small)
  have prod: "?e div ?d * ?d \<le> ?e" "0 \<le> ?e div ?d * ?d"
    using minus_div_mult_eq_mod [of ?e ?d] pos_mod_sign [OF d, of ?e] mult_nonneg_nonneg [OF q(1), of ?d] d
    by linarith+
  have start: "i64 (?e div ?d * ?d) = ?e div ?d * ?d"
    using prod e(2) by (simp add: min_i64_def)
  have m: "(?e mod ?d) sdiv Millisecond = (?e mod ?d) div Millisecond"
    using d by (simp add: signed_divide_int_def sgn_if Millisecond_def)
  show ?thesis
    using nz d assms(2) by (simp add: At_def Let_def sub sd slot cast start m)
qed

lemma At_cases:
  assumes "clock_ok c"
  obtains (before) "At c t = Some None" | (slot) r where "At c t = Some (Some r)"
proof (cases "clk_GenesisTime c \<le> t")
  case True
  then show ?thesis using slot At_ok [OF assms] by (metis (no_types))
next
  case False
  then show ?thesis using before by (simp add: At_def Let_def)
qed

lemma At_slot:
  "clock_ok c \<Longrightarrow> At c t = Some (Some r) \<Longrightarrow>
   clk_GenesisTime c \<le> t \<and> uint (ref_Slot r) = elapsed_ns c t div slotDuration c"
proof -
  assume ok: "clock_ok c" and at: "At c t = Some (Some r)"
  from at have g: "clk_GenesisTime c \<le> t"
    by (auto simp: At_def Let_def split: if_splits)
  have d: "0 < slotDuration c" using slotDuration_ok(2) [OF ok] by (simp add: Second_def)
  have e: "0 \<le> elapsed_ns c t" "elapsed_ns c t \<le> max_i64"
    using g by (auto simp: elapsed_ns_def max_i64_def)
  have "0 \<le> elapsed_ns c t div slotDuration c" "elapsed_ns c t div slotDuration c < 2 ^ 64"
    using e d zdiv_mono2 [of "elapsed_ns c t" 1 "slotDuration c"]
    by (simp_all add: pos_imp_zdiv_nonneg_iff max_i64_def)
  with at g ok show ?thesis by (auto simp: At_ok Let_def)
qed

lemma At_mono:
  assumes "clock_ok c" and "t \<le> t'" and "At c t = Some (Some r)" and "At c t' = Some (Some r')"
  shows "ref_Slot r \<le> ref_Slot r'"
proof -
  have d: "0 < slotDuration c" using slotDuration_ok(2) [OF assms(1)] by (simp add: Second_def)
  have "elapsed_ns c t \<le> elapsed_ns c t'"
    using assms(2) by (auto simp: elapsed_ns_def)
  then have "elapsed_ns c t div slotDuration c \<le> elapsed_ns c t' div slotDuration c"
    using d by (rule zdiv_mono1)
  then show ?thesis
    using At_slot [OF assms(1,3)] At_slot [OF assms(1,4)] by (simp add: word_le_def)
qed

text \<open>
  C40: for every time from genesis on that a duration can reach (292 years), the clock returns
  the slot whose half-open interval contains the time: the interval starts a whole number of
  slot durations after genesis, the offset is the distance from its start, and the
  millisecond offset lies within the slot.
\<close>

theorem At_interval:
  assumes "clock_ok c" and "clk_GenesisTime c \<le> t" and "t - clk_GenesisTime c \<le> max_i64"
  shows "\<exists>r. At c t = Some (Some r)
    \<and> ref_SlotStart r \<le> t \<and> t < ref_SlotEnd r
    \<and> ref_SlotStart r = clk_GenesisTime c + uint (ref_Slot r) * slotDuration c
    \<and> ref_SlotEnd r = ref_SlotStart r + slotDuration c
    \<and> ref_Offset r = t - ref_SlotStart r
    \<and> 0 \<le> ref_OffsetMillis r \<and> ref_OffsetMillis r < uint (clk_SecondsPerSlot c) * 1000"
proof -
  let ?d = "slotDuration c" and ?e = "elapsed_ns c t"
  have d: "0 < ?d" "?d = uint (clk_SecondsPerSlot c) * Second"
    using slotDuration_ok [OF assms(1)] by (simp_all add: Second_def)
  have e: "?e = t - clk_GenesisTime c" using assms(3) by (simp add: elapsed_ns_def)
  obtain r where r: "At c t = Some (Some r)" and
    start: "ref_SlotStart r = clk_GenesisTime c + (?e div ?d) * ?d" and
    rest: "ref_SlotEnd r = ref_SlotStart r + ?d" "ref_Offset r = ?e mod ?d"
      "ref_OffsetMillis r = (?e mod ?d) div Millisecond"
    using At_ok [OF assms(1,2)] by (simp add: Let_def)
  have off: "t - (clk_GenesisTime c + ?e div ?d * ?d) = ?e mod ?d"
    using minus_div_mult_eq_mod [of ?e ?d] e by linarith
  have m: "0 \<le> ?e mod ?d" "?e mod ?d < ?d" using d by (simp_all add: pos_mod_bound)
  have "0 \<le> ref_OffsetMillis r" and "ref_OffsetMillis r < uint (clk_SecondsPerSlot c) * 1000"
    using m d(2) rest(3) by (simp_all add: Millisecond_def Second_def pos_imp_zdiv_nonneg_iff)
  moreover have "ref_SlotStart r \<le> t" and "t < ref_SlotEnd r"
    using off m rest(1) start by linarith+
  moreover have "ref_SlotStart r = clk_GenesisTime c + uint (ref_Slot r) * ?d"
    using At_slot [OF assms(1) r] start by simp
  moreover have "ref_Offset r = t - ref_SlotStart r"
    using off rest(2) start by simp
  ultimately show ?thesis using r rest(1) by blast
qed

definition mainnet_clock :: SlotClock where
  "mainnet_clock = NewSlotClock (1606824023 * Second) 12"

lemma mainnet_clock_ok: "clock_ok mainnet_clock"
  by (simp add: clock_ok_def mainnet_clock_def NewSlotClock_def Second_def max_i64_def)

theorem At_interval_witness:
  "\<exists>r. At mainnet_clock (1606824038 * Second) = Some (Some r)
    \<and> ref_SlotStart r \<le> 1606824038 * Second \<and> 1606824038 * Second < ref_SlotEnd r
    \<and> ref_SlotStart r = clk_GenesisTime mainnet_clock + uint (ref_Slot r) * slotDuration mainnet_clock
    \<and> ref_SlotEnd r = ref_SlotStart r + slotDuration mainnet_clock
    \<and> ref_Offset r = 1606824038 * Second - ref_SlotStart r
    \<and> 0 \<le> ref_OffsetMillis r
    \<and> ref_OffsetMillis r < uint (clk_SecondsPerSlot mainnet_clock) * 1000"
  by (rule At_interval [OF mainnet_clock_ok])
    (simp_all add: mainnet_clock_def NewSlotClock_def Second_def max_i64_def)

text \<open>
  the slot number counts slots from genesis: the instant \<open>off\<close> nanoseconds into the
  \<open>n\<close>-th slot is reported as slot \<open>n\<close>, with that offset and the epoch
  \<open>n div 32\<close> of a clock with the default epoch length.
\<close>

lemma At_slot_number:
  assumes "clock_ok c" and "clk_SlotsPerEpoch c = DefaultSlotsPerEpoch"
    and "0 \<le> off" and "off < slotDuration c"
    and "uint n * slotDuration c + off \<le> max_i64"
  shows "\<exists>r. At c (clk_GenesisTime c + uint n * slotDuration c + off) = Some (Some r)
    \<and> ref_Slot r = n \<and> uint (ref_Epoch r) = uint n div 32 \<and> ref_Offset r = off"
proof -
  let ?t = "clk_GenesisTime c + uint n * slotDuration c + off"
  have d: "0 < slotDuration c" using assms(3,4) by simp
  have g: "clk_GenesisTime c \<le> ?t" using d assms(3) by simp
  have e: "elapsed_ns c ?t = uint n * slotDuration c + off"
    using assms(5) by (simp add: elapsed_ns_def)
  have q: "(uint n * slotDuration c + off) div slotDuration c = uint n"
    using d assms(3,4) by simp
  show ?thesis
    using At_ok [OF assms(1) g] assms(2)
    by (simp add: e q Let_def DefaultSlotsPerEpoch_def to_u64_def uint_div
        mod_pos_pos_trivial [OF assms(3,4)] div_pos_pos_trivial [OF assms(3,4)])
qed

text \<open>
  Without the bound on the slot length the conversion of the slot length to nanoseconds wraps;
  a slot length of \<open>2 ^ 55\<close> seconds wraps to zero and the division panics.
\<close>

theorem At_panics_on_wrapped_duration: "At (NewSlotClock 0 (2 ^ 55)) 0 = None"
  by (simp add: At_def NewSlotClock_def slotDuration_def to_i64_def i64_def Second_def Let_def)

end
