(* ===== verification/Messages.thy ===== *)
theory Messages
  imports Prelude
begin

text \<open>
  The data the components exchange: the ingest messages of \<open>proto/xray/xray.proto\<close> (Go types
  in \<open>proto/xray/xray.pb.go\<close>) and the JSON types of \<open>api/api.go\<close>.  A proto3 enum is open,
  so each enum has a constructor for the numbers it does not name.  A pointer field that
  may be nil is an \<open>option\<close>; the fields of a struct carry a short prefix, since Go scopes field
  names by struct and HOL does not.  The pointers of \<open>SlotMeta\<close> are read by value: the
  model keeps no aliasing between an aggregate and the summaries copied from it.
\<close>

section \<open>Ingest messages\<close>

datatype Direction =
  DIRECTION_UNKNOWN | DIRECTION_IN | DIRECTION_OUT | DIRECTION_OTHER int

datatype CloseReason =
  CLOSE_REASON_UNKNOWN | CLOSE_REASON_CLOSE | CLOSE_REASON_RESET | CLOSE_REASON_CONN_CLOSED
  | CLOSE_REASON_OTHER int

record StringDef =
  def_Id :: u32
  def_Value :: string

record PeerUpsert =
  pu_PeerAlias :: u64
  pu_PeerId :: bytes

record ConnectionUpsert =
  cu_ConnAlias :: u64
  cu_PeerAlias :: u64
  cu_RemoteAddr :: string
  cu_LocalAddr :: string
  cu_Direction :: Direction
  cu_TransportId :: u32
  cu_SecurityId :: u32
  cu_MuxerId :: u32
  cu_OpenedAtNs :: int

record ConnectionClosed =
  cc_ConnAlias :: u64
  cc_ClosedAtNs :: int

record StreamUpsert =
  su_StreamAlias :: u64
  su_ConnAlias :: u64
  su_Direction :: Direction
  su_ProtocolId :: u32
  su_OpenedAtNs :: int

record StreamClosed =
  sc_StreamAlias :: u64
  sc_ClosedAtNs :: int
  sc_Reason :: CloseReason

record StreamChunk =
  ch_StreamAlias :: u64
  ch_Direction :: Direction
  ch_Data :: bytes

datatype Payload =
    Envelope_SnapshotStart
  | Envelope_SnapshotEnd
  | Envelope_StringDef StringDef
  | Envelope_PeerUpsert PeerUpsert
  | Envelope_ConnectionUpsert ConnectionUpsert
  | Envelope_ConnectionClosed ConnectionClosed
  | Envelope_StreamUpsert StreamUpsert
  | Envelope_StreamClosed StreamClosed
  | Envelope_StreamChunk StreamChunk

record Envelope =
  env_Seq :: u64
  env_ObservedAtNs :: int
  env_Payload :: "Payload option"

record ClientHello =
  hello_ProtocolVersion :: u32
  hello_PeerId :: bytes
  hello_ClientName :: string
  hello_BootId :: bytes
  hello_StartedAtNs :: int

record ServerHello =
  shello_ProtocolVersion :: u32
  shello_SourceId :: string
  shello_LastAckedSeq :: u64

section \<open>API types\<close>

record BleedDistEntry =
  bd_BytesIn :: u64
  bd_BytesOut :: u64

record SlotMeta =
  sm_ProposerIndex :: "u64 option"
  sm_AttestationCount :: "int option"
  sm_BlobCommitments :: "int option"
  sm_TxCount :: "int option"
  sm_BleedBytesIn :: "u64 option"
  sm_BleedBytesOut :: "u64 option"

record SlotSummary =
  ss_Slot :: u64
  ss_Epoch :: u64
  ss_SlotStartNs :: int
  ss_SlotEndNs :: int
  ss_BytesIn :: u64
  ss_BytesOut :: u64
  ss_Finalized :: bool
  ss_LastUpdatedNs :: int
  ss_Meta :: SlotMeta

record BucketBreakdown =
  bb_Protocol :: string
  bb_Topic :: string
  bb_MessageKind :: string
  bb_BytesIn :: u64
  bb_BytesOut :: u64
  bb_MsgCount :: u64
  bb_BleedBytesIn :: u64
  bb_BleedBytesOut :: u64
  bb_BleedByDistance :: "(string, BleedDistEntry) gomap"

text \<open>\<open>SlotBreakdown\<close> declares the same fields as \<open>BucketBreakdown\<close>.\<close>

type_synonym SlotBreakdown = BucketBreakdown

record SlotBucketPoint =
  bp_OffsetMs :: int
  bp_BytesIn :: u64
  bp_BytesOut :: u64
  bp_Breakdown :: "BucketBreakdown list"

record SlotDetail =
  sd_Summary :: SlotSummary
  sd_Buckets :: "SlotBucketPoint list"
  sd_Breakdown :: "SlotBreakdown list"

record ApiConnState =
  cs_RemoteAddr :: string
  cs_LocalAddr :: string
  cs_Direction :: string
  cs_Transport :: string
  cs_Security :: string
  cs_Muxer :: string
  cs_OpenedAtNs :: int

record PeerSummary =
  ps_PeerID :: string
  ps_Connections :: "ApiConnState list"
  ps_FirstSeenNs :: int
  ps_LastSeenNs :: int

record WsMessage =
  ws_Type :: string
  ws_SourceID :: string
  ws_Slot :: "SlotSummary option"
  ws_Slots :: "SlotSummary list"
  ws_Current :: u64
  ws_PeerCount :: "int option"

section \<open>Zero values\<close>

definition no_meta :: SlotMeta where
  "no_meta = \<lparr>sm_ProposerIndex = None, sm_AttestationCount = None, sm_BlobCommitments = None,
     sm_TxCount = None, sm_BleedBytesIn = None, sm_BleedBytesOut = None\<rparr>"

definition no_bleed :: BleedDistEntry where
  "no_bleed = \<lparr>bd_BytesIn = 0, bd_BytesOut = 0\<rparr>"

end
