(* ===== verification/Slots.thy ===== *)
theory Slots
  imports Gossipsub Slot_Clock Messages "HOL-Library.List_Lexorder" "HOL-Library.Char_ord"
begin

text \<open>
  The per-slot aggregates of \<open>internal/processor/processor.go\<close>: the traffic of one slot,
  counted per 100 ms bucket, per protocol, topic and message kind, and per both, and the
  closure \<open>emit\<close> that books one decoded message.  The pointers of the source's maps are
  values here; every update is written back to the map it came from.  Go compares strings
  byte by byte, which is the order of \<open>List_Lexorder\<close> on characters.

  Byte counters are \<open>uint64\<close> and wrap; all the accounting theorems are equations between
  words and hold whether they wrap or not.
\<close>

section \<open>State\<close>

record slotKey =
  k_protocol :: string
  k_topic :: string
  k_messageKind :: string

record slotAggregate =
  ag_summary :: SlotSummary
  ag_buckets :: "(int, SlotBucketPoint) gomap"
  ag_breakdown :: "(slotKey, SlotBreakdown) gomap"
  ag_bucketBreakdown :: "(int, (slotKey, BucketBreakdown) gomap) gomap"

type_synonym slot_map = "(u64, slotAggregate) gomap"

definition slotBucketWidthMs :: int where
  "slotBucketWidthMs = 100"

definition bucket_offset :: "int \<Rightarrow> int" where
  "bucket_offset offsetMs = i64 ((offsetMs sdiv slotBucketWidthMs) * slotBucketWidthMs)"

definition new_aggregate :: "SlotRef \<Rightarrow> slotAggregate" where
  "new_aggregate ref =
     \<lparr>ag_summary = \<lparr>ss_Slot = ref_Slot ref, ss_Epoch = ref_Epoch ref,
        ss_SlotStartNs = UnixNano (ref_SlotStart ref), ss_SlotEndNs = UnixNano (ref_SlotEnd ref),
        ss_BytesIn = 0, ss_BytesOut = 0, ss_Finalized = False,
        ss_LastUpdatedNs = UnixNano (ref_SlotStart ref), ss_Meta = no_meta\<rparr>,
      ag_buckets = [], ag_breakdown = [], ag_bucketBreakdown = []\<rparr>"

definition ensureSlotLocked :: "slot_map \<Rightarrow> SlotRef \<Rightarrow> slotAggregate \<times> slot_map" where
  "ensureSlotLocked slots ref =
     (case gget slots (ref_Slot ref) of
        Some agg \<Rightarrow> (agg, slots)
      | None \<Rightarrow> let agg = new_aggregate ref in (agg, gput (ref_Slot ref) agg slots))"

section \<open>Raw traffic\<close>

definition getd :: "'v \<Rightarrow> ('k, 'v) gomap \<Rightarrow> 'k \<Rightarrow> 'v" where
  "getd d m k = (case gget m k of None \<Rightarrow> d | Some v \<Rightarrow> v)"

definition new_point :: "int \<Rightarrow> SlotBucketPoint" where
  "new_point off = \<lparr>bp_OffsetMs = off, bp_BytesIn = 0, bp_BytesOut = 0, bp_Breakdown = []\<rparr>"

fun add_point :: "Direction \<Rightarrow> u64 \<Rightarrow> SlotBucketPoint \<Rightarrow> SlotBucketPoint" where
  "add_point DIRECTION_IN bytes p = p\<lparr>bp_BytesIn := bp_BytesIn p + bytes\<rparr>"
| "add_point DIRECTION_OUT bytes p = p\<lparr>bp_BytesOut := bp_BytesOut p + bytes\<rparr>"
| "add_point _ bytes p = p"

fun add_summary :: "Direction \<Rightarrow> u64 \<Rightarrow> SlotSummary \<Rightarrow> SlotSummary" where
  "add_summary DIRECTION_IN bytes s = s\<lparr>ss_BytesIn := ss_BytesIn s + bytes\<rparr>"
| "add_summary DIRECTION_OUT bytes s = s\<lparr>ss_BytesOut := ss_BytesOut s + bytes\<rparr>"
| "add_summary _ bytes s = s"

definition addRawTrafficLocked :: "int \<Rightarrow> int \<Rightarrow> Direction \<Rightarrow> u64 \<Rightarrow> slotAggregate \<Rightarrow> slotAggregate" where
  "addRawTrafficLocked observedAtNs offsetMs dir bytes agg =
     (let off = bucket_offset offsetMs;
          point = getd (new_point off) (ag_buckets agg) off
      in agg\<lparr>ag_summary := (add_summary dir bytes (ag_summary agg))\<lparr>ss_LastUpdatedNs := observedAtNs\<rparr>,
             ag_buckets := gput off (add_point dir bytes point) (ag_buckets agg)\<rparr>)"

section \<open>Breakdowns\<close>

definition new_row :: "slotKey \<Rightarrow> BucketBreakdown" where
  "new_row key = \<lparr>bb_Protocol = k_protocol key, bb_Topic = k_topic key, bb_MessageKind = k_messageKind key,
     bb_BytesIn = 0, bb_BytesOut = 0, bb_MsgCount = 0, bb_BleedBytesIn = 0, bb_BleedBytesOut = 0,
     bb_BleedByDistance = []\<rparr>"

definition dist_key :: "int \<Rightarrow> string" where
  "dist_key bleedDistance = (if bleedDistance \<ge> 4 then ''4+'' else Itoa bleedDistance)"

fun add_entry :: "Direction \<Rightarrow> u64 \<Rightarrow> BleedDistEntry \<Rightarrow> BleedDistEntry" where
  "add_entry DIRECTION_IN bytes e = e\<lparr>bd_BytesIn := bd_BytesIn e + bytes\<rparr>"
| "add_entry DIRECTION_OUT bytes e = e\<lparr>bd_BytesOut := bd_BytesOut e + bytes\<rparr>"
| "add_entry _ bytes e = e"

fun add_bytes :: "Direction \<Rightarrow> u64 \<Rightarrow> int \<Rightarrow> BucketBreakdown \<Rightarrow> BucketBreakdown" where
  "add_bytes DIRECTION_IN bytes dist r =
     (let r = r\<lparr>bb_BytesIn := bb_BytesIn r + bytes\<rparr>
      in if dist > 0 then r\<lparr>bb_BleedBytesIn := bb_BleedBytesIn r + bytes\<rparr> else r)"
| "add_bytes DIRECTION_OUT bytes dist r =
     (let r = r\<lparr>bb_BytesOut := bb_BytesOut r + bytes\<rparr>
      in if dist > 0 then r\<lparr>bb_BleedBytesOut := bb_BleedBytesOut r + bytes\<rparr> else r)"
| "add_bytes _ bytes dist r = r"

definition add_distance :: "Direction \<Rightarrow> u64 \<Rightarrow> int \<Rightarrow> BucketBreakdown \<Rightarrow> BucketBreakdown" where
  "add_distance dir bytes dist r =
     (if dist > 0 then
        let entry = getd no_bleed (bb_BleedByDistance r) (dist_key dist)
        in r\<lparr>bb_BleedByDistance := gput (dist_key dist) (add_entry dir bytes entry) (bb_BleedByDistance r)\<rparr>
      else r)"

text \<open>The source books a row of the slot and a row of the bucket with the same statements.\<close>

definition add_row :: "Direction \<Rightarrow> u64 \<Rightarrow> int \<Rightarrow> BucketBreakdown \<Rightarrow> BucketBreakdown" where
  "add_row dir bytes dist r =
     add_distance dir bytes dist (add_bytes dir bytes dist (r\<lparr>bb_MsgCount := bb_MsgCount r + 1\<rparr>))"

definition addBreakdownLocked ::
  "int \<Rightarrow> Direction \<Rightarrow> u64 \<Rightarrow> string \<Rightarrow> string \<Rightarrow> string \<Rightarrow> int \<Rightarrow> slotAggregate \<Rightarrow> slotAggregate" where
  "addBreakdownLocked off dir bytes protocol topic messageKind dist agg =
     (let key = \<lparr>k_protocol = protocol, k_topic = topic, k_messageKind = messageKind\<rparr>;
          row = getd (new_row key) (ag_breakdown agg) key;
          bbd = getd [] (ag_bucketBreakdown agg) off;
          bb = getd (new_row key) bbd key
      in agg\<lparr>ag_breakdown := gput key (add_row dir bytes dist row) (ag_breakdown agg),
             ag_bucketBreakdown := gput off (gput key (add_row dir bytes dist bb) bbd) (ag_bucketBreakdown agg)\<rparr>)"

section \<open>The emit closure\<close>

definition bleed_distance :: "SlotRef \<Rightarrow> Tag list \<Rightarrow> int" where
  "bleed_distance ref tags =
     (let v = tagValue tags TagDecodedSlot in
      if v \<noteq> [] then
        (case ParseUint v of
           (payloadSlot, None) \<Rightarrow> if payloadSlot < ref_Slot ref then to_i64 (ref_Slot ref - payloadSlot) else 0
         | (_, Some _) \<Rightarrow> 0)
      else 0)"

definition bump :: "u64 option \<Rightarrow> u64 \<Rightarrow> u64 option" where
  "bump cur wb = (case cur of None \<Rightarrow> Some wb | Some v \<Rightarrow> Some (v + wb))"

fun add_meta_bleed :: "Direction \<Rightarrow> u64 \<Rightarrow> SlotMeta \<Rightarrow> SlotMeta" where
  "add_meta_bleed DIRECTION_IN wb m = m\<lparr>sm_BleedBytesIn := bump (sm_BleedBytesIn m) wb\<rparr>"
| "add_meta_bleed DIRECTION_OUT wb m = m\<lparr>sm_BleedBytesOut := bump (sm_BleedBytesOut m) wb\<rparr>"
| "add_meta_bleed _ wb m = m"

definition tag_uint :: "Tag list \<Rightarrow> string \<Rightarrow> u64 option" where
  "tag_uint tags name = (let v = tagValue tags name in
     if v \<noteq> [] then (case ParseUint v of (n, None) \<Rightarrow> Some n | (_, Some _) \<Rightarrow> None) else None)"

definition tag_int :: "Tag list \<Rightarrow> string \<Rightarrow> int option" where
  "tag_int tags name = (let v = tagValue tags name in
     if v \<noteq> [] then (case Atoi v of (n, None) \<Rightarrow> Some n | (_, Some _) \<Rightarrow> None) else None)"

definition or_else :: "'a option \<Rightarrow> 'a option \<Rightarrow> 'a option" where
  "or_else new old = (case new of None \<Rightarrow> old | Some v \<Rightarrow> Some v)"

definition set_block_meta :: "Tag list \<Rightarrow> SlotMeta \<Rightarrow> SlotMeta" where
  "set_block_meta tags m =
     m\<lparr>sm_ProposerIndex := or_else (tag_uint tags TagProposerIndex) (sm_ProposerIndex m),
       sm_AttestationCount := or_else (tag_int tags TagAttestationCount) (sm_AttestationCount m),
       sm_BlobCommitments := or_else (tag_int tags TagBlobCommitments) (sm_BlobCommitments m),
       sm_TxCount := or_else (tag_int tags TagTxCount) (sm_TxCount m)\<rparr>"

definition map_meta :: "(SlotMeta \<Rightarrow> SlotMeta) \<Rightarrow> slotAggregate \<Rightarrow> slotAggregate" where
  "map_meta f agg = agg\<lparr>ag_summary := (ag_summary agg)\<lparr>ss_Meta := f (ss_Meta (ag_summary agg))\<rparr>\<rparr>"

definition emit :: "SlotRef \<Rightarrow> int \<Rightarrow> Direction \<Rightarrow> string \<Rightarrow> emission \<Rightarrow> slotAggregate \<Rightarrow> slotAggregate" where
  "emit ref off dir protocol em agg =
     (let tags = em_tags em;
          topic = tagValue tags TagTopic;
          msgKind = tagValue tags TagMessageKind;
          dist = bleed_distance ref tags;
          wb = to_u64 (em_wireBytes em);
          agg = addBreakdownLocked off dir wb protocol topic msgKind dist agg;
          agg = (if dist > 0 then map_meta (add_meta_bleed dir wb) agg else agg)
      in if topic = ''beacon_block'' \<and> msgKind = ''PUBLISH'' \<and> dir = DIRECTION_IN
         then map_meta (set_block_meta tags) agg else agg)"

section \<open>Reading an aggregate\<close>

text \<open>\<open>bb_total\<close> is the sum both comparators compute, with its wrap-around.\<close>

definition bb_total :: "BucketBreakdown \<Rightarrow> u64" where
  "bb_total r = bb_BytesIn r + bb_BytesOut r"

definition breakdown_less :: "SlotBreakdown \<Rightarrow> SlotBreakdown \<Rightarrow> bool" where
  "breakdown_less a b =
     (if bb_total a = bb_total b then
        if bb_Protocol a = bb_Protocol b then
          if bb_Topic a = bb_Topic b then bb_MessageKind a < bb_MessageKind b
          else bb_Topic a < bb_Topic b
        else bb_Protocol a < bb_Protocol b
      else bb_total a > bb_total b)"

definition with_finalized :: "u64 \<Rightarrow> SlotSummary \<Rightarrow> SlotSummary" where
  "with_finalized currentSlot s = s\<lparr>ss_Finalized := ss_Slot s < currentSlot\<rparr>"

definition bucket_rows :: "slotAggregate \<Rightarrow> SlotBucketPoint \<Rightarrow> SlotBucketPoint" where
  "bucket_rows agg p =
     (let bbd = getd [] (ag_bucketBreakdown agg) (bp_OffsetMs p) in
      if bbd = [] then p
      else p\<lparr>bp_Breakdown := sort_slice (by_key_desc bb_total) (gvals bbd)\<rparr>)"

definition buildSlotDetailLocked :: "u64 \<Rightarrow> slot_map \<Rightarrow> u64 \<Rightarrow> SlotDetail option" where
  "buildSlotDetailLocked currentSlot slots slot =
     (case gget slots slot of
        None \<Rightarrow> None
      | Some agg \<Rightarrow> Some
          \<lparr>sd_Summary = with_finalized currentSlot (ag_summary agg),
           sd_Buckets = map (bucket_rows agg) (sort_slice (by_key_asc bp_OffsetMs) (gvals (ag_buckets agg))),
           sd_Breakdown = sort_slice breakdown_less (gvals (ag_breakdown agg))\<rparr>)"

interpretation breakdown: strict_weak_order breakdown_less
  by unfold_locales (auto simp: breakdown_less_def split: if_splits)

text \<open>
  What \<open>handleStreamChunk\<close> books for one chunk: the raw bytes, then either one row for the
  whole chunk (no decoder) or the emissions of the decoder and a row for the chunk if it
  reported an error.
\<close>

definition book_chunk ::
  "SlotRef \<Rightarrow> int \<Rightarrow> Direction \<Rightarrow> u64 \<Rightarrow> string \<Rightarrow> (emission list \<times> bool) option \<Rightarrow> slotAggregate \<Rightarrow> slotAggregate" where
  "book_chunk ref observedAtNs dir len protocol decoded agg =
     (let off = bucket_offset (ref_OffsetMillis ref);
          agg = addRawTrafficLocked observedAtNs (ref_OffsetMillis ref) dir len agg
      in case decoded of
           None \<Rightarrow> addBreakdownLocked off dir len protocol [] ''raw'' 0 agg
         | Some (ems, failed) \<Rightarrow>
             let agg = fold (emit ref off dir protocol) ems agg
             in if failed then addBreakdownLocked off dir len protocol [] ''decode_error'' 0 agg else agg)"

section \<open>Accounting\<close>

definition val :: "('r \<Rightarrow> u64) \<Rightarrow> ('k, 'r) gomap \<Rightarrow> 'k \<Rightarrow> u64" where
  "val f m k = (case gget m k of None \<Rightarrow> 0 | Some r \<Rightarrow> f r)"

lemma val_Nil [simp]: "val f [] k = 0"
  by (simp add: val_def)

lemma val_gput: "val f (gput k v m) j = (if j = k then f v else val f m j)"
  by (simp add: val_def)

text \<open>
  Counters kept in a map: a row is created with the counter at zero, and every booking moves the counter
  by an amount that does not depend on the row.
\<close>

locale counter =
  fixes f :: "'r \<Rightarrow> u64" and start :: 'r and upd :: "'r \<Rightarrow> 'r" and gain :: u64
  assumes f_start: "f start = 0" and f_upd: "f (upd r) = f r + gain"
begin

lemma getd_upd: "f (upd (getd start m k)) = val f m k + gain"
  by (simp add: getd_def val_def f_start f_upd split: option.split)

lemma val_book: "val f (gput k (upd (getd start m k)) m) j = val f m j + (if j = k then gain else 0)"
  by (simp add: val_gput getd_upd)

lemma gsum_book: "gsum f (gput k (upd (getd start m k)) m) = gsum f m + gain"
proof -
  have "(case gget m k of None \<Rightarrow> 0 | Some w \<Rightarrow> f w) = val f m k" by (simp add: val_def)
  then show ?thesis by (simp add: gsum_gput getd_upd)
qed

text \<open>The same counter kept per bucket and key: the buckets of a key still add up.\<close>

lemma gsum_val_book:
  "gsum (\<lambda>bbd. val f bbd j) (gput off (gput k (upd (getd start (getd [] m off) k)) (getd [] m off)) m)
     = gsum (\<lambda>bbd. val f bbd j) m + (if j = k then gain else 0)"
proof -
  have "(case gget m off of None \<Rightarrow> 0 | Some w \<Rightarrow> val f w j) = val f (getd [] m off) j"
    by (simp add: getd_def split: option.split)
  then show ?thesis by (simp add: gsum_gput val_book)
qed

end

definition gain_in :: "Direction \<Rightarrow> u64 \<Rightarrow> u64" where
  "gain_in dir bytes = (if dir = DIRECTION_IN then bytes else 0)"

definition gain_out :: "Direction \<Rightarrow> u64 \<Rightarrow> u64" where
  "gain_out dir bytes = (if dir = DIRECTION_OUT then bytes else 0)"

definition bleeds :: "int \<Rightarrow> u64 \<Rightarrow> u64" where
  "bleeds dist n = (if dist > 0 then n else 0)"

lemmas gains = gain_in_def gain_out_def bleeds_def

lemma add_bytes_fields [simp]:
  "bb_BytesIn (add_bytes dir n dist r) = bb_BytesIn r + gain_in dir n"
  "bb_BytesOut (add_bytes dir n dist r) = bb_BytesOut r + gain_out dir n"
  "bb_BleedBytesIn (add_bytes dir n dist r) = bb_BleedBytesIn r + bleeds dist (gain_in dir n)"
  "bb_BleedBytesOut (add_bytes dir n dist r) = bb_BleedBytesOut r + bleeds dist (gain_out dir n)"
  "bb_MsgCount (add_bytes dir n dist r) = bb_MsgCount r"
  "bb_BleedByDistance (add_bytes dir n dist r) = bb_BleedByDistance r"
  "bb_Protocol (add_bytes dir n dist r) = bb_Protocol r"
  "bb_Topic (add_bytes dir n dist r) = bb_Topic r"
  "bb_MessageKind (add_bytes dir n dist r) = bb_MessageKind r"
  by (cases dir; simp add: Let_def gains)+

lemma add_distance_fields [simp]:
  "bb_BytesIn (add_distance dir n dist r) = bb_BytesIn r"
  "bb_BytesOut (add_distance dir n dist r) = bb_BytesOut r"
  "bb_BleedBytesIn (add_distance dir n dist r) = bb_BleedBytesIn r"
  "bb_BleedBytesOut (add_distance dir n dist r) = bb_BleedBytesOut r"
  "bb_MsgCount (add_distance dir n dist r) = bb_MsgCount r"
  "bb_Protocol (add_distance dir n dist r) = bb_Protocol r"
  "bb_Topic (add_distance dir n dist r) = bb_Topic r"
  "bb_MessageKind (add_distance dir n dist r) = bb_MessageKind r"
  by (simp_all add: add_distance_def Let_def)

lemma add_row_fields:
  "bb_BytesIn (add_row dir n dist r) = bb_BytesIn r + gain_in dir n"
  "bb_BytesOut (add_row dir n dist r) = bb_BytesOut r + gain_out dir n"
  "bb_BleedBytesIn (add_row dir n dist r) = bb_BleedBytesIn r + bleeds dist (gain_in dir n)"
  "bb_BleedBytesOut (add_row dir n dist r) = bb_BleedBytesOut r + bleeds dist (gain_out dir n)"
  "bb_MsgCount (add_row dir n dist r) = bb_MsgCount r + 1"
  by (simp_all add: add_row_def)

interpretation row_in: counter bb_BytesIn "new_row key" "add_row dir n dist" "gain_in dir n" for key dir n dist
  by unfold_locales (simp_all add: new_row_def add_row_fields)

interpretation row_out: counter bb_BytesOut "new_row key" "add_row dir n dist" "gain_out dir n" for key dir n dist
  by unfold_locales (simp_all add: new_row_def add_row_fields)

interpretation row_bleed_in: counter bb_BleedBytesIn "new_row key" "add_row dir n dist" "bleeds dist (gain_in dir n)"
  for key dir n dist
  by unfold_locales (simp_all add: new_row_def add_row_fields)

interpretation row_bleed_out: counter bb_BleedBytesOut "new_row key" "add_row dir n dist" "bleeds dist (gain_out dir n)"
  for key dir n dist
  by unfold_locales (simp_all add: new_row_def add_row_fields)

interpretation row_count: counter bb_MsgCount "new_row key" "add_row dir n dist" 1 for key dir n dist
  by unfold_locales (simp_all add: new_row_def add_row_fields)

interpretation point_in: counter bp_BytesIn "new_point off" "add_point dir n" "gain_in dir n" for off dir n
  by unfold_locales (cases dir; simp add: new_point_def gains)+

interpretation point_out: counter bp_BytesOut "new_point off" "add_point dir n" "gain_out dir n" for off dir n
  by unfold_locales (cases dir; simp add: new_point_def gains)+

interpretation entry_in: counter bd_BytesIn no_bleed "add_entry dir n" "gain_in dir n" for dir n
  by unfold_locales (cases dir; simp add: no_bleed_def gains)+

interpretation entry_out: counter bd_BytesOut no_bleed "add_entry dir n" "gain_out dir n" for dir n
  by unfold_locales (cases dir; simp add: no_bleed_def gains)+

section \<open>The invariant of an aggregate\<close>

definition row_key :: "BucketBreakdown \<Rightarrow> slotKey" where
  "row_key r = \<lparr>k_protocol = bb_Protocol r, k_topic = bb_Topic r, k_messageKind = bb_MessageKind r\<rparr>"

text \<open>A row carries its key, and its bleed bytes are those of its distance classes.\<close>

definition row_ok :: "slotKey \<Rightarrow> BucketBreakdown \<Rightarrow> bool" where
  "row_ok k r \<longleftrightarrow> row_key r = k \<and> gm_ok (bb_BleedByDistance r)
     \<and> gkeys (bb_BleedByDistance r) \<subseteq> {''1'', ''2'', ''3'', ''4+''}
     \<and> gsum bd_BytesIn (bb_BleedByDistance r) = bb_BleedBytesIn r
     \<and> gsum bd_BytesOut (bb_BleedByDistance r) = bb_BleedBytesOut r"

definition rows_ok :: "(slotKey, BucketBreakdown) gomap \<Rightarrow> bool" where
  "rows_ok m \<longleftrightarrow> gm_ok m \<and> (\<forall>k r. gget m k = Some r \<longrightarrow> row_ok k r)"

definition shape_ok :: "slotAggregate \<Rightarrow> bool" where
  "shape_ok agg \<longleftrightarrow> gm_ok (ag_buckets agg) \<and> gm_ok (ag_bucketBreakdown agg) \<and> rows_ok (ag_breakdown agg)
     \<and> (\<forall>off p. gget (ag_buckets agg) off = Some p \<longrightarrow> bp_OffsetMs p = off \<and> bp_Breakdown p = [])
     \<and> (\<forall>off bbd. gget (ag_bucketBreakdown agg) off = Some bbd \<longrightarrow> rows_ok bbd)
     \<and> dom (gget (ag_bucketBreakdown agg)) \<subseteq> dom (gget (ag_buckets agg))"

definition sums_agree :: "slotAggregate \<Rightarrow> (BucketBreakdown \<Rightarrow> u64) \<Rightarrow> bool" where
  "sums_agree agg f \<longleftrightarrow> (\<forall>k. gsum (\<lambda>bbd. val f bbd k) (ag_bucketBreakdown agg) = val f (ag_breakdown agg) k)"

definition counters :: "(BucketBreakdown \<Rightarrow> u64) set" where
  "counters = {bb_BytesIn, bb_BytesOut, bb_MsgCount, bb_BleedBytesIn, bb_BleedBytesOut}"

definition opt0 :: "u64 option \<Rightarrow> u64" where
  "opt0 x = (case x of None \<Rightarrow> 0 | Some v \<Rightarrow> v)"

definition totals_ok :: "slotAggregate \<Rightarrow> bool" where
  "totals_ok agg \<longleftrightarrow> gsum bp_BytesIn (ag_buckets agg) = ss_BytesIn (ag_summary agg)
     \<and> gsum bp_BytesOut (ag_buckets agg) = ss_BytesOut (ag_summary agg)"

definition bleed_ok :: "slotAggregate \<Rightarrow> bool" where
  "bleed_ok agg \<longleftrightarrow> gsum bb_BleedBytesIn (ag_breakdown agg) = opt0 (sm_BleedBytesIn (ss_Meta (ag_summary agg)))
     \<and> gsum bb_BleedBytesOut (ag_breakdown agg) = opt0 (sm_BleedBytesOut (ss_Meta (ag_summary agg)))"

definition agg_ok :: "slotAggregate \<Rightarrow> bool" where
  "agg_ok agg \<longleftrightarrow> shape_ok agg \<and> totals_ok agg \<and> bleed_ok agg \<and> (\<forall>f \<in> counters. sums_agree agg f)"

lemma agg_ok_new: "agg_ok (new_aggregate ref)"
  by (simp add: agg_ok_def new_aggregate_def shape_ok_def rows_ok_def totals_ok_def bleed_ok_def
      sums_agree_def no_meta_def opt0_def)

lemma dist_key_range: "0 < dist \<Longrightarrow> dist_key dist \<in> {''1'', ''2'', ''3'', ''4+''}"
proof -
  assume "0 < dist"
  then consider "dist = 1" | "dist = 2" | "dist = 3" | "4 \<le> dist" by linarith
  then show ?thesis
    by cases (simp_all add: dist_key_def Itoa_def digit_char_def dec_string.simps char_of_def bit_0)
qed

lemma row_ok_new: "row_ok k (new_row k)"
  by (simp add: row_ok_def new_row_def row_key_def)

lemma row_ok_add: "row_ok k r \<Longrightarrow> row_ok k (add_row dir n dist r)"
  unfolding row_ok_def add_row_fields
  by (auto simp: add_row_def row_key_def add_distance_def Let_def entry_in.gsum_book entry_out.gsum_book
      gm.keys_put bleeds_def dest: dist_key_range)

lemma rows_ok_book:
  "rows_ok m \<Longrightarrow> rows_ok (gput k (add_row dir n dist (getd (new_row k) m k)) m)"
  by (auto simp: rows_ok_def getd_def row_ok_new intro!: row_ok_add split: option.splits)

lemma rows_ok_getd:
  "(\<And>off bbd. gget m off = Some bbd \<Longrightarrow> rows_ok bbd) \<Longrightarrow> rows_ok (getd [] m off)"
  by (auto simp: getd_def rows_ok_def split: option.split)

lemma agg_ok_raw:
  assumes "agg_ok agg"
  shows "agg_ok (addRawTrafficLocked t ms dir n agg)"
    and "bucket_offset ms \<in> dom (gget (ag_buckets (addRawTrafficLocked t ms dir n agg)))"
proof -
  have pt: "bp_OffsetMs (add_point dir n p) = bp_OffsetMs p" "bp_Breakdown (add_point dir n p) = bp_Breakdown p" for p
    by (cases dir; simp)+
  have su: "ss_BytesIn (add_summary dir n s) = ss_BytesIn s + gain_in dir n"
    "ss_BytesOut (add_summary dir n s) = ss_BytesOut s + gain_out dir n"
    "ss_Meta (add_summary dir n s) = ss_Meta s" for s
    by (cases dir; simp add: gains)+
  have "shape_ok (addRawTrafficLocked t ms dir n agg)"
    using assms by (auto simp: agg_ok_def shape_ok_def addRawTrafficLocked_def Let_def pt getd_def new_point_def
        split: option.splits)
  moreover have "totals_ok (addRawTrafficLocked t ms dir n agg)"
    using assms by (simp add: agg_ok_def totals_ok_def addRawTrafficLocked_def Let_def su point_in.gsum_book
        point_out.gsum_book)
  ultimately show "agg_ok (addRawTrafficLocked t ms dir n agg)"
    using assms by (simp add: agg_ok_def bleed_ok_def sums_agree_def addRawTrafficLocked_def Let_def su)
  show "bucket_offset ms \<in> dom (gget (ag_buckets (addRawTrafficLocked t ms dir n agg)))"
    by (simp add: addRawTrafficLocked_def Let_def domIff)
qed

text \<open>A breakdown booked for an offset whose bucket exists.\<close>

lemma breakdown_parts:
  assumes "agg_ok agg" and "off \<in> dom (gget (ag_buckets agg))"
  shows "shape_ok (addBreakdownLocked off dir n pr to mk dist agg)"
    and "f \<in> counters \<Longrightarrow> sums_agree (addBreakdownLocked off dir n pr to mk dist agg) f"
    and "gsum bb_BleedBytesIn (ag_breakdown (addBreakdownLocked off dir n pr to mk dist agg))
      = gsum bb_BleedBytesIn (ag_breakdown agg) + bleeds dist (gain_in dir n)"
    and "gsum bb_BleedBytesOut (ag_breakdown (addBreakdownLocked off dir n pr to mk dist agg))
      = gsum bb_BleedBytesOut (ag_breakdown agg) + bleeds dist (gain_out dir n)"
    and "ag_summary (addBreakdownLocked off dir n pr to mk dist agg) = ag_summary agg"
    and "ag_buckets (addBreakdownLocked off dir n pr to mk dist agg) = ag_buckets agg"
proof -
  let ?k = "\<lparr>k_protocol = pr, k_topic = to, k_messageKind = mk\<rparr>"
  have rows: "rows_ok (getd [] (ag_bucketBreakdown agg) off)"
    using assms(1) by (intro rows_ok_getd) (auto simp: agg_ok_def shape_ok_def)
  have up: "((gget (ag_bucketBreakdown agg))(off \<mapsto> gput ?k (add_row dir n dist
        (getd (new_row ?k) (getd [] (ag_bucketBreakdown agg) off) ?k)) (getd [] (ag_bucketBreakdown agg) off))) x
      = Some bbd \<Longrightarrow> rows_ok bbd" for x bbd
    using assms(1) rows_ok_book [OF rows] by (auto simp: agg_ok_def shape_ok_def split: if_splits)
  show "shape_ok (addBreakdownLocked off dir n pr to mk dist agg)"
  proof -
    have sh: "shape_ok agg" using assms(1) by (simp add: agg_ok_def)
    then have "dom (gget (ag_bucketBreakdown agg)) \<subseteq> dom (gget (ag_buckets agg))" by (simp add: shape_ok_def)
    then have "dom (gget (ag_bucketBreakdown (addBreakdownLocked off dir n pr to mk dist agg)))
        \<subseteq> dom (gget (ag_buckets agg))"
      using assms(2) by (simp add: addBreakdownLocked_def Let_def dom_fun_upd del: fun_upd_apply)
    with sh up assms(2) show ?thesis
      unfolding shape_ok_def by (simp add: addBreakdownLocked_def Let_def rows_ok_book)
  qed
  show "sums_agree (addBreakdownLocked off dir n pr to mk dist agg) f" if "f \<in> counters"
    using that assms(1)
    by (auto simp: agg_ok_def counters_def sums_agree_def addBreakdownLocked_def Let_def
        row_in.gsum_val_book row_in.val_book row_out.gsum_val_book row_out.val_book
        row_count.gsum_val_book row_count.val_book row_bleed_in.gsum_val_book row_bleed_in.val_book
        row_bleed_out.gsum_val_book row_bleed_out.val_book)
  show "gsum bb_BleedBytesIn (ag_breakdown (addBreakdownLocked off dir n pr to mk dist agg))
      = gsum bb_BleedBytesIn (ag_breakdown agg) + bleeds dist (gain_in dir n)"
    "gsum bb_BleedBytesOut (ag_breakdown (addBreakdownLocked off dir n pr to mk dist agg))
      = gsum bb_BleedBytesOut (ag_breakdown agg) + bleeds dist (gain_out dir n)"
    by (simp_all add: addBreakdownLocked_def Let_def row_bleed_in.gsum_book row_bleed_out.gsum_book)
qed (simp_all add: addBreakdownLocked_def Let_def)

lemma agg_ok_breakdown:
  assumes "agg_ok agg" and "off \<in> dom (gget (ag_buckets agg))" and "dist \<le> 0"
  shows "agg_ok (addBreakdownLocked off dir n pr to mk dist agg)"
  using breakdown_parts [OF assms(1,2), where dir = dir and n = n and pr = pr and to = to and mk = mk and dist = dist] assms
  by (simp add: agg_ok_def totals_ok_def bleed_ok_def bleeds_def)

lemma map_meta_frame [simp]:
  "ag_buckets (map_meta f agg) = ag_buckets agg"
  "ag_breakdown (map_meta f agg) = ag_breakdown agg"
  "ag_bucketBreakdown (map_meta f agg) = ag_bucketBreakdown agg"
  "ss_BytesIn (ag_summary (map_meta f agg)) = ss_BytesIn (ag_summary agg)"
  "ss_BytesOut (ag_summary (map_meta f agg)) = ss_BytesOut (ag_summary agg)"
  "ss_Slot (ag_summary (map_meta f agg)) = ss_Slot (ag_summary agg)"
  "ss_Meta (ag_summary (map_meta f agg)) = f (ss_Meta (ag_summary agg))"
  by (simp_all add: map_meta_def)

lemma agg_ok_block_meta: "agg_ok agg \<Longrightarrow> agg_ok (map_meta (set_block_meta tags) agg)"
  by (simp add: agg_ok_def shape_ok_def totals_ok_def bleed_ok_def sums_agree_def set_block_meta_def)

lemma opt0_bump: "opt0 (bump x n) = opt0 x + n"
  by (simp add: opt0_def bump_def split: option.split)

lemma add_meta_bleed_fields:
  "opt0 (sm_BleedBytesIn (add_meta_bleed dir n m)) = opt0 (sm_BleedBytesIn m) + gain_in dir n"
  "opt0 (sm_BleedBytesOut (add_meta_bleed dir n m)) = opt0 (sm_BleedBytesOut m) + gain_out dir n"
  by (cases dir; simp add: gains opt0_bump)+

lemma agg_ok_emit:
  assumes "agg_ok agg" and "off \<in> dom (gget (ag_buckets agg))"
  shows "agg_ok (emit ref off dir pr em agg) \<and> ag_buckets (emit ref off dir pr em agg) = ag_buckets agg"
proof -
  define wb dist to mk where "wb = to_u64 (em_wireBytes em)" and "dist = bleed_distance ref (em_tags em)"
    and "to = tagValue (em_tags em) TagTopic" and "mk = tagValue (em_tags em) TagMessageKind"
  let ?a = "addBreakdownLocked off dir wb pr to mk dist agg"
  let ?b = "if dist > 0 then map_meta (add_meta_bleed dir wb) ?a else ?a"
  note parts = breakdown_parts [OF assms, where dir = dir and n = wb and pr = pr and to = to and mk = mk and dist = dist]
  have "agg_ok ?b"
    using parts assms by (auto simp: agg_ok_def shape_ok_def totals_ok_def bleed_ok_def sums_agree_def
        add_meta_bleed_fields bleeds_def)
  then have "agg_ok (emit ref off dir pr em agg)"
    unfolding emit_def Let_def wb_def dist_def to_def mk_def by (simp add: agg_ok_block_meta)
  moreover have "ag_buckets (emit ref off dir pr em agg) = ag_buckets agg"
    by (simp add: emit_def Let_def addBreakdownLocked_def)
  ultimately show ?thesis by blast
qed

lemma agg_ok_emits:
  "agg_ok agg \<Longrightarrow> off \<in> dom (gget (ag_buckets agg)) \<Longrightarrow>
     agg_ok (fold (emit ref off dir pr) ems agg)
     \<and> ag_buckets (fold (emit ref off dir pr) ems agg) = ag_buckets agg"
  by (induction ems arbitrary: agg) (simp_all add: agg_ok_emit)

lemma agg_ok_book_chunk:
  assumes "agg_ok agg"
  shows "agg_ok (book_chunk ref t dir n pr decoded agg)"
proof -
  let ?a = "addRawTrafficLocked t (ref_OffsetMillis ref) dir n agg" and ?o = "bucket_offset (ref_OffsetMillis ref)"
  note raw = agg_ok_raw [OF assms, where t = t and ms = "ref_OffsetMillis ref" and dir = dir and n = n]
  show ?thesis
  proof (cases decoded)
    case None
    then show ?thesis using raw by (simp add: book_chunk_def Let_def agg_ok_breakdown)
  next
    case (Some d)
    obtain ems failed where d: "d = (ems, failed)" by (cases d)
    have "agg_ok (fold (emit ref ?o dir pr) ems ?a)"
      "?o \<in> dom (gget (ag_buckets (fold (emit ref ?o dir pr) ems ?a)))"
      using agg_ok_emits [OF raw] raw(2) by simp_all
    with Some d show ?thesis by (simp add: book_chunk_def Let_def agg_ok_breakdown)
  qed
qed

section \<open>What a slot detail shows\<close>

lemma sum_list_sort_slice: "sum_list (map f (sort_slice lt xs)) = (sum_list (map f xs) :: u64)"
  by (metis mset_map mset_sort_slice sum_mset_sum_list)

lemma sum_list_filter_mset:
  "mset xs = mset ys \<Longrightarrow> sum_list (map f (filter P xs)) = (sum_list (map f (filter P ys)) :: u64)"
  by (simp flip: sum_mset_sum_list add: mset_map [symmetric] mset_filter del: mset_map) (simp add: mset_map)

lemma sum_rows_of_key:
  assumes "gm_ok m" and "\<forall>k r. gget m k = Some r \<longrightarrow> row_key r = k"
  shows "sum_list (map f (filter (\<lambda>r. row_key r = k) (gvals m))) = val f m k"
  using assms
proof (induction m)
  case (Cons x m)
  obtain j r where x: "x = (j, r)" by (cases x)
  have j: "row_key r = j" using Cons.prems(2) x by auto
  have notin: "j \<notin> gkeys m" and ok: "gm_ok m" using Cons.prems(1) x by simp_all
  have rest: "\<forall>k r. gget m k = Some r \<longrightarrow> row_key r = k"
  proof (intro allI impI)
    fix i q assume i: "gget m i = Some q"
    then have "i \<noteq> j" using notin by (metis map_of_eq_None_iff option.distinct(1))
    with i Cons.prems(2) x show "row_key q = i" by simp
  qed
  have "gget m j = None" using notin by (simp only: map_of_eq_None_iff) simp
  with Cons.IH [OF ok rest] j x show ?case by (auto simp: val_def)
qed simp

lemma sum_over_buckets:
  assumes "gm_ok pts" and "gm_ok m" and "dom (gget m) \<subseteq> dom (gget pts)"
  shows "sum_list (map (\<lambda>off. val f (getd [] m off) k) (map fst pts)) = gsum (\<lambda>bbd. val f bbd k) m"
proof -
  let ?F = "\<lambda>off. val f (getd [] m off) k"
  have "sum_list (map ?F (map fst pts)) = sum ?F (gkeys pts)"
    using assms(1) sum.distinct_set_conv_list [of "map fst pts" ?F] by (simp only: gm_ok_def set_map)
  also have "\<dots> = sum ?F (gkeys m)"
  proof (rule sum.mono_neutral_right)
    show "gkeys m \<subseteq> gkeys pts" using assms(3) by (simp add: dom_map_of_conv_image_fst)
    show "\<forall>i \<in> gkeys pts - gkeys m. ?F i = 0"
    proof
      fix i assume "i \<in> gkeys pts - gkeys m"
      then have "gget m i = None" by (simp only: map_of_eq_None_iff) simp
      then show "?F i = 0" by (simp add: getd_def)
    qed
  qed simp
  also have "\<dots> = sum_list (map ?F (map fst m))"
    using assms(2) sum.distinct_set_conv_list [of "map fst m" ?F] by (simp only: gm_ok_def set_map)
  also have "\<dots> = gsum (\<lambda>bbd. val f bbd k) m"
  proof -
    have "getd [] m (fst x) = snd x" if "x \<in> set m" for x
      using that gget_iff [OF assms(2), of "fst x" "snd x"] by (simp add: getd_def)
    then show ?thesis by (simp add: gsum_def cong: map_cong)
  qed
  finally show ?thesis .
qed

definition detail_ok :: "SlotDetail \<Rightarrow> bool" where
  "detail_ok d \<longleftrightarrow>
     sum_list (map bp_BytesIn (sd_Buckets d)) = ss_BytesIn (sd_Summary d)
     \<and> sum_list (map bp_BytesOut (sd_Buckets d)) = ss_BytesOut (sd_Summary d)
     \<and> sum_list (map bb_BleedBytesIn (sd_Breakdown d)) = opt0 (sm_BleedBytesIn (ss_Meta (sd_Summary d)))
     \<and> sum_list (map bb_BleedBytesOut (sd_Breakdown d)) = opt0 (sm_BleedBytesOut (ss_Meta (sd_Summary d)))
     \<and> (\<forall>r \<in> set (sd_Breakdown d). row_ok (row_key r) r)
     \<and> distinct (map row_key (sd_Breakdown d))
     \<and> (\<forall>r \<in> set (sd_Breakdown d). \<forall>f \<in> counters.
          sum_list (map (\<lambda>b. sum_list (map f (filter (\<lambda>r'. row_key r' = row_key r) (bp_Breakdown b))))
            (sd_Buckets d)) = f r)"

definition detail_of :: "u64 \<Rightarrow> slotAggregate \<Rightarrow> SlotDetail" where
  "detail_of currentSlot agg =
     \<lparr>sd_Summary = with_finalized currentSlot (ag_summary agg),
      sd_Buckets = map (bucket_rows agg) (sort_slice (by_key_asc bp_OffsetMs) (gvals (ag_buckets agg))),
      sd_Breakdown = sort_slice breakdown_less (gvals (ag_breakdown agg))\<rparr>"

lemma buildSlotDetail_iff:
  "buildSlotDetailLocked cur slots slot = map_option (detail_of cur) (gget slots slot)"
  by (simp add: buildSlotDetailLocked_def detail_of_def split: option.split)

lemma bucket_rows_fields [simp]:
  "bp_OffsetMs (bucket_rows agg p) = bp_OffsetMs p" "bp_BytesIn (bucket_rows agg p) = bp_BytesIn p"
  "bp_BytesOut (bucket_rows agg p) = bp_BytesOut p"
  by (simp_all add: bucket_rows_def Let_def)

lemma bucket_rows_sum:
  assumes "shape_ok agg" and "p \<in> set (gvals (ag_buckets agg))"
  shows "sum_list (map f (filter (\<lambda>r. row_key r = k) (bp_Breakdown (bucket_rows agg p))))
    = val f (getd [] (ag_bucketBreakdown agg) (bp_OffsetMs p)) k"
proof -
  let ?m = "getd [] (ag_bucketBreakdown agg) (bp_OffsetMs p)"
  have ok: "rows_ok ?m"
    by (rule rows_ok_getd) (use assms(1) in \<open>auto simp: shape_ok_def\<close>)
  obtain off where "(off, p) \<in> set (ag_buckets agg)" using assms(2) by auto
  with assms(1) have "gget (ag_buckets agg) off = Some p" by (simp add: shape_ok_def gget_iff)
  with assms(1) have "bp_Breakdown p = []" by (simp add: shape_ok_def)
  then have "mset (bp_Breakdown (bucket_rows agg p)) = mset (gvals ?m)"
    by (simp add: bucket_rows_def Let_def)
  then have "sum_list (map f (filter (\<lambda>r. row_key r = k) (bp_Breakdown (bucket_rows agg p))))
      = sum_list (map f (filter (\<lambda>r. row_key r = k) (gvals ?m)))"
    by (rule sum_list_filter_mset)
  also have "\<dots> = val f ?m k"
    by (rule sum_rows_of_key) (use ok in \<open>auto simp: rows_ok_def row_ok_def\<close>)
  finally show ?thesis .
qed

lemma breakdown_keys:
  assumes "rows_ok m"
  shows "map row_key (gvals m) = map fst m"
  using assms gget_iff [of m] by (auto simp: rows_ok_def row_ok_def)

lemma detail_ok_of:
  assumes "agg_ok agg"
  shows "detail_ok (detail_of cur agg)"
proof -
  let ?d = "detail_of cur agg" and ?pts = "gvals (ag_buckets agg)"
  have sh: "shape_ok agg" and ok: "rows_ok (ag_breakdown agg)" using assms by (simp_all add: agg_ok_def shape_ok_def)
  have "mset (map row_key (sd_Breakdown ?d)) = mset (map row_key (gvals (ag_breakdown agg)))"
    by (simp only: detail_of_def SlotDetail.simps mset_map mset_sort_slice)
  then have "mset (map row_key (sd_Breakdown ?d)) = mset (map fst (ag_breakdown agg))"
    by (simp only: breakdown_keys [OF ok])
  with ok have dk: "distinct (map row_key (sd_Breakdown ?d))"
    unfolding rows_ok_def gm_ok_def by (metis mset_eq_imp_distinct_iff)
  have rows: "row_ok (row_key r) r \<and> val f (ag_breakdown agg) (row_key r) = f r"
    if r: "r \<in> set (sd_Breakdown ?d)" for r f
  proof -
    obtain k where "(k, r) \<in> set (ag_breakdown agg)" using r by (auto simp: detail_of_def)
    with ok have "gget (ag_breakdown agg) k = Some r" "row_ok k r" by (auto simp: rows_ok_def gget_iff)
    then show ?thesis by (simp add: row_ok_def val_def)
  qed
  have buckets: "sum_list (map (\<lambda>b. sum_list (map f (filter (\<lambda>r'. row_key r' = k) (bp_Breakdown b)))) (sd_Buckets ?d))
      = val f (ag_breakdown agg) k" if "f \<in> counters" for f k
  proof -
    have "sum_list (map (\<lambda>b. sum_list (map f (filter (\<lambda>r'. row_key r' = k) (bp_Breakdown b)))) (sd_Buckets ?d))
        = sum_list (map (\<lambda>p. sum_list (map f (filter (\<lambda>r'. row_key r' = k) (bp_Breakdown (bucket_rows agg p))))) ?pts)"
      by (simp only: detail_of_def SlotDetail.simps map_map comp_def sum_list_sort_slice)
    also have "\<dots> = sum_list (map (\<lambda>p. val f (getd [] (ag_bucketBreakdown agg) (bp_OffsetMs p)) k) ?pts)"
      by (rule arg_cong [where f = sum_list], rule map_cong [OF refl], rule bucket_rows_sum [OF sh])
    also have "\<dots> = sum_list (map (\<lambda>off. val f (getd [] (ag_bucketBreakdown agg) off) k) (map fst (ag_buckets agg)))"
      using sh gget_iff [of "ag_buckets agg"] by (auto simp: shape_ok_def intro!: arg_cong [where f = sum_list])
    also have "\<dots> = gsum (\<lambda>bbd. val f bbd k) (ag_bucketBreakdown agg)"
      by (rule sum_over_buckets) (use sh in \<open>simp_all add: shape_ok_def\<close>)
    finally show ?thesis using assms that by (simp add: agg_ok_def sums_agree_def)
  qed
  have sums: "sum_list (map bp_BytesIn (sd_Buckets ?d)) = gsum bp_BytesIn (ag_buckets agg)"
    "sum_list (map bp_BytesOut (sd_Buckets ?d)) = gsum bp_BytesOut (ag_buckets agg)"
    "sum_list (map bb_BleedBytesIn (sd_Breakdown ?d)) = gsum bb_BleedBytesIn (ag_breakdown agg)"
    "sum_list (map bb_BleedBytesOut (sd_Breakdown ?d)) = gsum bb_BleedBytesOut (ag_breakdown agg)"
    by (simp_all only: detail_of_def SlotDetail.simps map_map comp_def bucket_rows_fields sum_list_sort_slice gsum_def)
  have sm: "sd_Summary ?d = with_finalized cur (ag_summary agg)" by (simp add: detail_of_def)
  have "totals_ok agg" "bleed_ok agg" using assms by (simp_all add: agg_ok_def)
  then show ?thesis
    unfolding detail_ok_def sums sm using rows buckets dk
    by (simp add: totals_ok_def bleed_ok_def with_finalized_def)
qed

text \<open>The rows of a slot are separated by the comparator, so their order is determined.\<close>

lemma breakdown_separates: "row_key a \<noteq> row_key b \<Longrightarrow> breakdown_less a b \<or> breakdown_less b a"
  by (auto simp: breakdown_less_def row_key_def)

lemma detail_order:
  assumes "agg_ok agg"
  shows "sorted_wrt (\<lambda>a b. bp_OffsetMs a < bp_OffsetMs b) (sd_Buckets (detail_of cur agg))"
    and "mset rows = mset (gvals (ag_breakdown agg)) \<Longrightarrow> sorted_wrt (\<lambda>a b. \<not> breakdown_less b a) rows \<Longrightarrow>
      rows = sd_Breakdown (detail_of cur agg)"
proof -
  let ?ps = "sort_slice (by_key_asc bp_OffsetMs) (gvals (ag_buckets agg))"
  have sh: "shape_ok agg" and ok: "rows_ok (ag_breakdown agg)" using assms by (simp_all add: agg_ok_def shape_ok_def)
  have "map bp_OffsetMs (gvals (ag_buckets agg)) = map fst (ag_buckets agg)"
    using sh gget_iff [of "ag_buckets agg"] by (auto simp: shape_ok_def)
  then have "mset (map bp_OffsetMs ?ps) = mset (map fst (ag_buckets agg))"
    by (simp only: mset_map mset_sort_slice) (simp only: mset_map [symmetric])
  with sh have "distinct (map bp_OffsetMs ?ps)"
    unfolding shape_ok_def gm_ok_def by (metis mset_eq_imp_distinct_iff)
  moreover have "sorted (map bp_OffsetMs ?ps)"
    using key_asc.ordered_sort_slice [of bp_OffsetMs "gvals (ag_buckets agg)"]
    by (simp add: by_key_asc_def sorted_map not_less)
  ultimately have "sorted_wrt (<) (map bp_OffsetMs ?ps)" by (simp add: strict_sorted_iff)
  then show "sorted_wrt (\<lambda>a b. bp_OffsetMs a < bp_OffsetMs b) (sd_Buckets (detail_of cur agg))"
    by (simp add: detail_of_def sorted_wrt_map)
  assume rows: "mset rows = mset (gvals (ag_breakdown agg))" "sorted_wrt (\<lambda>a b. \<not> breakdown_less b a) rows"
  have "inj_on row_key (set (gvals (ag_breakdown agg)))"
    using breakdown_keys [OF ok] ok unfolding rows_ok_def gm_ok_def by (metis distinct_map)
  then have "\<forall>a \<in> set (gvals (ag_breakdown agg)). \<forall>b \<in> set (gvals (ag_breakdown agg)).
      a \<noteq> b \<longrightarrow> breakdown_less a b \<or> breakdown_less b a"
    using breakdown_separates by (meson inj_onD)
  from breakdown.sort_unique [OF rows this] show "rows = sd_Breakdown (detail_of cur agg)"
    by (simp add: detail_of_def)
qed



section \<open>Bleed\<close>

interpretation dist_class: counter "\<lambda>r. val bd_BytesIn (bb_BleedByDistance r) c" "new_row key" "add_row dir n dist"
  "if 0 < dist \<and> c = dist_key dist then gain_in dir n else 0" for c key dir n dist
  by unfold_locales (simp_all add: new_row_def add_row_def add_distance_def Let_def entry_in.val_book)

text \<open>
  C28: a message of an earlier slot is booked as bleed of the right distance: when a message whose
  slot tag names the slot \<open>n\<close> slots before the current one arrives, its bytes are added to the received
  bytes and to the bleed of its row, to the class \<open>n\<close> (or \<open>4+\<close>) of that row and of no other class,
  and to the slot's bleed, its row counts one more message, and no other row changes.
\<close>

theorem emit_books_bleed:
  assumes "ParseUint (tagValue (em_tags em) TagDecodedSlot) = (ref_Slot ref - of_nat n, None)"
    and "tagValue (em_tags em) TagDecodedSlot \<noteq> []"
    and "0 < n" and "n < 2 ^ 63" and "of_nat n \<le> ref_Slot ref"
    and "key = \<lparr>k_protocol = pr, k_topic = tagValue (em_tags em) TagTopic, k_messageKind = tagValue (em_tags em) TagMessageKind\<rparr>"
    and "agg' = emit ref off DIRECTION_IN pr em agg" and "wb = to_u64 (em_wireBytes em)"
  shows "val bb_BytesIn (ag_breakdown agg') key = val bb_BytesIn (ag_breakdown agg) key + wb
    \<and> val bb_BleedBytesIn (ag_breakdown agg') key = val bb_BleedBytesIn (ag_breakdown agg) key + wb
    \<and> val bb_MsgCount (ag_breakdown agg') key = val bb_MsgCount (ag_breakdown agg) key + 1
    \<and> opt0 (sm_BleedBytesIn (ss_Meta (ag_summary agg'))) = opt0 (sm_BleedBytesIn (ss_Meta (ag_summary agg))) + wb
    \<and> (\<forall>c. val (\<lambda>r. val bd_BytesIn (bb_BleedByDistance r) c) (ag_breakdown agg') key
          = val (\<lambda>r. val bd_BytesIn (bb_BleedByDistance r) c) (ag_breakdown agg) key
            + (if c = (if n \<ge> 4 then ''4+'' else Itoa (int n)) then wb else 0))
    \<and> (\<forall>k. k \<noteq> key \<longrightarrow> gget (ag_breakdown agg') k = gget (ag_breakdown agg) k)"
proof -
  have un: "unat (of_nat n :: u64) = n" using assms(4) by (simp add: unat_of_nat)
  have lt: "ref_Slot ref - of_nat n < ref_Slot ref"
    using assms(3,5) un by (simp add: word_less_nat_alt unat_sub word_le_nat_alt)
  have "uint (of_nat n :: u64) = int n" by (simp only: uint_nat un)
  then have dist: "bleed_distance ref (em_tags em) = int n"
    using assms(1,2,4) lt by (simp add: bleed_distance_def to_i64_small)
  let ?row = "add_row DIRECTION_IN wb (int n) (getd (new_row key) (ag_breakdown agg) key)"
  have bd: "ag_breakdown agg' = gput key ?row (ag_breakdown agg)"
    using assms(3,6-8) dist by (simp add: emit_def Let_def addBreakdownLocked_def)
  have meta: "opt0 (sm_BleedBytesIn (ss_Meta (ag_summary agg'))) = opt0 (sm_BleedBytesIn (ss_Meta (ag_summary agg))) + wb"
    using assms(3,7,8) dist
    by (simp add: emit_def Let_def map_meta_def set_block_meta_def opt0_bump addBreakdownLocked_def)
  show ?thesis
    unfolding bd meta row_in.val_book row_bleed_in.val_book row_count.val_book dist_class.val_book
    using assms(3) by (simp add: gains dist_key_def)
qed

definition bleed_ref :: SlotRef where
  "bleed_ref = \<lparr>ref_Slot = 7, ref_Epoch = 0, ref_SlotStart = 84, ref_SlotEnd = 96, ref_Offset = 0, ref_OffsetMillis = 0\<rparr>"

definition bleed_emission :: emission where
  "bleed_emission = \<lparr>em_wireBytes = 40, em_tags = tagsFromMap [(TagMessageKind, [''PUBLISH'']), (TagTopic, [''beacon_block'']),
     (TagDecodedSlot, [FormatUint 5])]\<rparr>"

definition bleed_key :: slotKey where
  "bleed_key = \<lparr>k_protocol = ''p'', k_topic = ''beacon_block'', k_messageKind = ''PUBLISH''\<rparr>"

theorem emit_books_bleed_witness:
  "val bb_BytesIn (ag_breakdown (emit bleed_ref 0 DIRECTION_IN ''p'' bleed_emission (new_aggregate bleed_ref))) bleed_key = 40
   \<and> val (\<lambda>r. val bd_BytesIn (bb_BleedByDistance r) (Itoa 2))
       (ag_breakdown (emit bleed_ref 0 DIRECTION_IN ''p'' bleed_emission (new_aggregate bleed_ref))) bleed_key = 40
   \<and> opt0 (sm_BleedBytesIn (ss_Meta (ag_summary (emit bleed_ref 0 DIRECTION_IN ''p'' bleed_emission (new_aggregate bleed_ref))))) = 40"
proof -
  have tv: "tagValue (em_tags bleed_emission) TagDecodedSlot = FormatUint 5"
    "tagValue (em_tags bleed_emission) TagTopic = ''beacon_block''" "tagValue (em_tags bleed_emission) TagMessageKind = ''PUBLISH''"
    by (simp_all add: bleed_emission_def tagsFromMap_def tag_names)
  have "FormatUint 5 \<noteq> []" using ParseUint_FormatUint [of 5] by (auto simp: ParseUint_def)
  with tv emit_books_bleed [of bleed_emission bleed_ref 2 bleed_key "''p''" _ 0 "new_aggregate bleed_ref" 40]
  show ?thesis
    by (simp add: bleed_ref_def bleed_key_def bleed_emission_def to_u64_def new_aggregate_def no_meta_def opt0_def)
qed

end
