(* ===== verification/Peers.thy ===== *)
theory Peers
  imports Messages
begin

text \<open>
  \<open>internal/processor/peers.go\<close>: the map of connected peers of one source, keyed by the
  aliases the probe assigns.  The map is refined to a specification that knows only
  the open connections and the peers that are known.  \<open>peer.ID(..).String()\<close> of go-libp2p is the
  parameter \<open>idString\<close>.
\<close>

section \<open>State and operations\<close>

record ConnState =
  cst_Api :: ApiConnState
  cst_PeerAlias :: u64

record PeerState =
  pst_PeerID :: bytes
  pst_Connections :: "(u64, ConnState) gomap"
  pst_FirstSeenNs :: int
  pst_LastSeenNs :: int

record PeerMap =
  pmap_peers :: "(u64, PeerState) gomap"
  pmap_conns :: "(u64, u64) gomap"

definition NewPeerMap :: PeerMap where
  "NewPeerMap = \<lparr>pmap_peers = [], pmap_conns = []\<rparr>"

definition UpsertPeer :: "u64 \<Rightarrow> bytes \<Rightarrow> PeerMap \<Rightarrow> PeerMap" where
  "UpsertPeer alias peerID m =
     (let ps = (case gget (pmap_peers m) alias of
          None \<Rightarrow> \<lparr>pst_PeerID = peerID, pst_Connections = [], pst_FirstSeenNs = 0, pst_LastSeenNs = 0\<rparr>
        | Some ps \<Rightarrow> ps)
      in m\<lparr>pmap_peers := gput alias (ps\<lparr>pst_PeerID := peerID\<rparr>) (pmap_peers m)\<rparr>)"

definition touch :: "int \<Rightarrow> PeerState \<Rightarrow> PeerState" where
  "touch now ps =
     (let ps = (if pst_FirstSeenNs ps = 0 \<or> now < pst_FirstSeenNs ps then ps\<lparr>pst_FirstSeenNs := now\<rparr> else ps)
      in if now > pst_LastSeenNs ps then ps\<lparr>pst_LastSeenNs := now\<rparr> else ps)"

definition UpsertConnection :: "u64 \<Rightarrow> ConnState \<Rightarrow> PeerMap \<Rightarrow> PeerMap" where
  "UpsertConnection connAlias cs m =
     (let peerAlias = cst_PeerAlias cs in
      case gget (pmap_peers m) peerAlias of
        None \<Rightarrow> m
      | Some ps \<Rightarrow>
          let ps = ps\<lparr>pst_Connections := gput connAlias cs (pst_Connections ps)\<rparr>;
              ps = touch (cs_OpenedAtNs (cst_Api cs)) ps
          in \<lparr>pmap_peers = gput peerAlias ps (pmap_peers m),
              pmap_conns = gput connAlias peerAlias (pmap_conns m)\<rparr>)"

definition CloseConnection :: "u64 \<Rightarrow> PeerMap \<Rightarrow> PeerMap" where
  "CloseConnection connAlias m =
     (case gget (pmap_conns m) connAlias of
        None \<Rightarrow> m
      | Some peerAlias \<Rightarrow>
          let m = m\<lparr>pmap_conns := gdel connAlias (pmap_conns m)\<rparr> in
          case gget (pmap_peers m) peerAlias of
            None \<Rightarrow> m
          | Some ps \<Rightarrow>
              let ps = ps\<lparr>pst_Connections := gdel connAlias (pst_Connections ps)\<rparr> in
              if pst_Connections ps = []
              then m\<lparr>pmap_peers := gdel peerAlias (pmap_peers m)\<rparr>
              else m\<lparr>pmap_peers := gput peerAlias ps (pmap_peers m)\<rparr>)"

definition peer_summary :: "(bytes \<Rightarrow> string) \<Rightarrow> PeerState \<Rightarrow> PeerSummary" where
  "peer_summary idString ps =
     \<lparr>ps_PeerID = idString (pst_PeerID ps),
      ps_Connections = map cst_Api (gvals (pst_Connections ps)),
      ps_FirstSeenNs = pst_FirstSeenNs ps,
      ps_LastSeenNs = pst_LastSeenNs ps\<rparr>"

definition ListPeers :: "(bytes \<Rightarrow> string) \<Rightarrow> PeerMap \<Rightarrow> PeerSummary list" where
  "ListPeers idString m =
     map (peer_summary idString) (filter (\<lambda>ps. pst_Connections ps \<noteq> []) (gvals (pmap_peers m)))"

definition Count :: "PeerMap \<Rightarrow> int" where
  "Count m = foldl (\<lambda>n ps. if pst_Connections ps \<noteq> [] then n + 1 else n) 0 (gvals (pmap_peers m))"

definition Clear :: "PeerMap \<Rightarrow> PeerMap" where
  "Clear m = m\<lparr>pmap_peers := [], pmap_conns := []\<rparr>"

section \<open>Invariant\<close>

text \<open>The connections of a peer, and the connection that an alias names.\<close>

definition conns_of :: "PeerMap \<Rightarrow> u64 \<Rightarrow> (u64, ConnState) gomap" where
  "conns_of m p = (case gget (pmap_peers m) p of None \<Rightarrow> [] | Some ps \<Rightarrow> pst_Connections ps)"

definition open_conn :: "PeerMap \<Rightarrow> u64 \<Rightarrow> ConnState option" where
  "open_conn m c = (case gget (pmap_conns m) c of None \<Rightarrow> None | Some p \<Rightarrow> gget (conns_of m p) c)"

definition known :: "PeerMap \<Rightarrow> u64 set" where
  "known m = dom (gget (pmap_peers m))"

text \<open>
  The two maps agree: an alias is open exactly where its owner lists it, and the owner is the
  peer recorded in the connection.
\<close>

definition peers_ok :: "PeerMap \<Rightarrow> bool" where
  "peers_ok m \<longleftrightarrow> gm_ok (pmap_peers m) \<and> gm_ok (pmap_conns m)
     \<and> (\<forall>p. gm_ok (conns_of m p))
     \<and> (\<forall>c p. gget (pmap_conns m) c = Some p \<longleftrightarrow> gget (conns_of m p) c \<noteq> None)
     \<and> (\<forall>c p cs. gget (conns_of m p) c = Some cs \<longrightarrow> cst_PeerAlias cs = p)"

lemma peers_okD:
  assumes "peers_ok m"
  shows "gm_ok (pmap_peers m)" "gm_ok (pmap_conns m)" "gm_ok (conns_of m p)"
    "gget (pmap_conns m) c = Some p \<longleftrightarrow> gget (conns_of m p) c \<noteq> None"
    "gget (conns_of m p) c = Some cs \<Longrightarrow> cst_PeerAlias cs = p"
  using assms by (auto simp: peers_ok_def)

lemma peers_ok_New [simp]: "peers_ok NewPeerMap"
  by (simp add: peers_ok_def NewPeerMap_def conns_of_def)

lemma touch_Connections [simp]: "pst_Connections (touch now ps) = pst_Connections ps"
  by (simp add: touch_def Let_def)

lemma conns_of_UpsertPeer [simp]: "conns_of (UpsertPeer a ident m) = conns_of m"
  by (auto simp: conns_of_def UpsertPeer_def Let_def fun_eq_iff split: option.splits)

lemma pmap_conns_UpsertPeer [simp]: "pmap_conns (UpsertPeer a ident m) = pmap_conns m"
  by (simp add: UpsertPeer_def Let_def)

lemma peers_ok_UpsertPeer: "peers_ok m \<Longrightarrow> peers_ok (UpsertPeer a ident m)"
  by (simp add: peers_ok_def) (simp add: UpsertPeer_def Let_def)

lemma UpsertConnection_absent:
  "cst_PeerAlias cs \<notin> known m \<Longrightarrow> UpsertConnection c cs m = m"
  by (simp add: UpsertConnection_def known_def Let_def domIff)

lemma conns_of_UpsertConnection:
  "cst_PeerAlias cs \<in> known m \<Longrightarrow> conns_of (UpsertConnection c cs m)
     = (conns_of m)(cst_PeerAlias cs := gput c cs (conns_of m (cst_PeerAlias cs)))"
  by (auto simp: conns_of_def UpsertConnection_def known_def Let_def fun_eq_iff)

lemma conns_UpsertConnection:
  "cst_PeerAlias cs \<in> known m \<Longrightarrow> pmap_conns (UpsertConnection c cs m) = gput c (cst_PeerAlias cs) (pmap_conns m)"
  by (auto simp: UpsertConnection_def known_def Let_def)

text \<open>A connection alias stays with one peer for as long as it is open.\<close>

definition same_owner :: "PeerMap \<Rightarrow> u64 \<Rightarrow> ConnState \<Rightarrow> bool" where
  "same_owner m c cs \<longleftrightarrow> (case open_conn m c of None \<Rightarrow> True | Some old \<Rightarrow> cst_PeerAlias old = cst_PeerAlias cs)"

lemma peers_ok_UpsertConnection:
  assumes ok: "peers_ok m" and own: "same_owner m c cs"
  shows "peers_ok (UpsertConnection c cs m)"
proof (cases "cst_PeerAlias cs \<in> known m")
  case False
  with ok show ?thesis by (simp add: UpsertConnection_absent)
next
  case True
  have one: "gget (conns_of m p) c = None" if "p \<noteq> cst_PeerAlias cs" for p
  proof (rule ccontr)
    assume "gget (conns_of m p) c \<noteq> None"
    then have "gget (pmap_conns m) c = Some p" by (simp add: peers_okD(4) [OF ok])
    moreover from \<open>gget (conns_of m p) c \<noteq> None\<close> obtain old where
      "gget (conns_of m p) c = Some old" by auto
    moreover from this have "cst_PeerAlias old = p" by (rule peers_okD(5) [OF ok])
    ultimately show False using own that by (simp add: same_owner_def open_conn_def)
  qed
  have "gm_ok (pmap_peers (UpsertConnection c cs m))"
    using peers_okD(1) [OF ok] by (simp add: UpsertConnection_def Let_def split: option.split)
  with ok one show ?thesis
    unfolding peers_ok_def conns_of_UpsertConnection [OF True] conns_UpsertConnection [OF True]
    by (auto split: if_splits)
qed

lemma conns_of_CloseConnection:
  assumes "peers_ok m"
  shows "conns_of (CloseConnection c m) = (\<lambda>p. gdel c (conns_of m p))"
proof (cases "gget (pmap_conns m) c")
  case None
  then have "gget (conns_of m p) c = None" for p
    using peers_okD(4) [OF assms, of c p] by simp
  then have "c \<notin> gkeys (conns_of m p)" for p by (simp only: map_of_eq_None_iff) simp
  with None show ?thesis by (simp add: CloseConnection_def fun_eq_iff gdel_absent)
next
  case (Some p)
  then obtain ps where ps: "gget (pmap_peers m) p = Some ps"
    using peers_okD(4) [OF assms, of c p] by (auto simp: conns_of_def split: option.splits)
  have "gget (conns_of m q) c = None" if "q \<noteq> p" for q
    using peers_okD(4) [OF assms, of c q] Some that by simp
  then have "c \<notin> gkeys (conns_of m q)" if "q \<noteq> p" for q
    using that by (simp only: map_of_eq_None_iff) simp
  with ps show ?thesis
    by (auto simp: CloseConnection_def Some Let_def fun_eq_iff conns_of_def gdel_absent)
qed

lemma conns_CloseConnection: "pmap_conns (CloseConnection c m) = gdel c (pmap_conns m)"
proof (cases "gget (pmap_conns m) c")
  case None
  then have "c \<notin> gkeys (pmap_conns m)" by (simp only: map_of_eq_None_iff) simp
  with None show ?thesis by (simp add: CloseConnection_def gdel_absent)
next
  case (Some p)
  then show ?thesis by (simp add: CloseConnection_def Let_def split: option.split)
qed

lemma peers_ok_CloseConnection: "peers_ok m \<Longrightarrow> peers_ok (CloseConnection c m)"
proof -
  assume ok: "peers_ok m"
  have "gm_ok (pmap_peers (CloseConnection c m))"
    using peers_okD(1) [OF ok] by (simp add: CloseConnection_def Let_def split: option.split)
  with ok show ?thesis
    unfolding peers_ok_def conns_of_CloseConnection [OF ok] conns_CloseConnection
    by (auto split: if_splits)
qed

section \<open>Specification\<close>

text \<open>
  What the processor relies on: a table of open connections, and the peers it knows.  A
  connection of an unknown peer is ignored; a peer whose last connection closes is forgotten.
\<close>

datatype peer_op = OpPeer u64 bytes | OpConn u64 ConnState | OpClose u64

type_synonym peer_spec = "u64 set \<times> (u64 \<rightharpoonup> ConnState)"

fun spec_step :: "peer_op \<Rightarrow> peer_spec \<Rightarrow> peer_spec" where
  "spec_step (OpPeer p ident) (K, Q) = (insert p K, Q)"
| "spec_step (OpConn c cs) (K, Q) = (if cst_PeerAlias cs \<in> K then (K, Q(c \<mapsto> cs)) else (K, Q))"
| "spec_step (OpClose c) (K, Q) =
     (case Q c of None \<Rightarrow> (K, Q)
      | Some cs \<Rightarrow> (if cst_PeerAlias cs \<in> cst_PeerAlias ` ran (Q(c := None)) then K else K - {cst_PeerAlias cs},
                  Q(c := None)))"

fun op_ok :: "peer_op \<Rightarrow> peer_spec \<Rightarrow> bool" where
  "op_ok (OpConn c cs) (K, Q) = (case Q c of None \<Rightarrow> True | Some old \<Rightarrow> cst_PeerAlias old = cst_PeerAlias cs)"
| "op_ok _ _ = True"

fun ops_ok :: "peer_op list \<Rightarrow> peer_spec \<Rightarrow> bool" where
  "ops_ok [] s = True"
| "ops_ok (x # xs) s = (op_ok x s \<and> ops_ok xs (spec_step x s))"

locale connection_table =
  fixes fresh :: 'm
    and add_peer :: "u64 \<Rightarrow> bytes \<Rightarrow> 'm \<Rightarrow> 'm"
    and add_conn :: "u64 \<Rightarrow> ConnState \<Rightarrow> 'm \<Rightarrow> 'm"
    and drop_conn :: "u64 \<Rightarrow> 'm \<Rightarrow> 'm"
    and view :: "'m \<Rightarrow> peer_spec"
    and invar :: "'m \<Rightarrow> bool"
  assumes fresh_ok: "invar fresh" "view fresh = ({}, Map.empty)"
    and add_peer_ok: "invar m \<Longrightarrow> invar (add_peer p ident m)"
      "invar m \<Longrightarrow> view (add_peer p ident m) = spec_step (OpPeer p ident) (view m)"
    and add_conn_ok: "invar m \<Longrightarrow> op_ok (OpConn c cs) (view m) \<Longrightarrow> invar (add_conn c cs m)"
      "invar m \<Longrightarrow> op_ok (OpConn c cs) (view m) \<Longrightarrow> view (add_conn c cs m) = spec_step (OpConn c cs) (view m)"
    and drop_conn_ok: "invar m \<Longrightarrow> invar (drop_conn c m)"
      "invar m \<Longrightarrow> view (drop_conn c m) = spec_step (OpClose c) (view m)"
begin

fun exec :: "peer_op \<Rightarrow> 'm \<Rightarrow> 'm" where
  "exec (OpPeer p ident) m = add_peer p ident m"
| "exec (OpConn c cs) m = add_conn c cs m"
| "exec (OpClose c) m = drop_conn c m"

lemma exec_step: "invar m \<Longrightarrow> op_ok x (view m) \<Longrightarrow> invar (exec x m) \<and> view (exec x m) = spec_step x (view m)"
  by (cases x) (simp_all only: exec.simps add_peer_ok add_conn_ok drop_conn_ok simp_thms)

lemma exec_run:
  "invar m \<Longrightarrow> ops_ok xs (view m) \<Longrightarrow> invar (fold exec xs m) \<and> view (fold exec xs m) = fold spec_step xs (view m)"
proof (induction xs arbitrary: m)
  case (Cons x xs)
  then show ?case using exec_step [of m x] by simp
qed simp

lemma exec_fresh:
  "ops_ok xs ({}, Map.empty) \<Longrightarrow>
     invar (fold exec xs fresh) \<and> view (fold exec xs fresh) = fold spec_step xs ({}, Map.empty)"
  using exec_run [of fresh xs] by (simp add: fresh_ok)

end

definition peer_view :: "PeerMap \<Rightarrow> peer_spec" where
  "peer_view m = (known m, open_conn m)"

lemma open_conn_iff: "peers_ok m \<Longrightarrow> open_conn m c = Some cs \<longleftrightarrow> gget (conns_of m (cst_PeerAlias cs)) c = Some cs"
proof
  assume ok: "peers_ok m" and "open_conn m c = Some cs"
  then obtain p where "gget (conns_of m p) c = Some cs" by (auto simp: open_conn_def split: option.splits)
  with peers_okD(5) [OF ok this] show "gget (conns_of m (cst_PeerAlias cs)) c = Some cs" by simp
next
  assume ok: "peers_ok m" and c: "gget (conns_of m (cst_PeerAlias cs)) c = Some cs"
  then have "gget (pmap_conns m) c = Some (cst_PeerAlias cs)" by (simp add: peers_okD(4))
  with c show "open_conn m c = Some cs" by (simp add: open_conn_def)
qed

lemma open_conn_UpsertPeer: "open_conn (UpsertPeer a ident m) = open_conn m"
  by (rule ext) (simp add: open_conn_def split: option.split)

lemma open_conn_UpsertConnection:
  "peers_ok m \<Longrightarrow> same_owner m c cs \<Longrightarrow> cst_PeerAlias cs \<in> known m \<Longrightarrow>
     open_conn (UpsertConnection c cs m) = (open_conn m)(c \<mapsto> cs)"
  by (rule ext) (auto simp: open_conn_def conns_of_UpsertConnection conns_UpsertConnection split: option.split)

lemma open_conn_CloseConnection: "peers_ok m \<Longrightarrow> open_conn (CloseConnection c m) = (open_conn m)(c := None)"
  by (rule ext) (auto simp: open_conn_def conns_of_CloseConnection conns_CloseConnection split: option.split)

lemma conns_of_empty_iff:
  assumes "peers_ok m"
  shows "conns_of m p \<noteq> [] \<longleftrightarrow> p \<in> cst_PeerAlias ` ran (open_conn m)"
proof
  assume "conns_of m p \<noteq> []"
  then obtain c cs rest where "conns_of m p = (c, cs) # rest" by (cases "conns_of m p") auto
  then have c: "gget (conns_of m p) c = Some cs" by simp
  with peers_okD(5) [OF assms c] have "open_conn m c = Some cs" by (simp add: open_conn_iff [OF assms])
  then show "p \<in> cst_PeerAlias ` ran (open_conn m)" using peers_okD(5) [OF assms c] by (auto simp: ran_def)
next
  assume "p \<in> cst_PeerAlias ` ran (open_conn m)"
  then obtain c cs where "open_conn m c = Some cs" "p = cst_PeerAlias cs" by (auto simp: ran_def)
  then show "conns_of m p \<noteq> []" by (auto simp: open_conn_iff [OF assms])
qed

lemma known_CloseConnection:
  assumes "peers_ok m" and "open_conn m c = Some cs"
  shows "known (CloseConnection c m) =
    (if gdel c (conns_of m (cst_PeerAlias cs)) = [] then known m - {cst_PeerAlias cs} else known m)"
proof -
  from assms have c: "gget (conns_of m (cst_PeerAlias cs)) c = Some cs" by (simp add: open_conn_iff)
  with assms(1) have p: "gget (pmap_conns m) c = Some (cst_PeerAlias cs)" by (simp add: peers_okD(4))
  from c obtain ps where ps: "gget (pmap_peers m) (cst_PeerAlias cs) = Some ps"
    by (auto simp: conns_of_def split: option.splits)
  then show ?thesis by (auto simp: CloseConnection_def known_def p Let_def conns_of_def split: if_splits)
qed

interpretation table: connection_table NewPeerMap UpsertPeer UpsertConnection CloseConnection peer_view peers_ok
proof
  show "peer_view NewPeerMap = ({}, Map.empty)"
    by (simp add: peer_view_def NewPeerMap_def known_def open_conn_def fun_eq_iff)
next
  fix m p ident
  show "peer_view (UpsertPeer p ident m) = spec_step (OpPeer p ident) (peer_view m)"
    by (simp add: peer_view_def open_conn_UpsertPeer) (auto simp: UpsertPeer_def known_def Let_def split: if_splits)
next
  fix m c cs
  assume ok: "peers_ok m" and op: "op_ok (OpConn c cs) (peer_view m)"
  then have own: "same_owner m c cs" by (simp add: peer_view_def same_owner_def)
  show "peers_ok (UpsertConnection c cs m)" by (rule peers_ok_UpsertConnection [OF ok own])
  show "peer_view (UpsertConnection c cs m) = spec_step (OpConn c cs) (peer_view m)"
  proof (cases "cst_PeerAlias cs \<in> known m")
    case True
    then have "known (UpsertConnection c cs m) = known m"
      by (auto simp: UpsertConnection_def known_def Let_def split: if_splits)
    with True show ?thesis by (simp add: peer_view_def open_conn_UpsertConnection [OF ok own])
  qed (simp add: peer_view_def UpsertConnection_absent)
next
  fix m c
  assume ok: "peers_ok m"
  show "peer_view (CloseConnection c m) = spec_step (OpClose c) (peer_view m)"
  proof (cases "open_conn m c")
    case None
    then have "gget (pmap_conns m) c = None"
      using peers_okD(4) [OF ok, of c "the (gget (pmap_conns m) c)"]
      by (cases "gget (pmap_conns m) c") (simp_all add: open_conn_def)
    with None show ?thesis by (simp add: peer_view_def CloseConnection_def)
  next
    case (Some cs)
    let ?p = "cst_PeerAlias cs" and ?m = "CloseConnection c m"
    have "gdel c (conns_of m ?p) = [] \<longleftrightarrow> ?p \<notin> cst_PeerAlias ` ran ((open_conn m)(c := None))"
      using conns_of_empty_iff [OF peers_ok_CloseConnection [OF ok], of c ?p]
      by (auto simp: conns_of_CloseConnection [OF ok] open_conn_CloseConnection [OF ok])
    with Some show ?thesis
      by (simp add: peer_view_def known_CloseConnection [OF ok Some] open_conn_CloseConnection [OF ok])
  qed
qed (simp_all add: peers_ok_UpsertPeer peers_ok_CloseConnection)

section \<open>Reading the table\<close>

text \<open>All connections of all peers as one map: each alias occurs once.\<close>

definition all_conns :: "PeerMap \<Rightarrow> (u64, ConnState) gomap" where
  "all_conns m = concat (map pst_Connections (gvals (pmap_peers m)))"

lemma in_all_conns:
  assumes "peers_ok m"
  shows "(c, cs) \<in> set (all_conns m) \<longleftrightarrow> open_conn m c = Some cs"
proof -
  have "(c, cs) \<in> set (all_conns m) \<longleftrightarrow> (\<exists>p. (c, cs) \<in> set (conns_of m p))"
  proof -
    have "(c, cs) \<in> set (all_conns m) \<longleftrightarrow>
        (\<exists>p ps. (p, ps) \<in> set (pmap_peers m) \<and> (c, cs) \<in> set (pst_Connections ps))"
      by (simp add: all_conns_def) force
    also have "\<dots> \<longleftrightarrow> (\<exists>p. (c, cs) \<in> set (conns_of m p))"
      unfolding gget_iff [OF peers_okD(1) [OF assms]] by (auto simp: conns_of_def eq_commute [of "Some _"] split: option.splits)
    finally show ?thesis .
  qed
  also have "\<dots> \<longleftrightarrow> (\<exists>p. gget (conns_of m p) c = Some cs)"
    using gget_iff [OF peers_okD(3) [OF assms]] by blast
  also have "\<dots> \<longleftrightarrow> open_conn m c = Some cs"
    using open_conn_iff [OF assms] peers_okD(5) [OF assms] by metis
  finally show ?thesis .
qed

lemma gm_ok_concat:
  "(\<And>p ps. (p, ps) \<in> set peers \<Longrightarrow> gm_ok (g ps)) \<Longrightarrow> gm_ok peers \<Longrightarrow>
   (\<And>p q ps qs c. (p, ps) \<in> set peers \<Longrightarrow> (q, qs) \<in> set peers \<Longrightarrow> c \<in> gkeys (g ps) \<Longrightarrow> c \<in> gkeys (g qs) \<Longrightarrow> p = q) \<Longrightarrow>
   gm_ok (concat (map g (gvals peers)))"
proof (induction peers)
  case (Cons x xs)
  obtain p ps where x: "x = (p, ps)" by (cases x)
  have "gm_ok (concat (map g (gvals xs)))"
    using Cons.prems x by (intro Cons.IH) (auto intro: Cons.prems)
  moreover have "gkeys (g ps) \<inter> gkeys (concat (map g (gvals xs))) = {}"
  proof (rule ccontr)
    assume "gkeys (g ps) \<inter> gkeys (concat (map g (gvals xs))) \<noteq> {}"
    then obtain c where c: "c \<in> gkeys (g ps)" "c \<in> gkeys (concat (map g (gvals xs)))" by blast
    from c(2) obtain kv where "kv \<in> set xs" "c \<in> gkeys (g (snd kv))" by auto
    with c(1) obtain q qs where "c \<in> gkeys (g ps)" "(q, qs) \<in> set xs" "c \<in> gkeys (g qs)" by (cases kv) simp
    moreover from this x Cons.prems(2) have "q \<noteq> p" by force
    ultimately show False using Cons.prems(3) [of p ps q qs c] x by simp
  qed
  ultimately show ?case using Cons.prems(1) [of p ps] x by (simp add: gm_ok_def)
qed simp

lemma all_conns_ok:
  assumes "peers_ok m"
  shows "gm_ok (all_conns m)" and "gget (all_conns m) = open_conn m"
proof -
  have conns: "conns_of m p = pst_Connections ps" if "(p, ps) \<in> set (pmap_peers m)" for p ps
    using that gget_iff [OF peers_okD(1) [OF assms]] by (simp add: conns_of_def)
  have own: "gget (pmap_conns m) c = Some p"
    if "(p, ps) \<in> set (pmap_peers m)" "c \<in> gkeys (pst_Connections ps)" for p ps c
    using that conns [OF that(1)] peers_okD(4) [OF assms, of c p] by (metis map_of_eq_None_iff)
  show ok: "gm_ok (all_conns m)"
    unfolding all_conns_def
  proof (rule gm_ok_concat)
    show "gm_ok (pmap_peers m)" by (rule peers_okD(1) [OF assms])
  next
    fix p ps assume "(p, ps) \<in> set (pmap_peers m)"
    from conns [OF this] peers_okD(3) [OF assms, of p] show "gm_ok (pst_Connections ps)" by simp
  next
    fix p q ps qs c
    assume "(p, ps) \<in> set (pmap_peers m)" "c \<in> gkeys (pst_Connections ps)"
      "(q, qs) \<in> set (pmap_peers m)" "c \<in> gkeys (pst_Connections qs)"
    then show "p = q" using own [of p ps c] own [of q qs c] by simp
  qed
  show "gget (all_conns m) = open_conn m"
    using in_all_conns [OF assms] gget_iff [OF ok] by (metis option.exhaust ext)
qed

lemma ListPeers_conns: "concat (map ps_Connections (ListPeers idString m)) = map cst_Api (gvals (all_conns m))"
proof -
  have "concat (map (\<lambda>ps. map cst_Api (gvals (pst_Connections ps))) (filter (\<lambda>ps. pst_Connections ps \<noteq> []) xs))
      = map cst_Api (gvals (concat (map pst_Connections xs)))" for xs
    by (induction xs) auto
  moreover have "map ps_Connections (map (peer_summary idString) xs)
      = map (\<lambda>ps. map cst_Api (gvals (pst_Connections ps))) xs" for xs
    by (simp add: peer_summary_def)
  ultimately show ?thesis by (simp only: ListPeers_def all_conns_def)
qed

lemma Count_ListPeers: "Count m = int (length (ListPeers idString m))"
proof -
  have "foldl (\<lambda>n ps. if pst_Connections ps \<noteq> [] then n + 1 else n) k xs
      = k + int (length (filter (\<lambda>ps. pst_Connections ps \<noteq> []) xs))" for xs and k :: int
    by (induction xs arbitrary: k) simp_all
  from this [of 0 "gvals (pmap_peers m)"] show ?thesis by (simp only: Count_def ListPeers_def length_map add_0)
qed

lemma Count_card:
  assumes "peers_ok m"
  shows "Count m = int (card (cst_PeerAlias ` ran (open_conn m)))"
proof -
  let ?conn = "filter (\<lambda>kv. pst_Connections (snd kv) \<noteq> []) (pmap_peers m)"
  have ok: "gm_ok (pmap_peers m)" by (rule peers_okD(1) [OF assms])
  then have "distinct (map fst ?conn)" by (simp add: gm_ok_def distinct_map_filter)
  from distinct_card [OF this] have "length ?conn = card (fst ` set ?conn)" by (simp only: length_map set_map)
  also have "fst ` set ?conn = {p. conns_of m p \<noteq> []}"
  proof (rule set_eqI)
    fix p
    have "p \<in> fst ` set ?conn \<longleftrightarrow> (\<exists>ps. (p, ps) \<in> set (pmap_peers m) \<and> pst_Connections ps \<noteq> [])" by force
    also have "\<dots> \<longleftrightarrow> p \<in> {p. conns_of m p \<noteq> []}"
      unfolding gget_iff [OF ok] by (simp add: conns_of_def split: option.split)
    finally show "p \<in> fst ` set ?conn \<longleftrightarrow> p \<in> {p. conns_of m p \<noteq> []}" .
  qed
  also have "\<dots> = cst_PeerAlias ` ran (open_conn m)" using conns_of_empty_iff [OF assms] by blast
  finally have "int (length ?conn) = int (card (cst_PeerAlias ` ran (open_conn m)))" by simp
  moreover have "Count m = int (length ?conn)"
    by (simp only: Count_ListPeers [of m "\<lambda>_. []"] ListPeers_def length_map filter_map comp_def)
  ultimately show ?thesis by simp
qed


definition demo_conn :: "u64 \<Rightarrow> int \<Rightarrow> ConnState" where
  "demo_conn p opened = \<lparr>cst_Api = \<lparr>cs_RemoteAddr = ''r'', cs_LocalAddr = ''l'', cs_Direction = ''inbound'',
     cs_Transport = ''quic'', cs_Security = ''tls'', cs_Muxer = ''yamux'', cs_OpenedAtNs = opened\<rparr>, cst_PeerAlias = p\<rparr>"

definition demo_ops :: "peer_op list" where
  "demo_ops = [OpPeer 1 [7], OpConn 10 (demo_conn 1 5), OpPeer 2 [8], OpConn 20 (demo_conn 2 6),
     OpConn 11 (demo_conn 1 9), OpClose 10, OpClose 20, OpConn 21 (demo_conn 2 9)]"

lemma in_alias_ran: "p \<in> f ` ran Q \<longleftrightarrow> (\<exists>c cs. Q c = Some cs \<and> f cs = p)"
  by (auto simp: ran_def)


text \<open>
  The condition on aliases is needed: \<open>UpsertConnection\<close> under a second peer leaves the
  connection with the first one, and closing it then keeps the first peer for ever.
\<close>

theorem reused_alias_leaves_ghost:
  "let m = CloseConnection 10 (UpsertConnection 10 (demo_conn 2 6)
       (UpsertPeer 2 [8] (UpsertConnection 10 (demo_conn 1 5) (UpsertPeer 1 [7] NewPeerMap))))
   in open_conn m = Map.empty \<and> Count m = 1 \<and> CloseConnection 10 m = m"
  by (simp add: NewPeerMap_def UpsertPeer_def UpsertConnection_def CloseConnection_def demo_conn_def touch_def
      open_conn_def Count_def Let_def fun_eq_iff)

text \<open>
  The times shown for a peer bound those of its connections: when a connection opened at a
  positive time is reported for a known peer, the peer's first-seen time is then at most
  that time and its last-seen time at least that time, the first-seen time never moves forward once it is set, and
  the last-seen time never moves backward.
\<close>

theorem UpsertConnection_seen:
  assumes "gget (pmap_peers m) (cst_PeerAlias cs) = Some ps" and "0 < cs_OpenedAtNs (cst_Api cs)"
    and "0 \<le> pst_FirstSeenNs ps"
  shows "\<exists>ps'. gget (pmap_peers (UpsertConnection c cs m)) (cst_PeerAlias cs) = Some ps'
    \<and> 0 < pst_FirstSeenNs ps' \<and> pst_FirstSeenNs ps' \<le> cs_OpenedAtNs (cst_Api cs)
    \<and> cs_OpenedAtNs (cst_Api cs) \<le> pst_LastSeenNs ps'
    \<and> (pst_FirstSeenNs ps \<noteq> 0 \<longrightarrow> pst_FirstSeenNs ps' \<le> pst_FirstSeenNs ps)
    \<and> pst_LastSeenNs ps \<le> pst_LastSeenNs ps'"
  using assms by (simp add: UpsertConnection_def Let_def touch_def)

theorem UpsertConnection_seen_witness:
  "\<exists>ps'. gget (pmap_peers (UpsertConnection 10 (demo_conn 1 5) (UpsertPeer 1 [7] NewPeerMap))) 1 = Some ps'
    \<and> 0 < pst_FirstSeenNs ps' \<and> pst_FirstSeenNs ps' \<le> 5 \<and> 5 \<le> pst_LastSeenNs ps' \<and> 0 \<le> pst_LastSeenNs ps'"
  using UpsertConnection_seen [of "UpsertPeer 1 [7] NewPeerMap" "demo_conn 1 5"
      "\<lparr>pst_PeerID = [7], pst_Connections = [], pst_FirstSeenNs = 0, pst_LastSeenNs = 0\<rparr>" 10]
  by (simp add: demo_conn_def UpsertPeer_def NewPeerMap_def)

end
