(* ===== verification/Processing.thy ===== *)
theory Processing
  imports Slots Peers
begin

text \<open>
  \<open>internal/processor/processor.go\<close>: the processor that applies the envelopes of every source.

  A processor holds, per source, the alias maps of the probe (strings, streams, peers), the
  aggregates per slot, the slot of the last chunk and the cursor of the last applied
  sequence number.  The decoder's package-level cache is the field \<open>pr_cache\<close>.  Every operation is one
  critical section of the source's mutex; \<open>now\<close> is what \<open>time.Now\<close> returns while it runs.
  The callbacks are called after the mutex is released: the model returns the calls
  as a list of effects.  A panic is \<open>None\<close>.  Messages decoded from the wire have no nil
  inner message, so the nil checks of the handlers have no counterpart.
\<close>

section \<open>State\<close>

record streamState =
  st_protocol :: string
  st_decoder :: "instance_state option"

record sourceState =
  src_strings :: "(u32, string) gomap"
  src_streams :: "(u64, streamState) gomap"
  src_peers :: PeerMap
  src_slots :: slot_map
  src_lastSlot :: u64
  src_lastAppliedSeq :: u64

definition newSourceState :: sourceState where
  "newSourceState = \<lparr>src_strings = [], src_streams = [], src_peers = NewPeerMap, src_slots = [],
     src_lastSlot = 0, src_lastAppliedSeq = 0\<rparr>"

record Processor =
  pr_clock :: SlotClock
  pr_sources :: "(string, sourceState) gomap"
  pr_onUpdate :: bool
  pr_onFinalize :: bool
  pr_cache :: decode_cache

datatype effect = OnFinalize string SlotDetail | OnUpdate string SlotSummary u64

definition NewProcessor :: "SlotClock \<Rightarrow> Processor" where
  "NewProcessor clock = \<lparr>pr_clock = clock, pr_sources = [], pr_onUpdate = False, pr_onFinalize = False, pr_cache = []\<rparr>"

definition SetOnUpdate :: "bool \<Rightarrow> Processor \<Rightarrow> Processor" where
  "SetOnUpdate fn p = p\<lparr>pr_onUpdate := fn\<rparr>"

definition SetOnFinalize :: "bool \<Rightarrow> Processor \<Rightarrow> Processor" where
  "SetOnFinalize fn p = p\<lparr>pr_onFinalize := fn\<rparr>"

section \<open>Handlers\<close>

text \<open>\<open>ensureSourceLocked\<close> followed by an update through the pointer it returns.\<close>

definition source_of :: "string \<Rightarrow> Processor \<Rightarrow> sourceState" where
  "source_of sourceID p = getd newSourceState (pr_sources p) sourceID"

definition set_source :: "string \<Rightarrow> sourceState \<Rightarrow> Processor \<Rightarrow> Processor" where
  "set_source sourceID src p = p\<lparr>pr_sources := gput sourceID src (pr_sources p)\<rparr>"

definition ensureSourceLocked :: "string \<Rightarrow> (sourceState \<Rightarrow> sourceState) \<Rightarrow> Processor \<Rightarrow> Processor" where
  "ensureSourceLocked sourceID f p = set_source sourceID (f (source_of sourceID p)) p"

fun dirString :: "Direction \<Rightarrow> string" where
  "dirString DIRECTION_IN = ''inbound''"
| "dirString DIRECTION_OUT = ''outbound''"
| "dirString _ = ''unknown''"

definition lookup_string :: "sourceState \<Rightarrow> u32 \<Rightarrow> string" where
  "lookup_string src i = getd [] (src_strings src) i"

definition conn_state :: "sourceState \<Rightarrow> ConnectionUpsert \<Rightarrow> ConnState" where
  "conn_state src cu =
     \<lparr>cst_Api = \<lparr>cs_RemoteAddr = cu_RemoteAddr cu, cs_LocalAddr = cu_LocalAddr cu,
        cs_Direction = dirString (cu_Direction cu), cs_Transport = lookup_string src (cu_TransportId cu),
        cs_Security = lookup_string src (cu_SecurityId cu), cs_Muxer = lookup_string src (cu_MuxerId cu),
        cs_OpenedAtNs = cu_OpenedAtNs cu\<rparr>,
      cst_PeerAlias = cu_PeerAlias cu\<rparr>"

definition handleStreamUpsert :: "externals \<Rightarrow> string \<Rightarrow> StreamUpsert \<Rightarrow> Processor \<Rightarrow> Processor" where
  "handleStreamUpsert ext sourceID stream =
     ensureSourceLocked sourceID (\<lambda>src.
       let protocol = lookup_string src (su_ProtocolId stream)
       in src\<lparr>src_streams := gput (su_StreamAlias stream)
            \<lparr>st_protocol = protocol, st_decoder = newEthStreamDecoder ext protocol\<rparr> (src_streams src)\<rparr>)"

definition handleStreamClosed :: "string \<Rightarrow> StreamClosed \<Rightarrow> Processor \<Rightarrow> Processor" where
  "handleStreamClosed sourceID stream p =
     (case gget (pr_sources p) sourceID of
        None \<Rightarrow> p
      | Some src \<Rightarrow> set_source sourceID (src\<lparr>src_streams := gdel (sc_StreamAlias stream) (src_streams src)\<rparr>) p)"

definition currentSlotLocked :: "SlotClock \<Rightarrow> time \<Rightarrow> u64 go" where
  "currentSlotLocked clock now = do {
     r \<leftarrow> At clock now;
     Some (case r of None \<Rightarrow> 0 | Some ref \<Rightarrow> ref_Slot ref)
   }"

text \<open>The loop that looks for the oldest slot, over the keys in the order Go ranges over them.\<close>

definition oldest_slot :: "u64 list \<Rightarrow> u64" where
  "oldest_slot ks = foldl (\<lambda>oldest s. if oldest = 0 \<or> s < oldest then s else oldest) 0 ks"

definition evict :: "slot_map \<Rightarrow> slot_map" where
  "evict slots = (if length slots > 256 then gdel (oldest_slot (map fst slots)) slots else slots)"

text \<open>The transition to a later slot: the detail to finalize, and the eviction.\<close>

definition advance_slot ::
  "SlotClock \<Rightarrow> time \<Rightarrow> u64 \<Rightarrow> sourceState \<Rightarrow> (SlotDetail option \<times> slot_map) go" where
  "advance_slot clock now currentSlot src =
     (if src_lastSlot src > 0 \<and> currentSlot > src_lastSlot src then do {
        d \<leftarrow> (case gget (src_slots src) (src_lastSlot src) of
           None \<Rightarrow> Some None
         | Some agg \<Rightarrow> do {
             cur \<leftarrow> currentSlotLocked clock now;
             Some (buildSlotDetailLocked cur (src_slots src) (src_lastSlot src))
           });
        Some (d, evict (src_slots src))
      }
      else Some (None, src_slots src))"

text \<open>
  The decoder's turn: its new state, the cache, and what the chunk is booked as.  After an
  error the decoder is reset.  A chunk of neither direction is not decoded.
\<close>

definition decode_chunk ::
  "externals \<Rightarrow> decode_cache \<Rightarrow> Direction \<Rightarrow> bytes \<Rightarrow> instance_state option \<Rightarrow>
   (instance_state option \<times> decode_cache \<times> (emission list \<times> bool) option) go" where
  "decode_chunk ext cache dir data decoder =
     (case decoder of
        None \<Rightarrow> Some (None, cache, None)
      | Some i \<Rightarrow> do {
          (i, cache, ems, err) \<leftarrow> (case dir of
             DIRECTION_IN \<Rightarrow> ObserveRead ext cache i data
           | DIRECTION_OUT \<Rightarrow> ObserveWrite ext cache i data
           | _ \<Rightarrow> Some (i, cache, [], None));
          Some (Some (if err = None then i else Reset i), cache, Some (ems, err \<noteq> None))
        })"

definition handleStreamChunk ::
  "externals \<Rightarrow> time \<Rightarrow> string \<Rightarrow> int \<Rightarrow> StreamChunk \<Rightarrow> Processor \<Rightarrow> (Processor \<times> effect list) go" where
  "handleStreamChunk ext now sourceID observedAtNs chunk p =
     (case gget (pr_sources p) sourceID of None \<Rightarrow> Some (p, []) | Some src \<Rightarrow>
     (case gget (src_streams src) (ch_StreamAlias chunk) of None \<Rightarrow> Some (p, []) | Some state \<Rightarrow>
     (case At (pr_clock p) observedAtNs of
        None \<Rightarrow> None
      | Some None \<Rightarrow> Some (p, [])
      | Some (Some ref) \<Rightarrow> do {
          let currentSlot = ref_Slot ref;
          (finalizeDetail, slots) \<leftarrow> advance_slot (pr_clock p) now currentSlot src;
          let (agg, slots) = ensureSlotLocked slots ref;
          (decoder, cache, decoded) \<leftarrow>
            decode_chunk ext (pr_cache p) (ch_Direction chunk) (ch_Data chunk) (st_decoder state);
          let agg = book_chunk ref observedAtNs (ch_Direction chunk) (of_nat (length (ch_Data chunk)))
            (st_protocol state) decoded agg;
          let src = src\<lparr>src_lastSlot := currentSlot,
            src_slots := gput currentSlot agg slots,
            src_streams := gput (ch_StreamAlias chunk) (state\<lparr>st_decoder := decoder\<rparr>) (src_streams src)\<rparr>;
          Some ((set_source sourceID src p)\<lparr>pr_cache := cache\<rparr>,
            (case finalizeDetail of Some d \<Rightarrow> if pr_onFinalize p then [OnFinalize sourceID d] else [] | None \<Rightarrow> [])
            @ (if pr_onUpdate p then [OnUpdate sourceID (ag_summary agg) currentSlot] else []))
        })))"

definition ResetSource :: "string \<Rightarrow> Processor \<Rightarrow> Processor" where
  "ResetSource sourceID p =
     (case gget (pr_sources p) sourceID of
        None \<Rightarrow> p
      | Some src \<Rightarrow> set_source sourceID
          (src\<lparr>src_strings := [], src_streams := [], src_peers := Clear (src_peers src), src_lastAppliedSeq := 0\<rparr>) p)"

definition LastAppliedSeq :: "string \<Rightarrow> Processor \<Rightarrow> u64" where
  "LastAppliedSeq sourceID p =
     (case gget (pr_sources p) sourceID of None \<Rightarrow> 0 | Some src \<Rightarrow> src_lastAppliedSeq src)"

text \<open>The second switch of \<open>ApplyForSource\<close>.\<close>

fun apply_payload ::
  "externals \<Rightarrow> time \<Rightarrow> string \<Rightarrow> int \<Rightarrow> Payload option \<Rightarrow> Processor \<Rightarrow> (Processor \<times> effect list) go" where
  "apply_payload ext now sourceID t (Some (Envelope_StringDef d)) p =
     Some (ensureSourceLocked sourceID (\<lambda>src.
       src\<lparr>src_strings := gput (def_Id d) (def_Value d) (src_strings src)\<rparr>) p, [])"
| "apply_payload ext now sourceID t (Some (Envelope_PeerUpsert u)) p =
     Some (ensureSourceLocked sourceID (\<lambda>src.
       src\<lparr>src_peers := UpsertPeer (pu_PeerAlias u) (pu_PeerId u) (src_peers src)\<rparr>) p, [])"
| "apply_payload ext now sourceID t (Some (Envelope_ConnectionUpsert cu)) p =
     Some (ensureSourceLocked sourceID (\<lambda>src.
       src\<lparr>src_peers := UpsertConnection (cu_ConnAlias cu) (conn_state src cu) (src_peers src)\<rparr>) p, [])"
| "apply_payload ext now sourceID t (Some (Envelope_ConnectionClosed c)) p =
     Some (ensureSourceLocked sourceID (\<lambda>src.
       src\<lparr>src_peers := CloseConnection (cc_ConnAlias c) (src_peers src)\<rparr>) p, [])"
| "apply_payload ext now sourceID t (Some (Envelope_StreamUpsert s)) p =
     Some (handleStreamUpsert ext sourceID s p, [])"
| "apply_payload ext now sourceID t (Some (Envelope_StreamClosed s)) p =
     Some (handleStreamClosed sourceID s p, [])"
| "apply_payload ext now sourceID t (Some (Envelope_StreamChunk c)) p =
     handleStreamChunk ext now sourceID t c p"
| "apply_payload ext now sourceID t _ p = Some (p, [])"

definition advance_cursor :: "u64 \<Rightarrow> string \<Rightarrow> Processor \<Rightarrow> Processor" where
  "advance_cursor seq sourceID p =
     (if seq \<noteq> 0 then
        ensureSourceLocked sourceID (\<lambda>src.
          if seq > src_lastAppliedSeq src then src\<lparr>src_lastAppliedSeq := seq\<rparr> else src) p
      else p)"

text \<open>\<open>ApplyForSource\<close>; the nil envelope is \<open>None\<close>.\<close>

definition ApplyForSource ::
  "externals \<Rightarrow> time \<Rightarrow> string \<Rightarrow> Envelope option \<Rightarrow> Processor \<Rightarrow> (Processor \<times> effect list) go" where
  "ApplyForSource ext now sourceID event p =
     (case event of
        None \<Rightarrow> Some (p, [])
      | Some ev \<Rightarrow>
          if env_Payload ev = Some Envelope_SnapshotStart then Some (ResetSource sourceID p, [])
          else if env_Payload ev = Some Envelope_SnapshotEnd then Some (p, [])
          else if env_Seq ev \<noteq> 0 \<and> gget (pr_sources p) sourceID \<noteq> None
            \<and> env_Seq ev \<le> src_lastAppliedSeq (source_of sourceID p)
          then Some (p, [])
          else do {
            (p, effects) \<leftarrow> apply_payload ext now sourceID (env_ObservedAtNs ev) (env_Payload ev) p;
            Some (advance_cursor (env_Seq ev) sourceID p, effects)
          })"

section \<open>Queries\<close>

definition summaryString :: "SlotSummary \<Rightarrow> string" where
  "summaryString s = FormatUint (ss_Slot s) @ '' '' @ FormatUint (ss_Epoch s)"

definition ListSlots ::
  "(string \<Rightarrow> string) \<Rightarrow> time \<Rightarrow> string \<Rightarrow> string \<Rightarrow> int \<Rightarrow> Processor \<Rightarrow> SlotSummary list go" where
  "ListSlots uni now sourceID search limit p =
     (case gget (pr_sources p) sourceID of
        None \<Rightarrow> Some []
      | Some src \<Rightarrow> do {
          currentSlot \<leftarrow> currentSlotLocked (pr_clock p) now;
          let search = TrimSpace (ToLower uni search);
          let summaries = map (\<lambda>agg. with_finalized currentSlot (ag_summary agg)) (gvals (src_slots src));
          let rows = filter (\<lambda>s. search = [] \<or> Contains (ToLower uni (TrimSpace (summaryString s))) search) summaries;
          let rows = sort_slice (by_key_desc ss_Slot) rows;
          Some (if limit > 0 \<and> int (length rows) > limit then take (nat limit) rows else rows)
        })"

definition SlotDetail_of :: "time \<Rightarrow> string \<Rightarrow> u64 \<Rightarrow> Processor \<Rightarrow> SlotDetail option go" where
  "SlotDetail_of now sourceID slot p =
     (case gget (pr_sources p) sourceID of
        None \<Rightarrow> Some None
      | Some src \<Rightarrow>
          (case gget (src_slots src) slot of
             None \<Rightarrow> Some None
           | Some agg \<Rightarrow> do {
               cur \<leftarrow> currentSlotLocked (pr_clock p) now;
               Some (buildSlotDetailLocked cur (src_slots src) slot)
             }))"

definition CurrentSlot :: "time \<Rightarrow> Processor \<Rightarrow> u64 go" where
  "CurrentSlot now p = currentSlotLocked (pr_clock p) now"

definition ListPeersFor :: "(bytes \<Rightarrow> string) \<Rightarrow> string \<Rightarrow> Processor \<Rightarrow> PeerSummary list" where
  "ListPeersFor idString sourceID p =
     (case gget (pr_sources p) sourceID of None \<Rightarrow> [] | Some src \<Rightarrow> ListPeers idString (src_peers src))"

definition PeerCount :: "string \<Rightarrow> Processor \<Rightarrow> int" where
  "PeerCount sourceID p =
     (case gget (pr_sources p) sourceID of None \<Rightarrow> 0 | Some src \<Rightarrow> Count (src_peers src))"

section \<open>One chunk\<close>

lemma gput_gput [simp]: "gput k v (gput k w m) = gput k v m"
  by (induction m) auto

lemma ensureSlot_eq:
  "ensureSlotLocked slots ref = (agg, slots') \<Longrightarrow>
     agg = getd (new_aggregate ref) slots (ref_Slot ref) \<and> gput (ref_Slot ref) a slots' = gput (ref_Slot ref) a slots"
  by (auto simp: ensureSlotLocked_def getd_def Let_def split: option.splits)

definition booked_aggregate ::
  "SlotRef \<Rightarrow> int \<Rightarrow> StreamChunk \<Rightarrow> string \<Rightarrow> (emission list \<times> bool) option \<Rightarrow> slot_map \<Rightarrow> slotAggregate" where
  "booked_aggregate ref t chunk protocol decoded slots =
     book_chunk ref t (ch_Direction chunk) (of_nat (length (ch_Data chunk))) protocol decoded
       (getd (new_aggregate ref) slots (ref_Slot ref))"

definition booked_source ::
  "SlotRef \<Rightarrow> slotAggregate \<Rightarrow> slot_map \<Rightarrow> u64 \<Rightarrow> streamState \<Rightarrow> sourceState \<Rightarrow> sourceState" where
  "booked_source ref agg slots alias state src =
     src\<lparr>src_lastSlot := ref_Slot ref, src_slots := gput (ref_Slot ref) agg slots,
         src_streams := gput alias state (src_streams src)\<rparr>"

definition chunk_effects ::
  "Processor \<Rightarrow> string \<Rightarrow> SlotDetail option \<Rightarrow> SlotSummary \<Rightarrow> u64 \<Rightarrow> effect list" where
  "chunk_effects p sourceID fd summary slot =
     (case fd of Some d \<Rightarrow> if pr_onFinalize p then [OnFinalize sourceID d] else [] | None \<Rightarrow> [])
     @ (if pr_onUpdate p then [OnUpdate sourceID summary slot] else [])"

lemma handleStreamChunk_booked:
  assumes "gget (pr_sources p) sid = Some src" and "gget (src_streams src) (ch_StreamAlias c) = Some st"
    and "At (pr_clock p) t = Some (Some ref)"
  shows "handleStreamChunk ext now sid t c p =
    (case advance_slot (pr_clock p) now (ref_Slot ref) src of None \<Rightarrow> None
     | Some (fd, slots) \<Rightarrow>
       (case decode_chunk ext (pr_cache p) (ch_Direction c) (ch_Data c) (st_decoder st) of None \<Rightarrow> None
        | Some (dec, cache, decoded) \<Rightarrow>
          let agg = booked_aggregate ref t c (st_protocol st) decoded slots in
          Some ((set_source sid (booked_source ref agg slots (ch_StreamAlias c) (st\<lparr>st_decoder := dec\<rparr>) src) p)
              \<lparr>pr_cache := cache\<rparr>,
            chunk_effects p sid fd (ag_summary agg) (ref_Slot ref))))"
proof -
  have "ensureSlotLocked slots ref = (a, s') \<Longrightarrow> gput (ref_Slot ref) x s' = gput (ref_Slot ref) x slots
      \<and> a = getd (new_aggregate ref) slots (ref_Slot ref)" for slots a s' x
    by (metis ensureSlot_eq)
  with assms show ?thesis
    by (auto simp: handleStreamChunk_def booked_aggregate_def booked_source_def chunk_effects_def Let_def
        split: option.split prod.split)
qed

lemma handleStreamChunk_Some:
  assumes "handleStreamChunk ext now sid t c p = Some (p', effs)"
  obtains (skip) "p' = p" "effs = []"
  | (booked) src st ref fd slots dec cache decoded agg where
      "gget (pr_sources p) sid = Some src" "gget (src_streams src) (ch_StreamAlias c) = Some st"
      "At (pr_clock p) t = Some (Some ref)"
      "advance_slot (pr_clock p) now (ref_Slot ref) src = Some (fd, slots)"
      "decode_chunk ext (pr_cache p) (ch_Direction c) (ch_Data c) (st_decoder st) = Some (dec, cache, decoded)"
      "agg = booked_aggregate ref t c (st_protocol st) decoded slots"
      "p' = (set_source sid (booked_source ref agg slots (ch_StreamAlias c) (st\<lparr>st_decoder := dec\<rparr>) src) p)
         \<lparr>pr_cache := cache\<rparr>"
      "effs = chunk_effects p sid fd (ag_summary agg) (ref_Slot ref)"
proof (cases "gget (pr_sources p) sid")
  case None
  with assms skip show ?thesis by (simp add: handleStreamChunk_def)
next
  case (Some src)
  note src = this
  show ?thesis
  proof (cases "gget (src_streams src) (ch_StreamAlias c)")
    case None
    with assms src skip show ?thesis by (simp add: handleStreamChunk_def)
  next
    case (Some st)
    note st = this
    show ?thesis
    proof (cases "At (pr_clock p) t = Some None")
      case True
      with assms src st skip show ?thesis by (simp add: handleStreamChunk_def)
    next
      case False
      with assms src st obtain ref where at: "At (pr_clock p) t = Some (Some ref)"
        by (auto simp: handleStreamChunk_def split: option.splits)
      from assms show ?thesis
        unfolding handleStreamChunk_booked [OF src st at]
        by (auto simp: Let_def split: option.splits intro: booked [OF src st at])
    qed
  qed
qed

section \<open>The invariant of a processor\<close>

definition decoder_ok :: "externals \<Rightarrow> instance_state \<Rightarrow> bool" where
  "decoder_ok ext i \<longleftrightarrow> i_msgDecoder i = Some (decodeMessage (ext_snappy ext))
     \<and> v_max (i_in i) = DefaultMaxRPCSize \<and> v_max (i_out i) = DefaultMaxRPCSize"

definition stream_ok :: "externals \<Rightarrow> streamState \<Rightarrow> bool" where
  "stream_ok ext st \<longleftrightarrow> (\<forall>i. st_decoder st = Some i \<longrightarrow> decoder_ok ext i)"

definition slots_ok :: "slot_map \<Rightarrow> bool" where
  "slots_ok slots \<longleftrightarrow> gm_ok slots
     \<and> (\<forall>s agg. gget slots s = Some agg \<longrightarrow> agg_ok agg \<and> ss_Slot (ag_summary agg) = s)"

definition source_ok :: "externals \<Rightarrow> sourceState \<Rightarrow> bool" where
  "source_ok ext src \<longleftrightarrow> gm_ok (src_strings src) \<and> gm_ok (src_streams src) \<and> slots_ok (src_slots src)
     \<and> (\<forall>a st. gget (src_streams src) a = Some st \<longrightarrow> stream_ok ext st)
     \<and> (src_lastSlot src = 0 \<or> gget (src_slots src) (src_lastSlot src) \<noteq> None)"

definition proc_ok :: "externals \<Rightarrow> Processor \<Rightarrow> bool" where
  "proc_ok ext p \<longleftrightarrow> gm_ok (pr_sources p) \<and> (\<forall>sid src. gget (pr_sources p) sid = Some src \<longrightarrow> source_ok ext src)"

lemma proc_ok_New: "proc_ok ext (NewProcessor clock)"
  by (simp add: proc_ok_def NewProcessor_def)

lemma source_ok_new: "source_ok ext newSourceState"
  by (simp add: source_ok_def newSourceState_def slots_ok_def)

lemma source_ok_of: "proc_ok ext p \<Longrightarrow> source_ok ext (source_of sid p)"
  by (simp add: proc_ok_def source_of_def getd_def source_ok_new split: option.split)

lemma proc_ok_set: "proc_ok ext p \<Longrightarrow> source_ok ext src \<Longrightarrow> proc_ok ext (set_source sid src p)"
  by (simp add: proc_ok_def set_source_def)

lemma proc_ok_ensure:
  "proc_ok ext p \<Longrightarrow> (\<And>src. source_ok ext src \<Longrightarrow> source_ok ext (f src)) \<Longrightarrow> proc_ok ext (ensureSourceLocked sid f p)"
  by (simp add: ensureSourceLocked_def proc_ok_set source_ok_of)

lemma decoder_ok_new: "newEthStreamDecoder ext protocol = Some i \<Longrightarrow> decoder_ok ext i"
  by (auto simp: newEthStreamDecoder_def New_def GossipSubDecoder_def newVarintRPC_def decoder_ok_def Let_def
      split: if_splits)

lemma observe_total:
  assumes "v_max v = DefaultMaxRPCSize"
  shows "\<exists>v' cache' ems err. observe ext (Some (decodeMessage snappy)) cache v data = Some (v', cache', ems, err)
    \<and> v_max v' = DefaultMaxRPCSize"
proof -
  obtain buf cache' ems err where
    "observe_loop ext (Some (decodeMessage snappy)) DefaultMaxRPCSize cache (v_buf v @ data) = Some (buf, cache', ems, err)"
    using observe_loop_total [of DefaultMaxRPCSize] by (fastforce simp: DefaultMaxRPCSize_def)
  with assms show ?thesis by (simp add: observe_def)
qed

lemma decode_chunk_total:
  assumes "\<And>i. dec = Some i \<Longrightarrow> decoder_ok ext i"
  shows "\<exists>dec' cache' decoded. decode_chunk ext cache dir data dec = Some (dec', cache', decoded)
    \<and> (\<forall>i. dec' = Some i \<longrightarrow> decoder_ok ext i)"
proof (cases dec)
  case None
  then show ?thesis by (simp add: decode_chunk_def)
next
  case (Some i)
  then have ok: "decoder_ok ext i" by (rule assms)
  let ?md = "Some (decodeMessage (ext_snappy ext))"
  obtain v1 c1 e1 r1 where "observe ext ?md cache (i_in i) data = Some (v1, c1, e1, r1)" "v_max v1 = DefaultMaxRPCSize"
    using observe_total [of "i_in i" ext "ext_snappy ext" cache data] ok by (auto simp: decoder_ok_def)
  moreover obtain v2 c2 e2 r2 where "observe ext ?md cache (i_out i) data = Some (v2, c2, e2, r2)" "v_max v2 = DefaultMaxRPCSize"
    using observe_total [of "i_out i" ext "ext_snappy ext" cache data] ok by (auto simp: decoder_ok_def)
  ultimately show ?thesis
    using Some ok by (cases dir)
      (auto simp: decode_chunk_def ObserveRead_def ObserveWrite_def decoder_ok_def Reset_def reset_def)
qed

lemma slots_ok_evict: "slots_ok slots \<Longrightarrow> slots_ok (evict slots)"
  by (simp add: evict_def slots_ok_def)

lemma currentSlot_total: "clock_ok c \<Longrightarrow> \<exists>s. currentSlotLocked c now = Some s"
  by (erule At_cases [of c now]) (simp_all add: currentSlotLocked_def)

lemma advance_slot_total:
  assumes "clock_ok c" and "slots_ok (src_slots src)"
  shows "\<exists>fd slots. advance_slot c now cur src = Some (fd, slots) \<and> slots_ok slots"
  using currentSlot_total [OF assms(1), of now] slots_ok_evict [OF assms(2)] assms(2)
  by (auto simp: advance_slot_def split: option.split)

lemma ss_Slot_frame [simp]:
  "ss_Slot (ag_summary (addBreakdownLocked off dir n pr to mk dist agg)) = ss_Slot (ag_summary agg)"
  "ss_Slot (ag_summary (addRawTrafficLocked t ms dir n agg)) = ss_Slot (ag_summary agg)"
  "ss_Slot (ag_summary (emit ref off dir pr em agg)) = ss_Slot (ag_summary agg)"
proof -
  show a: "ss_Slot (ag_summary (addBreakdownLocked off dir n pr to mk dist agg)) = ss_Slot (ag_summary agg)"
    for off dir n pr to mk dist agg by (simp add: addBreakdownLocked_def Let_def)
  show "ss_Slot (ag_summary (addRawTrafficLocked t ms dir n agg)) = ss_Slot (ag_summary agg)"
    by (cases dir; simp add: addRawTrafficLocked_def Let_def)
  show "ss_Slot (ag_summary (emit ref off dir pr em agg)) = ss_Slot (ag_summary agg)"
    by (simp add: emit_def Let_def a)
qed

lemma ss_Slot_emits [simp]: "ss_Slot (ag_summary (fold (emit ref off dir pr) ems agg)) = ss_Slot (ag_summary agg)"
  by (induction ems arbitrary: agg) simp_all

lemma ss_Slot_book_chunk [simp]: "ss_Slot (ag_summary (book_chunk ref t dir n pr decoded agg)) = ss_Slot (ag_summary agg)"
  by (simp add: book_chunk_def Let_def split: option.split)

lemma booked_aggregate_ok:
  assumes "slots_ok slots"
  shows "agg_ok (booked_aggregate ref t c pr decoded slots)"
    and "ss_Slot (ag_summary (booked_aggregate ref t c pr decoded slots)) = ref_Slot ref"
proof -
  have "agg_ok (getd (new_aggregate ref) slots (ref_Slot ref))"
    and sl: "ss_Slot (ag_summary (getd (new_aggregate ref) slots (ref_Slot ref))) = ref_Slot ref"
    using assms by (auto simp: slots_ok_def getd_def agg_ok_new split: option.split)
      (simp add: new_aggregate_def)
  then show "agg_ok (booked_aggregate ref t c pr decoded slots)"
    by (simp add: booked_aggregate_def agg_ok_book_chunk)
  from sl show "ss_Slot (ag_summary (booked_aggregate ref t c pr decoded slots)) = ref_Slot ref"
    by (simp add: booked_aggregate_def)
qed

lemma booked_source_ok:
  assumes "source_ok ext src" and "slots_ok slots" and "stream_ok ext st"
  shows "source_ok ext (booked_source ref (booked_aggregate ref t c pr decoded slots) slots alias st src)"
  using assms booked_aggregate_ok [OF assms(2)] by (simp add: source_ok_def booked_source_def slots_ok_def)

lemma proc_ok_cache [simp]: "proc_ok ext (p\<lparr>pr_cache := c\<rparr>) = proc_ok ext p"
  by (simp add: proc_ok_def)

lemma handleStreamChunk_total:
  assumes "clock_ok (pr_clock p)" and "proc_ok ext p"
  shows "\<exists>p' effs. handleStreamChunk ext now sid t c p = Some (p', effs) \<and> proc_ok ext p' \<and> pr_clock p' = pr_clock p"
proof (cases "\<exists>src st ref. gget (pr_sources p) sid = Some src \<and> gget (src_streams src) (ch_StreamAlias c) = Some st
    \<and> At (pr_clock p) t = Some (Some ref)")
  case False
  have "handleStreamChunk ext now sid t c p = Some (p, [])"
  proof (rule At_cases [OF assms(1), of t])
    assume "At (pr_clock p) t = Some None"
    then show ?thesis by (simp add: handleStreamChunk_def split: option.split)
  next
    fix r assume "At (pr_clock p) t = Some (Some r)"
    with False have "gget (pr_sources p) sid = Some src \<Longrightarrow> gget (src_streams src) (ch_StreamAlias c) = None" for src
      by (cases "gget (src_streams src) (ch_StreamAlias c)") blast+
    then show ?thesis by (simp add: handleStreamChunk_def split: option.split)
  qed
  with assms(2) show ?thesis by blast
next
  case True
  then obtain src st ref where src: "gget (pr_sources p) sid = Some src"
    and st: "gget (src_streams src) (ch_StreamAlias c) = Some st" and at: "At (pr_clock p) t = Some (Some ref)" by blast
  have ok: "source_ok ext src" using assms(2) src by (simp add: proc_ok_def)
  obtain fd slots where adv: "advance_slot (pr_clock p) now (ref_Slot ref) src = Some (fd, slots)" "slots_ok slots"
    using advance_slot_total [OF assms(1), of src now "ref_Slot ref"] ok by (auto simp: source_ok_def)
  have "\<And>i. st_decoder st = Some i \<Longrightarrow> decoder_ok ext i" using ok st by (simp add: source_ok_def stream_ok_def)
  from decode_chunk_total [OF this] obtain dec cache decoded where
    dec: "decode_chunk ext (pr_cache p) (ch_Direction c) (ch_Data c) (st_decoder st) = Some (dec, cache, decoded)"
    "\<forall>i. dec = Some i \<longrightarrow> decoder_ok ext i" by blast
  show ?thesis
    unfolding handleStreamChunk_booked [OF src st at]
    using adv dec booked_source_ok [OF ok adv(2)] assms(2)
    by (simp add: Let_def stream_ok_def proc_ok_set) (simp add: set_source_def)
qed

lemma pr_clock_frame [simp]:
  "pr_clock (set_source sid src p) = pr_clock p" "pr_clock (ensureSourceLocked sid f p) = pr_clock p"
  "pr_clock (ResetSource sid p) = pr_clock p" "pr_clock (advance_cursor seq sid p) = pr_clock p"
  by (simp_all add: set_source_def ensureSourceLocked_def ResetSource_def advance_cursor_def split: option.split)

lemma proc_ok_ResetSource: "proc_ok ext p \<Longrightarrow> proc_ok ext (ResetSource sid p)"
  by (auto simp: ResetSource_def proc_ok_def set_source_def source_ok_def split: option.split)

lemma proc_ok_advance_cursor: "proc_ok ext p \<Longrightarrow> proc_ok ext (advance_cursor seq sid p)"
  by (auto simp: advance_cursor_def source_ok_def intro!: proc_ok_ensure)

lemma proc_ok_handleStreamClosed: "proc_ok ext p \<Longrightarrow> proc_ok ext (handleStreamClosed sid s p)"
  by (auto simp: handleStreamClosed_def proc_ok_def set_source_def source_ok_def split: option.split)

lemma proc_ok_handleStreamUpsert: "proc_ok ext p \<Longrightarrow> proc_ok ext (handleStreamUpsert ext sid s p)"
  unfolding handleStreamUpsert_def Let_def
  by (rule proc_ok_ensure) (auto simp: source_ok_def stream_ok_def decoder_ok_new)

lemma source_ok_frame [simp]:
  "source_ok ext (src\<lparr>src_peers := m\<rparr>) = source_ok ext src"
  "source_ok ext (src\<lparr>src_strings := m'\<rparr>) = (gm_ok m' \<and> source_ok ext (src\<lparr>src_strings := []\<rparr>))"
  by (auto simp: source_ok_def)

lemma apply_payload_total:
  assumes "clock_ok (pr_clock p)" and "proc_ok ext p"
  shows "\<exists>p' effs. apply_payload ext now sid t pl p = Some (p', effs) \<and> proc_ok ext p' \<and> pr_clock p' = pr_clock p"
proof (cases pl)
  case None
  with assms show ?thesis by simp
next
  case (Some x)
  show ?thesis
  proof (cases x)
    case (Envelope_StringDef d)
    have "proc_ok ext (ensureSourceLocked sid (\<lambda>src. src\<lparr>src_strings := gput (def_Id d) (def_Value d) (src_strings src)\<rparr>) p)"
      by (rule proc_ok_ensure [OF assms(2)]) (simp add: source_ok_def)
    with Some Envelope_StringDef show ?thesis by simp
  next
    case (Envelope_StreamClosed s)
    have "pr_clock (handleStreamClosed sid s p) = pr_clock p" by (simp add: handleStreamClosed_def split: option.split)
    with Some Envelope_StreamClosed assms(2) show ?thesis by (simp add: proc_ok_handleStreamClosed)
  next
    case (Envelope_StreamUpsert s)
    have "pr_clock (handleStreamUpsert ext sid s p) = pr_clock p" by (simp add: handleStreamUpsert_def)
    with Some Envelope_StreamUpsert assms(2) show ?thesis by (simp add: proc_ok_handleStreamUpsert)
  next
    case (Envelope_StreamChunk c)
    with Some handleStreamChunk_total [OF assms] show ?thesis by simp
  qed (use Some assms(2) in \<open>simp_all add: proc_ok_ensure\<close>)
qed

lemma ApplyForSource_total:
  assumes "clock_ok (pr_clock p)" and "proc_ok ext p"
  shows "\<exists>p' effs. ApplyForSource ext now sid ev p = Some (p', effs) \<and> proc_ok ext p' \<and> pr_clock p' = pr_clock p"
proof (cases ev)
  case None
  with assms show ?thesis by (simp add: ApplyForSource_def)
next
  case (Some e)
  obtain p' effs where "apply_payload ext now sid (env_ObservedAtNs e) (env_Payload e) p = Some (p', effs)"
    "proc_ok ext p'" "pr_clock p' = pr_clock p"
    using apply_payload_total [OF assms] by blast
  with Some assms show ?thesis
    by (simp add: ApplyForSource_def proc_ok_ResetSource proc_ok_advance_cursor)
qed

section \<open>Runs\<close>

text \<open>Envelopes of all sources in the order the processor's mutex admits them, with the time of each.\<close>

type_synonym delivery = "time \<times> string \<times> Envelope"

primrec apply_all :: "externals \<Rightarrow> delivery list \<Rightarrow> Processor \<Rightarrow> (Processor \<times> effect list) go" where
  "apply_all ext [] p = Some (p, [])"
| "apply_all ext (d # ds) p = (case d of (now, sid, ev) \<Rightarrow>
     (case ApplyForSource ext now sid (Some ev) p of None \<Rightarrow> None
      | Some (p1, effs1) \<Rightarrow>
          (case apply_all ext ds p1 of None \<Rightarrow> None | Some (p2, effs2) \<Rightarrow> Some (p2, effs1 @ effs2))))"

definition effect_ok :: "effect \<Rightarrow> bool" where
  "effect_ok e = (case e of OnFinalize sid d \<Rightarrow> detail_ok d | OnUpdate sid s cur \<Rightarrow> ss_Slot s = cur)"

lemma detail_ok_build:
  "slots_ok slots \<Longrightarrow> buildSlotDetailLocked cur slots slot = Some d \<Longrightarrow> detail_ok d \<and> ss_Slot (sd_Summary d) = slot"
  by (auto simp: buildSlotDetail_iff slots_ok_def detail_ok_of) (simp add: detail_of_def with_finalized_def)

lemma advance_slot_finalizes:
  "slots_ok (src_slots src) \<Longrightarrow> advance_slot c now cur src = Some (Some d, slots) \<Longrightarrow>
     detail_ok d \<and> ss_Slot (sd_Summary d) = src_lastSlot src \<and> 0 < src_lastSlot src \<and> src_lastSlot src < cur"
  by (auto simp: advance_slot_def bind_eq_Some_conv split: if_splits option.splits dest: detail_ok_build)

lemma handleStreamChunk_effects:
  assumes "proc_ok ext p" and "handleStreamChunk ext now sid t c p = Some (p', effs)"
  shows "list_all effect_ok effs"
  using assms(2)
proof (cases rule: handleStreamChunk_Some)
  case (booked src st ref fd slots dec cache decoded agg)
  have ok: "slots_ok (src_slots src)" using booked(1) assms(1) by (simp add: proc_ok_def source_ok_def)
  then have "slots_ok slots"
    using booked(4) slots_ok_evict [OF ok] by (auto simp: advance_slot_def bind_eq_Some_conv split: if_splits)
  then have "ss_Slot (ag_summary agg) = ref_Slot ref" using booked(6) by (simp add: booked_aggregate_ok)
  with booked(4,8) advance_slot_finalizes [OF ok] show ?thesis
    by (auto simp: chunk_effects_def effect_ok_def split: option.split)
qed simp

lemma apply_payload_no_effects:
  "(\<And>c. pl \<noteq> Some (Envelope_StreamChunk c)) \<Longrightarrow> apply_payload ext now sid t pl p = Some (p', effs) \<Longrightarrow> effs = []"
  by (cases "(ext, now, sid, t, pl, p)" rule: apply_payload.cases) auto

lemma ApplyForSource_effects:
  assumes "proc_ok ext p" and "ApplyForSource ext now sid ev p = Some (p', effs)"
  shows "list_all effect_ok effs"
proof -
  have pl: "list_all effect_ok effs" if "apply_payload ext now sid t pl p = Some (q, effs)" for t pl q effs
  proof (cases "\<exists>c. pl = Some (Envelope_StreamChunk c)")
    case True
    with that handleStreamChunk_effects [OF assms(1)] show ?thesis by auto
  next
    case False
    with apply_payload_no_effects [OF _ that] show ?thesis by auto
  qed
  from assms(2) show ?thesis
    by (auto simp: ApplyForSource_def bind_eq_Some_conv dest: pl split: option.splits if_splits)
qed

lemma apply_all_total:
  "clock_ok (pr_clock p) \<Longrightarrow> proc_ok ext p \<Longrightarrow>
     \<exists>p' effs. apply_all ext ds p = Some (p', effs) \<and> proc_ok ext p' \<and> pr_clock p' = pr_clock p \<and> list_all effect_ok effs"
proof (induction ds arbitrary: p)
  case (Cons d ds)
  obtain now sid ev where d: "d = (now, sid, ev)" by (cases d)
  obtain p1 effs1 where 1: "ApplyForSource ext now sid (Some ev) p = Some (p1, effs1)" "proc_ok ext p1" "pr_clock p1 = pr_clock p"
    using ApplyForSource_total [OF Cons.prems] by blast
  with Cons.IH [of p1] Cons.prems(1) obtain p2 effs2 where
    "apply_all ext ds p1 = Some (p2, effs2)" "proc_ok ext p2" "pr_clock p2 = pr_clock p" "list_all effect_ok effs2"
    by auto
  with d 1 ApplyForSource_effects [OF Cons.prems(2) 1(1)] show ?case by simp
qed simp

lemma SlotDetail_ok:
  "proc_ok ext p \<Longrightarrow> SlotDetail_of now sid slot p = Some (Some d) \<Longrightarrow> detail_ok d \<and> ss_Slot (sd_Summary d) = slot"
  by (auto simp: SlotDetail_of_def proc_ok_def source_ok_def bind_eq_Some_conv split: option.splits
      dest!: detail_ok_build [rotated])

text \<open>
  C1: with a proper slot clock the processor applies any sequence of envelopes, of any sources and with
  any payloads, without a panic; every slot detail it answers afterwards and every
  detail it hands to storage is consistent: the buckets add up to the slot's byte counts,
  the bucket rows of each protocol, topic and kind add up to the row of the slot (bytes, messages,
  bleed), the bleed of each row is the sum of its distance classes, and the slot's bleed
  is the sum over its rows.
\<close>

theorem processor_accounts:
  assumes "clock_ok clock"
  shows "\<exists>p effs. apply_all ext ds (SetOnFinalize f (SetOnUpdate u (NewProcessor clock))) = Some (p, effs)
    \<and> (\<forall>now sid slot d. SlotDetail_of now sid slot p = Some (Some d) \<longrightarrow> detail_ok d \<and> ss_Slot (sd_Summary d) = slot)
    \<and> (\<forall>sid d. OnFinalize sid d \<in> set effs \<longrightarrow> detail_ok d)"
proof -
  let ?p = "SetOnFinalize f (SetOnUpdate u (NewProcessor clock))"
  have "proc_ok ext ?p" "pr_clock ?p = clock"
    by (simp_all add: SetOnFinalize_def SetOnUpdate_def NewProcessor_def proc_ok_def)
  with apply_all_total [of ?p ext ds] assms obtain p effs where
    "apply_all ext ds ?p = Some (p, effs)" "proc_ok ext p" "list_all effect_ok effs" by auto
  then show ?thesis
    using SlotDetail_ok by (fastforce simp: list_all_iff effect_ok_def)
qed

definition demo_deliveries :: "delivery list" where
  "demo_deliveries = map (\<lambda>(seq, t, pl). (t, ''s1'', \<lparr>env_Seq = seq, env_ObservedAtNs = t, env_Payload = Some pl\<rparr>))
     [(1, 1606824024 * Second, Envelope_StringDef \<lparr>def_Id = 1, def_Value = ''/ipfs/ping/1.0.0''\<rparr>),
      (2, 1606824024 * Second, Envelope_StreamUpsert \<lparr>su_StreamAlias = 5, su_ConnAlias = 4,
         su_Direction = DIRECTION_IN, su_ProtocolId = 1, su_OpenedAtNs = 0\<rparr>),
      (3, 1606824036 * Second, Envelope_StreamChunk \<lparr>ch_StreamAlias = 5, ch_Direction = DIRECTION_IN, ch_Data = [1, 2, 3]\<rparr>),
      (4, 1606824048 * Second, Envelope_StreamChunk \<lparr>ch_StreamAlias = 5, ch_Direction = DIRECTION_OUT, ch_Data = [9]\<rparr>)]"

theorem processor_accounts_witness:
  "\<exists>p effs. apply_all demo_ext demo_deliveries (SetOnFinalize True (SetOnUpdate True (NewProcessor mainnet_clock)))
       = Some (p, effs)
    \<and> (\<forall>now sid slot d. SlotDetail_of now sid slot p = Some (Some d) \<longrightarrow> detail_ok d \<and> ss_Slot (sd_Summary d) = slot)
    \<and> (\<forall>sid d. OnFinalize sid d \<in> set effs \<longrightarrow> detail_ok d)"
  by (rule processor_accounts [OF mainnet_clock_ok])

section \<open>The cursor\<close>

lemma gget_set_source [simp]:
  "gget (pr_sources (set_source sid src p)) = (gget (pr_sources p))(sid \<mapsto> src)"
  by (simp add: set_source_def fun_eq_iff)

lemma source_of_set [simp]: "source_of sid (set_source sid src p) = src"
  by (simp add: source_of_def getd_def)

lemma LastAppliedSeq_eq: "LastAppliedSeq sid p = src_lastAppliedSeq (source_of sid p)"
  by (simp add: LastAppliedSeq_def source_of_def getd_def newSourceState_def split: option.split)

lemma cursor_ensure:
  "(\<And>src. src_lastAppliedSeq (f src) = src_lastAppliedSeq src) \<Longrightarrow>
     LastAppliedSeq sid (ensureSourceLocked sid f p) = LastAppliedSeq sid p"
  by (simp add: LastAppliedSeq_eq ensureSourceLocked_def)

lemma cursor_cache [simp]: "LastAppliedSeq sid (p\<lparr>pr_cache := c\<rparr>) = LastAppliedSeq sid p"
  by (simp add: LastAppliedSeq_def)

lemma cursor_handleStreamChunk:
  assumes "handleStreamChunk ext now sid t c p = Some (p', effs)"
  shows "LastAppliedSeq sid p' = LastAppliedSeq sid p"
  using assms
proof (cases rule: handleStreamChunk_Some)
  case (booked src st ref fd slots dec cache decoded agg)
  then show ?thesis by (simp add: LastAppliedSeq_def booked_source_def)
qed simp

lemma cursor_handleStreamClosed: "LastAppliedSeq sid (handleStreamClosed sid s p) = LastAppliedSeq sid p"
  by (simp add: handleStreamClosed_def LastAppliedSeq_def split: option.split)

lemma cursor_apply_payload:
  "apply_payload ext now sid t pl p = Some (p', effs) \<Longrightarrow> LastAppliedSeq sid p' = LastAppliedSeq sid p"
  by (cases "(ext, now, sid, t, pl, p)" rule: apply_payload.cases)
    (auto simp: cursor_ensure cursor_handleStreamChunk cursor_handleStreamClosed handleStreamUpsert_def Let_def)

lemma cursor_advance: "LastAppliedSeq sid (advance_cursor seq sid p) = max seq (LastAppliedSeq sid p)"
  by (auto simp: advance_cursor_def LastAppliedSeq_eq ensureSourceLocked_def max_def)

text \<open>A live envelope carries a sequence number and is no snapshot marker.\<close>

definition live :: "Envelope \<Rightarrow> bool" where
  "live ev \<longleftrightarrow> env_Seq ev \<noteq> 0 \<and> env_Payload ev \<noteq> Some Envelope_SnapshotStart \<and> env_Payload ev \<noteq> Some Envelope_SnapshotEnd"

lemma apply_duplicate:
  assumes "live ev" and "env_Seq ev \<le> LastAppliedSeq sid p"
  shows "ApplyForSource ext now sid (Some ev) p = Some (p, [])"
proof -
  have "gget (pr_sources p) sid \<noteq> None"
    using assms by (auto simp: live_def LastAppliedSeq_def split: option.splits)
  with assms show ?thesis by (simp add: ApplyForSource_def live_def LastAppliedSeq_eq)
qed

lemma apply_advances:
  assumes "live ev" and "ApplyForSource ext now sid (Some ev) p = Some (p', effs)"
  shows "LastAppliedSeq sid p' = max (env_Seq ev) (LastAppliedSeq sid p)"
proof (cases "env_Seq ev \<le> LastAppliedSeq sid p")
  case True
  with apply_duplicate [OF assms(1)] assms(2) show ?thesis by (simp add: max_def)
next
  case False
  with assms obtain q where "apply_payload ext now sid (env_ObservedAtNs ev) (env_Payload ev) p = Some (q, effs)"
    "p' = advance_cursor (env_Seq ev) sid q"
    by (auto simp: ApplyForSource_def live_def LastAppliedSeq_eq bind_eq_Some_conv split: if_splits)
  then show ?thesis using cursor_apply_payload by (simp add: cursor_advance)
qed

text \<open>
  What a replay protocol relies on: a consumer with a cursor that ignores what it has already
  seen and moves the cursor to what it applies.  Delivering old events again then changes nothing,
  so at-least-once delivery in order has the effect of exactly-once delivery.
\<close>

locale cursor_consumer =
  fixes consume :: "'e \<Rightarrow> 's \<Rightarrow> 's option"
    and cursor :: "'s \<Rightarrow> u64"
    and seq :: "'e \<Rightarrow> u64"
    and valid :: "'e \<Rightarrow> bool"
  assumes skip: "valid e \<Longrightarrow> seq e \<le> cursor s \<Longrightarrow> consume e s = Some s"
    and advance: "valid e \<Longrightarrow> consume e s = Some s' \<Longrightarrow> cursor s' = max (seq e) (cursor s)"
begin

primrec consume_all :: "'e list \<Rightarrow> 's \<Rightarrow> 's option" where
  "consume_all [] s = Some s"
| "consume_all (e # es) s = (case consume e s of None \<Rightarrow> None | Some s' \<Rightarrow> consume_all es s')"

lemma consume_all_append:
  "consume_all (xs @ ys) s = (case consume_all xs s of None \<Rightarrow> None | Some s' \<Rightarrow> consume_all ys s')"
  by (induction xs arbitrary: s) (auto split: option.split)

lemma cursor_consume_all:
  "list_all valid xs \<Longrightarrow> consume_all xs s = Some s' \<Longrightarrow> cursor s \<le> cursor s' \<and> (\<forall>e \<in> set xs. seq e \<le> cursor s')"
proof (induction xs arbitrary: s)
  case (Cons e es)
  then obtain s1 where s1: "consume e s = Some s1" "consume_all es s1 = Some s'" by (auto split: option.splits)
  with Cons.prems(1) advance [of e s s1] have c: "cursor s1 = max (seq e) (cursor s)" by simp
  from Cons.IH [OF _ s1(2)] Cons.prems(1) have "cursor s1 \<le> cursor s'" "\<forall>e \<in> set es. seq e \<le> cursor s'" by simp_all
  with c show ?case by auto
qed simp

lemma consume_old: "list_all valid xs \<Longrightarrow> (\<And>e. e \<in> set xs \<Longrightarrow> seq e \<le> cursor s) \<Longrightarrow> consume_all xs s = Some s"
  by (induction xs) (simp_all add: skip)

lemma replay:
  assumes "list_all valid xs" and "list_all valid old" and "\<forall>e \<in> set old. \<exists>x \<in> set xs. seq e \<le> seq x"
  shows "consume_all (xs @ old @ ys) s = consume_all (xs @ ys) s"
proof (cases "consume_all xs s")
  case (Some s')
  from cursor_consume_all [OF assms(1) Some] assms(3) have "\<And>e. e \<in> set old \<Longrightarrow> seq e \<le> cursor s'"
    by (meson order_trans)
  from consume_old [OF assms(2) this] Some show ?thesis by (simp add: consume_all_append)
qed (simp add: consume_all_append)

end

text \<open>The processor as such a consumer, for one source, with the callbacks it has made so far.\<close>

definition consume_one :: "externals \<Rightarrow> string \<Rightarrow> time \<times> Envelope \<Rightarrow> Processor \<times> effect list \<Rightarrow> (Processor \<times> effect list) option" where
  "consume_one ext sid e s =
     (case ApplyForSource ext (fst e) sid (Some (snd e)) (fst s) of None \<Rightarrow> None
      | Some (p, effs) \<Rightarrow> Some (p, snd s @ effs))"

interpretation source: cursor_consumer "consume_one ext sid" "\<lambda>s. LastAppliedSeq sid (fst s)" "\<lambda>e. env_Seq (snd e)"
  "\<lambda>e. live (snd e)" for ext sid
  by unfold_locales (auto simp: consume_one_def apply_duplicate dest: apply_advances split: option.splits)

lemma consume_all_apply_all:
  "source.consume_all ext sid es (p, effs) =
     (case apply_all ext (map (\<lambda>(now, ev). (now, sid, ev)) es) p of None \<Rightarrow> None
      | Some (p', effs') \<Rightarrow> Some (p', effs @ effs'))"
  by (induction es arbitrary: p effs) (auto simp: consume_one_def split: option.split)

text \<open>
  C2: reconnecting is harmless: if a source's live envelopes \<open>xs\<close> have been applied, and after a
  reconnect the probe sends any envelopes with numbers up to one already delivered again
  (in any order, at any time) before it goes on with \<open>ys\<close>, then the processor ends in exactly the
  state, and has made exactly the callbacks, of delivering \<open>xs\<close> and \<open>ys\<close> once.
\<close>

theorem replay_exactly_once:
  assumes "\<forall>e \<in> set xs \<union> set old. live (snd e)"
    and "\<forall>e \<in> set old. \<exists>x \<in> set xs. env_Seq (snd e) \<le> env_Seq (snd x)"
  shows "apply_all ext (map (\<lambda>(now, ev). (now, sid, ev)) (xs @ old @ ys)) p
    = apply_all ext (map (\<lambda>(now, ev). (now, sid, ev)) (xs @ ys)) p"
proof -
  have "source.consume_all ext sid (xs @ old @ ys) (p, []) = source.consume_all ext sid (xs @ ys) (p, [])"
    using assms by (intro source.replay) (auto simp: list_all_iff)
  then show ?thesis unfolding consume_all_apply_all by (auto split: option.splits)
qed

definition demo_live :: "u64 \<Rightarrow> string \<Rightarrow> time \<times> Envelope" where
  "demo_live n v = (5, \<lparr>env_Seq = n, env_ObservedAtNs = 5, env_Payload = Some (Envelope_StringDef \<lparr>def_Id = 1, def_Value = v\<rparr>)\<rparr>)"

theorem replay_exactly_once_witness:
  "apply_all demo_ext (map (\<lambda>(now, ev). (now, ''s1'', ev))
      ([demo_live 1 ''a'', demo_live 2 ''b''] @ [demo_live 1 ''a'', demo_live 2 ''b''] @ [demo_live 3 ''c''])) (NewProcessor mainnet_clock)
   = apply_all demo_ext (map (\<lambda>(now, ev). (now, ''s1'', ev))
      ([demo_live 1 ''a'', demo_live 2 ''b''] @ [demo_live 3 ''c''])) (NewProcessor mainnet_clock)"
  by (rule replay_exactly_once) (auto simp: demo_live_def live_def)

text \<open>
  The cursor is the highest applied number, not the end of a gap-free prefix: once a later live
  envelope has been applied, an earlier one that was skipped is ignored when it arrives, and the
  number reported at the next handshake makes the probe start its replay after it, so it is lost.
\<close>

lemma skipped_envelope_is_lost:
  assumes "live e" and "live later" and "env_Seq e < env_Seq later"
    and "ApplyForSource ext now sid (Some later) p = Some (p', effs)"
  shows "ApplyForSource ext now' sid (Some e) p' = Some (p', []) \<and> env_Seq e < LastAppliedSeq sid p'"
  using apply_advances [OF assms(2,4)] assms(3) apply_duplicate [OF assms(1), of sid p']
  by (simp add: less_max_iff_disj le_max_iff_disj less_imp_le)

section \<open>Isolation and resets\<close>

definition effect_source :: "effect \<Rightarrow> string" where
  "effect_source e = (case e of OnFinalize sid d \<Rightarrow> sid | OnUpdate sid s cur \<Rightarrow> sid)"

lemma other_ensure [simp]: "sid' \<noteq> sid \<Longrightarrow> gget (pr_sources (ensureSourceLocked sid f p)) sid' = gget (pr_sources p) sid'"
  by (simp add: ensureSourceLocked_def)

lemma other_handleStreamChunk:
  assumes "handleStreamChunk ext now sid t c p = Some (p', effs)" and "sid' \<noteq> sid"
  shows "gget (pr_sources p') sid' = gget (pr_sources p) sid' \<and> (\<forall>e \<in> set effs. effect_source e = sid)"
  using assms(1)
proof (cases rule: handleStreamChunk_Some)
  case (booked src st ref fd slots dec cache decoded agg)
  then show ?thesis using assms(2) by (auto simp: chunk_effects_def effect_source_def split: option.splits if_splits)
qed simp

lemma other_apply_payload:
  "apply_payload ext now sid t pl p = Some (p', effs) \<Longrightarrow> sid' \<noteq> sid \<Longrightarrow>
     gget (pr_sources p') sid' = gget (pr_sources p) sid' \<and> (\<forall>e \<in> set effs. effect_source e = sid)"
  by (cases "(ext, now, sid, t, pl, p)" rule: apply_payload.cases)
    (auto simp: handleStreamUpsert_def handleStreamClosed_def dest: other_handleStreamChunk split: option.splits)

lemma other_source:
  assumes "ApplyForSource ext now sid ev p = Some (p', effs)" and "sid' \<noteq> sid"
  shows "gget (pr_sources p') sid' = gget (pr_sources p) sid' \<and> (\<forall>e \<in> set effs. effect_source e = sid)"
proof -
  have "gget (pr_sources (ResetSource sid p)) sid' = gget (pr_sources p) sid'"
    using assms(2) by (simp add: ResetSource_def split: option.split)
  moreover have "gget (pr_sources (advance_cursor n sid q)) sid' = gget (pr_sources q) sid'" for n q
    using assms(2) by (simp add: advance_cursor_def)
  ultimately show ?thesis
    using assms other_apply_payload [OF _ assms(2)]
    by (auto simp: ApplyForSource_def bind_eq_Some_conv split: option.splits if_splits)
qed

text \<open>
  C30: sources are isolated: applying an envelope for one source leaves the whole state of every
  other source unchanged, and every callback it makes names the source it was applied for.
\<close>

theorem sources_isolated:
  assumes "ApplyForSource ext now sid ev p = Some (p', effs)" and "sid' \<noteq> sid"
  shows "gget (pr_sources p') sid' = gget (pr_sources p) sid' \<and> (\<forall>e \<in> set effs. effect_source e = sid)"
  by (rule other_source [OF assms])

theorem sources_isolated_witness:
  "gget (pr_sources (advance_cursor 8 ''s1'' (ensureSourceLocked ''s1'' (\<lambda>src. src\<lparr>src_strings := gput 1 ''b'' (src_strings src)\<rparr>)
     (NewProcessor mainnet_clock)))) ''s2'' = gget (pr_sources (NewProcessor mainnet_clock)) ''s2''"
  by (rule conjunct1 [OF sources_isolated [of demo_ext 5 "''s1''" "Some (snd (demo_live 8 ''b''))" _ _ "[]"]])
    (simp_all add: ApplyForSource_def demo_live_def NewProcessor_def)

text \<open>
  a snapshot replaces what the processor knows of the probe and keeps what it has counted: after
  \<open>SnapshotStart\<close> a known source has no strings, streams or peers and the cursor zero, so that
  any live number is accepted again, while its slots and its last slot are untouched.
\<close>

lemma snapshot_start_resets:
  assumes "gget (pr_sources p) sid = Some src" and "env_Payload ev = Some Envelope_SnapshotStart"
  shows "\<exists>p' src'. ApplyForSource ext now sid (Some ev) p = Some (p', []) \<and> gget (pr_sources p') sid = Some src'
    \<and> src_strings src' = [] \<and> src_streams src' = [] \<and> open_conn (src_peers src') = Map.empty
    \<and> PeerCount sid p' = 0 \<and> LastAppliedSeq sid p' = 0
    \<and> src_slots src' = src_slots src \<and> src_lastSlot src' = src_lastSlot src \<and> pr_cache p' = pr_cache p"
  using assms by (simp add: ApplyForSource_def ResetSource_def PeerCount_def LastAppliedSeq_def Clear_def
      open_conn_def Count_def fun_eq_iff) (simp add: set_source_def)

section \<open>Finalization and eviction\<close>

lemma oldest_slot_mem: "ks \<noteq> [] \<Longrightarrow> oldest_slot ks \<in> set ks"
proof -
  have "foldl (\<lambda>oldest s. if oldest = 0 \<or> s < oldest then s else oldest) a ks \<in> insert a (set ks)" for a :: u64 and ks
  proof (induction ks arbitrary: a)
    case (Cons x xs)
    then show ?case using Cons.IH [of x] Cons.IH [of a] by auto
  qed simp
  then show "ks \<noteq> [] \<Longrightarrow> oldest_slot ks \<in> set ks"
    by (cases ks) (auto simp: oldest_slot_def)
qed

lemma oldest_slot_least:
  assumes "0 \<notin> set ks" and "k \<in> set ks"
  shows "oldest_slot ks \<le> k"
proof -
  have "a \<noteq> 0 \<Longrightarrow> 0 \<notin> set ks \<Longrightarrow>
      foldl (\<lambda>oldest s. if oldest = 0 \<or> s < oldest then s else oldest) a ks \<le> a
      \<and> (\<forall>k \<in> set ks. foldl (\<lambda>oldest s. if oldest = 0 \<or> s < oldest then s else oldest) a ks \<le> k)" for a :: u64 and ks
  proof (induction ks arbitrary: a)
    case (Cons x xs)
    from Cons.prems have ih: "foldl (\<lambda>oldest s. if oldest = 0 \<or> s < oldest then s else oldest) b xs \<le> b
        \<and> (\<forall>k \<in> set xs. foldl (\<lambda>oldest s. if oldest = 0 \<or> s < oldest then s else oldest) b xs \<le> k)"
      if "b \<noteq> 0" for b using Cons.IH that by simp
    show ?case using ih [of x] ih [of a] Cons.prems by (auto intro: order_trans)
  qed simp
  then show ?thesis using assms by (cases ks) (auto simp: oldest_slot_def)
qed

text \<open>
  The loop takes 0 for \<open>nothing found yet\<close>.  With slot 0 in memory the slot it
  evicts depends on the order of iteration and need not be the oldest.
\<close>

theorem oldest_slot_zero: "oldest_slot [0, 9, 5] = 5 \<and> oldest_slot [9, 5, 0] = 0"
  by (simp add: oldest_slot_def)

lemma length_evict: "gm_ok slots \<Longrightarrow> length slots \<le> 257 \<Longrightarrow> length (evict slots) \<le> 256"
proof (cases "length slots > 256")
  case True
  assume ok: "gm_ok slots" and le: "length slots \<le> 257"
  from True have "map fst slots \<noteq> []" by auto
  from oldest_slot_mem [OF this] have "gget slots (oldest_slot (map fst slots)) \<noteq> None"
    by (simp only: map_of_eq_None_iff) simp
  from length_gdel_mem [OF ok this] True le show ?thesis by (simp add: evict_def)
qed (simp add: evict_def)

definition finalized :: "string \<Rightarrow> effect list \<Rightarrow> u64 list" where
  "finalized sid effs = concat (map (\<lambda>e. case e of
     OnFinalize sid' d \<Rightarrow> if sid' = sid then [ss_Slot (sd_Summary d)] else [] | OnUpdate _ _ _ \<Rightarrow> []) effs)"

lemma finalized_simps [simp]: "finalized sid [] = []" "finalized sid (xs @ ys) = finalized sid xs @ finalized sid ys"
  by (simp_all add: finalized_def)

lemma finalized_other: "\<forall>e \<in> set effs. effect_source e = sid' \<Longrightarrow> sid' \<noteq> sid \<Longrightarrow> finalized sid effs = []"
  by (induction effs) (auto simp: finalized_def effect_source_def split: effect.splits)

text \<open>
  At most 257 slots are kept, as long as slots do not go backwards.  While the last slot is 0 no
  other slot has been seen.
\<close>

definition bounded :: "sourceState \<Rightarrow> bool" where
  "bounded src \<longleftrightarrow> length (src_slots src) \<le> 257 \<and> (src_lastSlot src = 0 \<longrightarrow> dom (gget (src_slots src)) \<subseteq> {0})"

lemma length_single: "gm_ok m \<Longrightarrow> dom (gget m) \<subseteq> {k} \<Longrightarrow> length m \<le> 1"
proof -
  assume "gm_ok m" and sub: "dom (gget m) \<subseteq> {k}"
  then have "length m = card (gkeys m)" using distinct_card [of "map fst m"] by (simp add: gm_ok_def)
  also have "\<dots> \<le> card {k}" using sub by (intro card_mono) (simp_all add: dom_map_of_conv_image_fst)
  finally show ?thesis by simp
qed

lemma advance_slot_bounded:
  assumes "source_ok ext src" and "bounded src" and "src_lastSlot src \<le> cur"
    and "advance_slot c now cur src = Some (fd, slots)"
  shows "length (gput cur a slots) \<le> 257 \<and> (cur = 0 \<longrightarrow> dom (gget (gput cur a slots)) \<subseteq> {0})"
proof -
  have ok: "gm_ok (src_slots src)" using assms(1) by (simp add: source_ok_def slots_ok_def)
  have grow: "length (gput cur a m) \<le> Suc (length m)" for m :: slot_map by (simp add: length_gput)
  consider (zero) "src_lastSlot src = 0" "slots = src_slots src"
    | (same) "src_lastSlot src = cur" "cur \<noteq> 0" "slots = src_slots src"
    | (later) "slots = evict (src_slots src)" "cur \<noteq> 0"
  proof (cases "src_lastSlot src > 0 \<and> cur > src_lastSlot src")
    case True
    with assms(4) have "slots = evict (src_slots src)" by (auto simp: advance_slot_def bind_eq_Some_conv)
    moreover from True have "cur \<noteq> 0" by auto
    ultimately show ?thesis by (rule later)
  next
    case False
    with assms(4) have "slots = src_slots src" by (auto simp: advance_slot_def)
    moreover from False assms(3) have "src_lastSlot src = 0 \<or> src_lastSlot src = cur \<and> cur \<noteq> 0"
      by (auto simp: word_gt_0)
    ultimately show ?thesis using zero same by blast
  qed
  then show ?thesis
  proof cases
    case zero
    with assms(2) have d: "dom (gget slots) \<subseteq> {0}" by (simp add: bounded_def)
    then have "dom (gget (gput 0 a slots)) \<subseteq> {0}" by (simp del: fun_upd_apply)
    with length_single [OF _ d] ok zero(2) grow [of slots] show ?thesis by simp
  next
    case same
    with assms(1) have "gget slots cur \<noteq> None" by (auto simp: source_ok_def)
    with same assms(2) show ?thesis by (auto simp: length_gput bounded_def)
  next
    case later
    with length_evict [OF ok] assms(2) grow [of slots] show ?thesis by (simp add: bounded_def)
  qed
qed

text \<open>What one step does to the slots of the source: nothing, or it books a chunk in some slot.\<close>

definition slot_step :: "Processor \<Rightarrow> int \<Rightarrow> sourceState \<Rightarrow> sourceState \<Rightarrow> u64 list \<Rightarrow> bool" where
  "slot_step p t src src' fin \<longleftrightarrow>
     src_lastSlot src' = src_lastSlot src \<and> src_slots src' = src_slots src \<and> fin = []
     \<or> (\<exists>r. At (pr_clock p) t = Some (Some r) \<and> src_lastSlot src' = ref_Slot r
          \<and> fin = (if pr_onFinalize p \<and> 0 < src_lastSlot src \<and> src_lastSlot src < ref_Slot r then [src_lastSlot src] else [])
          \<and> (src_lastSlot src \<le> ref_Slot r \<longrightarrow> bounded src \<longrightarrow> bounded src'))"

lemma advance_slot_fd:
  assumes "source_ok ext src" and "advance_slot c now cur src = Some (fd, slots)"
  shows "(case fd of None \<Rightarrow> [] | Some d \<Rightarrow> [ss_Slot (sd_Summary d)])
    = (if 0 < src_lastSlot src \<and> src_lastSlot src < cur then [src_lastSlot src] else [])"
proof (cases "0 < src_lastSlot src \<and> src_lastSlot src < cur")
  case True
  with assms(1) obtain agg where "gget (src_slots src) (src_lastSlot src) = Some agg"
    by (auto simp: source_ok_def word_neq_0_conv)
  with True assms(2) obtain d where fd: "fd = Some d"
    by (auto simp: advance_slot_def buildSlotDetail_iff bind_eq_Some_conv)
  have "slots_ok (src_slots src)" using assms(1) by (simp add: source_ok_def)
  from advance_slot_finalizes [OF this] assms(2) fd True show ?thesis by simp
next
  case False
  with assms(2) show ?thesis by (auto simp: advance_slot_def)
qed

lemma slot_step_chunk:
  assumes "proc_ok ext p" and "handleStreamChunk ext now sid t c p = Some (p', effs)"
  shows "slot_step p t (source_of sid p) (source_of sid p') (finalized sid effs)"
  using assms(2)
proof (cases rule: handleStreamChunk_Some)
  case (booked src st ref fd slots dec cache decoded agg)
  have src: "source_of sid p = src" using booked(1) by (simp add: source_of_def getd_def)
  have src': "source_of sid p' = booked_source ref agg slots (ch_StreamAlias c) (st\<lparr>st_decoder := dec\<rparr>) src"
    using booked(7) by (simp add: source_of_def getd_def)
  have ok: "source_ok ext src" using booked(1) assms(1) by (simp add: proc_ok_def)
  have "finalized sid effs = (if pr_onFinalize p then (case fd of None \<Rightarrow> [] | Some d \<Rightarrow> [ss_Slot (sd_Summary d)]) else [])"
    using booked(8) by (simp add: chunk_effects_def finalized_def split: option.split)
  then have "finalized sid effs = (if pr_onFinalize p \<and> 0 < src_lastSlot src \<and> src_lastSlot src < ref_Slot ref
      then [src_lastSlot src] else [])"
    by (simp add: advance_slot_fd [OF ok booked(4)])
  moreover have "src_lastSlot src \<le> ref_Slot ref \<longrightarrow> bounded src \<longrightarrow> bounded (source_of sid p')"
  proof (intro impI)
    assume "src_lastSlot src \<le> ref_Slot ref" "bounded src"
    from advance_slot_bounded [OF ok this(2,1) booked(4), of agg] show "bounded (source_of sid p')"
      unfolding src' bounded_def booked_source_def by (simp del: gget_gput)
  qed
  ultimately show ?thesis
    unfolding slot_step_def src using booked(3) src' by (auto simp: booked_source_def)
qed (simp add: slot_step_def)

lemma slot_step_refl: "source_of sid p' = source_of sid p \<Longrightarrow> fin = [] \<Longrightarrow> slot_step p t (source_of sid p) (source_of sid p') fin"
  by (simp add: slot_step_def)

lemma slot_step_frame:
  "src_lastSlot (f (source_of sid p)) = src_lastSlot (source_of sid p) \<Longrightarrow> src_slots (f (source_of sid p)) = src_slots (source_of sid p) \<Longrightarrow>
   slot_step p t (source_of sid p) (source_of sid (ensureSourceLocked sid f p)) []"
  by (simp add: slot_step_def ensureSourceLocked_def)

lemma slot_step_closed: "slot_step p t (source_of sid p) (source_of sid (handleStreamClosed sid s p)) []"
  by (auto simp: slot_step_def handleStreamClosed_def source_of_def getd_def split: option.split)

lemma slot_step_payload:
  "proc_ok ext p \<Longrightarrow> apply_payload ext now sid t pl p = Some (p', effs) \<Longrightarrow>
     slot_step p t (source_of sid p) (source_of sid p') (finalized sid effs)"
  by (cases "(ext, now, sid, t, pl, p)" rule: apply_payload.cases)
    (auto simp: slot_step_frame slot_step_closed slot_step_chunk handleStreamUpsert_def Let_def intro: slot_step_refl)

lemma slot_step_cursor:
  "slot_step p t src (source_of sid q) fin \<Longrightarrow> slot_step p t src (source_of sid (advance_cursor n sid q)) fin"
  by (auto simp: slot_step_def advance_cursor_def ensureSourceLocked_def bounded_def)

lemma slot_step_reset: "slot_step p t (source_of sid p) (source_of sid (ResetSource sid p)) []"
  by (auto simp: slot_step_def ResetSource_def source_of_def getd_def split: option.split)

lemma slot_step_apply:
  assumes "proc_ok ext p" and "ApplyForSource ext now sid (Some ev) p = Some (p', effs)"
  shows "slot_step p (env_ObservedAtNs ev) (source_of sid p) (source_of sid p') (finalized sid effs)"
  using assms(2) slot_step_payload [OF assms(1)] slot_step_reset
  by (auto simp: ApplyForSource_def bind_eq_Some_conv intro: slot_step_refl slot_step_cursor split: if_splits)

lemma onFinalize_frame:
  assumes "ApplyForSource ext now sid ev p = Some (p', effs)"
  shows "pr_onFinalize p' = pr_onFinalize p"
proof -
  have "pr_onFinalize q = pr_onFinalize p" if "handleStreamChunk ext now sid t c p = Some (q, e)" for t c q e
    using that by (cases rule: handleStreamChunk_Some) (simp_all add: set_source_def)
  then have "pr_onFinalize q = pr_onFinalize p" if "apply_payload ext now sid t pl p = Some (q, e)" for t pl q e
    using that by (cases "(ext, now, sid, t, pl, p)" rule: apply_payload.cases)
      (auto simp: ensureSourceLocked_def set_source_def handleStreamUpsert_def handleStreamClosed_def split: option.splits)
  with assms show ?thesis
    by (auto simp: ApplyForSource_def ResetSource_def advance_cursor_def ensureSourceLocked_def set_source_def
        bind_eq_Some_conv split: option.splits if_splits)
qed

abbreviation observed :: "delivery \<Rightarrow> int" where
  "observed d \<equiv> env_ObservedAtNs (snd (snd d))"

lemma run_slots:
  assumes "clock_ok (pr_clock p)" and "proc_ok ext p" and "apply_all ext ds p = Some (p', effs)"
    and "sorted (map observed ds)" and "bounded (source_of sid p)"
    and "\<And>d r. d \<in> set ds \<Longrightarrow> At (pr_clock p) (observed d) = Some (Some r) \<Longrightarrow> src_lastSlot (source_of sid p) \<le> ref_Slot r"
  shows "sorted_wrt (<) (finalized sid effs) \<and> (\<forall>f \<in> set (finalized sid effs). src_lastSlot (source_of sid p) \<le> f)
    \<and> bounded (source_of sid p')"
  using assms
proof (induction ds arbitrary: p effs)
  case (Cons d ds)
  obtain now sid' ev where d: "d = (now, sid', ev)" by (cases d)
  from Cons.prems(3) d obtain p1 effs1 effs2 where
    1: "ApplyForSource ext now sid' (Some ev) p = Some (p1, effs1)" and
    2: "apply_all ext ds p1 = Some (p', effs2)" and effs: "effs = effs1 @ effs2"
    by (auto split: option.splits)
  from ApplyForSource_total [OF Cons.prems(1,2), of now sid' "Some ev"] 1
  have ok1: "proc_ok ext p1" "pr_clock p1 = pr_clock p" by auto
  have step: "slot_step p (env_ObservedAtNs ev) (source_of sid p) (source_of sid p1) (finalized sid effs1)"
  proof (cases "sid' = sid")
    case True
    with slot_step_apply [OF Cons.prems(2) 1] show ?thesis by simp
  next
    case False
    from other_source [OF 1] False have "source_of sid p1 = source_of sid p" "finalized sid effs1 = []"
      by (auto simp: source_of_def getd_def intro: finalized_other)
    then show ?thesis by (simp add: slot_step_def)
  qed
  have le: "At (pr_clock p) (env_ObservedAtNs ev) = Some (Some r) \<Longrightarrow> src_lastSlot (source_of sid p) \<le> ref_Slot r" for r
    using Cons.prems(6) [of d r] d by simp
  have b1: "bounded (source_of sid p1)" and m1: "src_lastSlot (source_of sid p) \<le> src_lastSlot (source_of sid p1)"
    and f1: "finalized sid effs1 = [] \<or> finalized sid effs1 = [src_lastSlot (source_of sid p)]
      \<and> src_lastSlot (source_of sid p) < src_lastSlot (source_of sid p1)"
    using step le Cons.prems(5) by (auto simp: slot_step_def bounded_def split: if_splits)
  have ih: "sorted_wrt (<) (finalized sid effs2) \<and> (\<forall>f \<in> set (finalized sid effs2). src_lastSlot (source_of sid p1) \<le> f)
      \<and> bounded (source_of sid p')"
  proof (rule Cons.IH [OF _ ok1(1) 2 _ b1])
    show "clock_ok (pr_clock p1)" "sorted (map observed ds)" using Cons.prems(1,4) ok1(2) by simp_all
    fix d' r' assume d': "d' \<in> set ds" and r': "At (pr_clock p1) (observed d') = Some (Some r')"
    have t: "env_ObservedAtNs ev \<le> observed d'" using Cons.prems(4) d d' by simp
    show "src_lastSlot (source_of sid p1) \<le> ref_Slot r'"
      using step Cons.prems(6) [of d' r'] d' r' ok1(2) At_mono [OF Cons.prems(1) t]
      by (auto simp: slot_step_def)
  qed
  then show ?case using effs f1 m1 by (auto simp: sorted_wrt_append)
qed simp

text \<open>
  C11: as long as the observed times do not go backwards, no slot of a source is handed to storage
  twice and slots are handed over in increasing order, and the processor keeps at most 257 slot
  aggregates per source, whatever the envelopes contain and however long it runs.
\<close>

theorem finalized_once_bounded:
  assumes "clock_ok clock" and "sorted (map observed ds)"
    and "apply_all ext ds (SetOnFinalize f (SetOnUpdate u (NewProcessor clock))) = Some (p, effs)"
  shows "sorted_wrt (<) (finalized sid effs)
    \<and> (\<forall>src. gget (pr_sources p) sid = Some src \<longrightarrow> length (src_slots src) \<le> 257)"
proof -
  let ?p = "SetOnFinalize f (SetOnUpdate u (NewProcessor clock))"
  have "pr_clock ?p = clock" "proc_ok ext ?p" "source_of sid ?p = newSourceState"
    by (simp_all add: SetOnFinalize_def SetOnUpdate_def NewProcessor_def proc_ok_def source_of_def getd_def)
  with run_slots [OF _ _ assms(3,2), of sid] assms(1)
  have "sorted_wrt (<) (finalized sid effs)" "bounded (source_of sid p)"
    by (simp_all add: bounded_def newSourceState_def)
  then show ?thesis by (auto simp: bounded_def source_of_def getd_def)
qed

text \<open>
  C17: a slot is handed to storage when the source moves on: when a chunk of a known stream is
  booked in a slot later than the last one and storage is attached, the detail of the last slot is handed
  over, whenever that slot is not slot 0; a chunk of the same or an earlier slot hands nothing over.
\<close>

theorem finalized_on_leave:
  assumes "proc_ok ext p" and "handleStreamChunk ext now sid t c p = Some (p', effs)"
    and "gget (pr_sources p) sid = Some src" and "gget (src_streams src) (ch_StreamAlias c) = Some st"
    and "At (pr_clock p) t = Some (Some ref)" and "pr_onFinalize p"
  shows "finalized sid effs = (if 0 < src_lastSlot src \<and> src_lastSlot src < ref_Slot ref then [src_lastSlot src] else [])
    \<and> (\<exists>src'. gget (pr_sources p') sid = Some src' \<and> src_lastSlot src' = ref_Slot ref)"
proof -
  from assms(2) obtain fd slots dec cache decoded where
    adv: "advance_slot (pr_clock p) now (ref_Slot ref) src = Some (fd, slots)" and
    p': "p' = (set_source sid (booked_source ref (booked_aggregate ref t c (st_protocol st) decoded slots) slots
        (ch_StreamAlias c) (st\<lparr>st_decoder := dec\<rparr>) src) p)\<lparr>pr_cache := cache\<rparr>" and
    effs: "effs = chunk_effects p sid fd (ag_summary (booked_aggregate ref t c (st_protocol st) decoded slots)) (ref_Slot ref)"
    unfolding handleStreamChunk_booked [OF assms(3-5)] by (auto simp: Let_def split: option.splits)
  have ok: "source_ok ext src" using assms(1,3) by (simp add: proc_ok_def)
  have "finalized sid effs = (case fd of None \<Rightarrow> [] | Some d \<Rightarrow> [ss_Slot (sd_Summary d)])"
    using effs assms(6) by (simp add: chunk_effects_def finalized_def split: option.split)
  with advance_slot_fd [OF ok adv] p' show ?thesis by (simp add: booked_source_def)
qed

definition demo_start :: Processor where
  "demo_start = SetOnFinalize True (SetOnUpdate True (NewProcessor mainnet_clock))"

theorem finalized_once_bounded_witness:
  "sorted_wrt (<) (finalized ''s1'' (snd (the (apply_all demo_ext demo_deliveries demo_start))))
    \<and> length (src_slots (source_of ''s1'' (fst (the (apply_all demo_ext demo_deliveries demo_start))))) \<le> 257"
proof -
  have srt: "sorted (map observed demo_deliveries)" by (simp add: demo_deliveries_def Second_def)
  have "proc_ok demo_ext demo_start" "pr_clock demo_start = mainnet_clock"
    by (simp_all add: demo_start_def SetOnFinalize_def SetOnUpdate_def NewProcessor_def proc_ok_def)
  with apply_all_total [of demo_start demo_ext demo_deliveries] mainnet_clock_ok
  have "apply_all demo_ext demo_deliveries (SetOnFinalize True (SetOnUpdate True (NewProcessor mainnet_clock)))
      = Some (fst (the (apply_all demo_ext demo_deliveries demo_start)), snd (the (apply_all demo_ext demo_deliveries demo_start)))"
    by (auto simp: demo_start_def)
  from finalized_once_bounded [OF mainnet_clock_ok srt this, of "''s1''"] show ?thesis
    by (auto simp: source_of_def getd_def newSourceState_def split: option.split)
qed

definition demo_ref :: "u64 \<Rightarrow> SlotRef" where
  "demo_ref n = \<lparr>ref_Slot = n, ref_Epoch = 0, ref_SlotStart = (1606824023 + uint n * 12) * Second,
     ref_SlotEnd = (1606824035 + uint n * 12) * Second, ref_Offset = 0, ref_OffsetMillis = 0\<rparr>"

definition demo_source :: sourceState where
  "demo_source = newSourceState\<lparr>src_streams := [(5, \<lparr>st_protocol = ''/ipfs/ping/1.0.0'', st_decoder = None\<rparr>)],
     src_slots := [(1, new_aggregate (demo_ref 1))], src_lastSlot := 1\<rparr>"

definition demo_chunk :: StreamChunk where
  "demo_chunk = \<lparr>ch_StreamAlias = 5, ch_Direction = DIRECTION_IN, ch_Data = [1, 2, 3]\<rparr>"

lemma demo_At: "At mainnet_clock (1606824047 * Second) = Some (Some (demo_ref 2))"
  by (simp add: At_def mainnet_clock_def NewSlotClock_def demo_ref_def time_sub_def slotDuration_def i64_def to_i64_def
      max_i64_def min_i64_def Second_def Millisecond_def to_u64_def DefaultSlotsPerEpoch_def Let_def
      signed_divide_int_def signed_modulo_int_def)

lemma demo_source_ok: "proc_ok ext (set_source ''s1'' demo_source demo_start)"
  by (simp add: proc_ok_def demo_start_def SetOnFinalize_def SetOnUpdate_def NewProcessor_def source_ok_def
      demo_source_def newSourceState_def slots_ok_def agg_ok_new stream_ok_def set_source_def)
    (simp add: new_aggregate_def demo_ref_def)

theorem finalized_on_leave_witness:
  "finalized ''s1'' (snd (the (handleStreamChunk demo_ext 0 ''s1'' (1606824047 * Second) demo_chunk (set_source ''s1'' demo_source demo_start)))) = [1]"
proof -
  let ?p = "set_source ''s1'' demo_source demo_start" and ?t = "1606824047 * Second"
  have clk: "pr_clock ?p = mainnet_clock" "pr_onFinalize ?p"
    by (simp_all add: demo_start_def SetOnFinalize_def SetOnUpdate_def NewProcessor_def set_source_def)
  with handleStreamChunk_total [OF _ demo_source_ok, of demo_ext 0 "''s1''" ?t demo_chunk] mainnet_clock_ok
  have "handleStreamChunk demo_ext 0 ''s1'' ?t demo_chunk ?p
      = Some (fst (the (handleStreamChunk demo_ext 0 ''s1'' ?t demo_chunk ?p)), snd (the (handleStreamChunk demo_ext 0 ''s1'' ?t demo_chunk ?p)))"
    by auto
  from finalized_on_leave [OF demo_source_ok this, of demo_source "\<lparr>st_protocol = ''/ipfs/ping/1.0.0'', st_decoder = None\<rparr>" "demo_ref 2"]
  show ?thesis using clk demo_At by (simp add: demo_source_def demo_chunk_def demo_ref_def)
qed

section \<open>Where the bytes of a chunk go\<close>

definition row_bytes :: "slotAggregate \<Rightarrow> u64" where
  "row_bytes agg = gsum bb_BytesIn (ag_breakdown agg) + gsum bb_BytesOut (ag_breakdown agg)"

lemma row_bytes_breakdown:
  "row_bytes (addBreakdownLocked off dir n pr to mk dist agg) = row_bytes agg + (gain_in dir n + gain_out dir n)"
  by (simp add: row_bytes_def addBreakdownLocked_def Let_def row_in.gsum_book row_out.gsum_book)

lemma row_bytes_raw: "row_bytes (addRawTrafficLocked t ms dir n agg) = row_bytes agg"
  by (simp add: row_bytes_def addRawTrafficLocked_def Let_def)

lemma row_bytes_meta: "row_bytes (map_meta f agg) = row_bytes agg"
  by (simp add: row_bytes_def)

lemma row_bytes_emit:
  "dir = DIRECTION_IN \<or> dir = DIRECTION_OUT \<Longrightarrow>
     row_bytes (emit ref off dir pr em agg) = row_bytes agg + to_u64 (em_wireBytes em)"
  by (auto simp: emit_def Let_def row_bytes_meta row_bytes_breakdown gains)

lemma to_u64_add: "to_u64 (a + b) = to_u64 a + to_u64 b"
  unfolding to_u64_def by (rule wi_hom_add [symmetric])

lemma to_u64_simps [simp]: "to_u64 0 = 0" "to_u64 (int n) = of_nat n"
  by (simp_all add: to_u64_def)

lemma row_bytes_emits:
  "dir = DIRECTION_IN \<or> dir = DIRECTION_OUT \<Longrightarrow>
     row_bytes (fold (emit ref off dir pr) ems agg) = row_bytes agg + to_u64 (emitted_bytes ems)"
  by (induction ems arbitrary: agg) (simp_all add: row_bytes_emit to_u64_add add.assoc)

definition buffered_bytes :: "Direction \<Rightarrow> instance_state \<Rightarrow> nat" where
  "buffered_bytes dir i = (if dir = DIRECTION_IN then BufferedRead i else BufferedWrite i)"


text \<open>
  After an error the whole chunk is booked as \<open>decode_error\<close> on top of what was emitted for the
  frames before the error: those bytes count twice.
\<close>

theorem decode_error_books_twice:
  "dir = DIRECTION_IN \<or> dir = DIRECTION_OUT \<Longrightarrow>
     row_bytes (book_chunk ref t dir (of_nat (length data)) pr (Some (ems, True)) agg)
       = row_bytes agg + to_u64 (emitted_bytes ems) + of_nat (length data)"
  by (auto simp: book_chunk_def Let_def row_bytes_breakdown row_bytes_emits row_bytes_raw gains)

definition demo_instance :: instance_state where
  "demo_instance = \<lparr>i_in = newVarintRPC DefaultMaxRPCSize, i_out = newVarintRPC DefaultMaxRPCSize, i_msgDecoder = None\<rparr>"


section \<open>Listing slots\<close>

definition slot_matches :: "(string \<Rightarrow> string) \<Rightarrow> string \<Rightarrow> SlotSummary \<Rightarrow> bool" where
  "slot_matches uni search s \<longleftrightarrow> (let text = TrimSpace (ToLower uni search) in
     text = [] \<or> (\<exists>a b. ToLower uni (TrimSpace (summaryString s)) = a @ text @ b))"

definition live_slots :: "(string \<Rightarrow> string) \<Rightarrow> u64 \<Rightarrow> string \<Rightarrow> sourceState \<Rightarrow> SlotSummary set" where
  "live_slots uni cur search src = {s. slot_matches uni search s
     \<and> (\<exists>agg. gget (src_slots src) (ss_Slot s) = Some agg \<and> s = (ag_summary agg)\<lparr>ss_Finalized := ss_Slot s < cur\<rparr>)}"

lemma live_slots_eq:
  assumes "slots_ok (src_slots src)"
  shows "set (filter (slot_matches uni search) (map (\<lambda>agg. with_finalized cur (ag_summary agg)) (gvals (src_slots src))))
    = live_slots uni cur search src" (is "?L = _")
proof (intro set_eqI iffI)
  fix s assume s: "s \<in> ?L"
  then obtain slot agg where "(slot, agg) \<in> set (src_slots src)" "s = with_finalized cur (ag_summary agg)" by auto
  moreover from this(1) assms have "gget (src_slots src) slot = Some agg" "ss_Slot (ag_summary agg) = slot"
    by (auto simp: slots_ok_def gget_iff)
  ultimately show "s \<in> live_slots uni cur search src" using s by (simp add: live_slots_def with_finalized_def)
next
  fix s assume "s \<in> live_slots uni cur search src"
  then obtain agg where agg: "slot_matches uni search s" "gget (src_slots src) (ss_Slot s) = Some agg"
      "s = (ag_summary agg)\<lparr>ss_Finalized := ss_Slot s < cur\<rparr>" by (auto simp: live_slots_def)
  then have "ss_Slot (ag_summary agg) = ss_Slot s" using assms by (simp add: slots_ok_def)
  then have "s = with_finalized cur (ag_summary agg)" using agg(3) by (simp add: with_finalized_def)
  with agg(1) map_of_SomeD [OF agg(2)] show "s \<in> ?L" by force
qed

lemma ListSlots_newest:
  assumes "proc_ok ext p" and "gget (pr_sources p) sid = Some src" and "currentSlotLocked (pr_clock p) now = Some cur"
  shows "\<exists>rows. ListSlots uni now sid search limit p = Some rows \<and> newest ss_Slot limit (live_slots uni cur search src) rows"
proof -
  define all where "all = map (\<lambda>agg. with_finalized cur (ag_summary agg)) (gvals (src_slots src))"
  define hit where "hit = filter (slot_matches uni search) all"
  have ok: "slots_ok (src_slots src)" using assms(1,2) by (simp add: proc_ok_def source_ok_def)
  have keys: "map ss_Slot all = map fst (src_slots src)"
    using ok gget_iff [of "src_slots src"] by (auto simp: all_def slots_ok_def with_finalized_def)
  then have "distinct (map ss_Slot all)" using ok by (simp add: slots_ok_def gm_ok_def)
  then have "distinct (map ss_Slot hit)" unfolding hit_def by (rule distinct_map_filter)
  from newest_sort [OF this, of limit] have "newest ss_Slot limit (live_slots uni cur search src)
      (let rows = sort_slice (by_key_desc ss_Slot) hit in if 0 < limit \<and> int (length rows) > limit then take (nat limit) rows else rows)"
    using live_slots_eq [OF ok, of uni search cur] unfolding hit_def all_def Let_def by simp
  moreover have "(\<lambda>s. TrimSpace (ToLower uni search) = [] \<or> Contains (ToLower uni (TrimSpace (summaryString s))) (TrimSpace (ToLower uni search)))
      = slot_matches uni search"
    by (rule ext) (simp add: slot_matches_def Contains_iff Let_def)
  ultimately show ?thesis
    using assms(2,3) unfolding ListSlots_def hit_def all_def by (simp only: Let_def option.case bind.simps) simp
qed

definition live_held :: "(string \<Rightarrow> string) \<Rightarrow> time \<Rightarrow> string \<Rightarrow> string \<Rightarrow> Processor \<Rightarrow> SlotSummary set" where
  "live_held uni now sid search p =
     (case gget (pr_sources p) sid of
        None \<Rightarrow> {}
      | Some src \<Rightarrow>
          (case currentSlotLocked (pr_clock p) now of None \<Rightarrow> {} | Some cur \<Rightarrow> live_slots uni cur search src))"

lemma ListSlots_held:
  assumes "proc_ok ext p" and "clock_ok (pr_clock p)"
  shows "\<exists>rows. ListSlots uni now sid search limit p = Some rows \<and> newest ss_Slot limit (live_held uni now sid search p) rows"
proof (cases "gget (pr_sources p) sid")
  case None
  then show ?thesis by (simp add: ListSlots_def live_held_def newest_def)
next
  case (Some src)
  obtain cur where "currentSlotLocked (pr_clock p) now = Some cur" using currentSlot_total [OF assms(2)] by blast
  with ListSlots_newest [OF assms(1) Some] Some show ?thesis by (simp add: live_held_def)
qed

interpretation live_list: newest_listing ss_Slot "\<lambda>p. proc_ok ext p \<and> clock_ok (pr_clock p)"
    "live_held uni now sid search" "\<lambda>n. ListSlots uni now sid search n" for ext uni now sid search
  by unfold_locales (auto intro: ListSlots_held)

text \<open>
  The slot list is right whatever order Go ranges over the map in: each slot that matches the
  search text is listed once, newest first, with its current counts and marked final when
  its slot is over; with a positive limit the list is cut after that many slots, and only older slots are left out.
\<close>

lemma ListSlots_newest_first:
  assumes "proc_ok ext p" and "gget (pr_sources p) sid = Some src" and "currentSlotLocked (pr_clock p) now = Some cur"
  shows "\<exists>rows. ListSlots uni now sid search limit p = Some rows
    \<and> sorted_wrt (\<lambda>a b. ss_Slot b < ss_Slot a) rows
    \<and> (\<forall>s \<in> set rows. slot_matches uni search s
        \<and> (\<exists>agg. gget (src_slots src) (ss_Slot s) = Some agg \<and> s = (ag_summary agg)\<lparr>ss_Finalized := ss_Slot s < cur\<rparr>))
    \<and> (0 < limit \<longrightarrow> int (length rows) \<le> limit)
    \<and> (\<forall>slot agg. gget (src_slots src) slot = Some agg \<and> slot_matches uni search (ag_summary agg) \<longrightarrow>
        slot \<in> ss_Slot ` set rows \<or> 0 < limit \<and> int (length rows) = limit \<and> (\<forall>s \<in> set rows. slot < ss_Slot s))"
proof -
  obtain rows where rows: "ListSlots uni now sid search limit p = Some rows"
    "newest ss_Slot limit (live_slots uni cur search src) rows" using ListSlots_newest [OF assms] by blast
  have ok: "slots_ok (src_slots src)" using assms(1,2) by (simp add: proc_ok_def source_ok_def)
  have held: "with_finalized cur (ag_summary agg) \<in> live_slots uni cur search src
      \<and> ss_Slot (with_finalized cur (ag_summary agg)) = slot"
    if "gget (src_slots src) slot = Some agg" "slot_matches uni search (ag_summary agg)" for slot agg
  proof -
    have "slot_matches uni search (with_finalized cur (ag_summary agg))"
      using that(2) by (simp add: slot_matches_def with_finalized_def summaryString_def)
    moreover have "ss_Slot (ag_summary agg) = slot" using that(1) ok by (simp add: slots_ok_def)
    ultimately show ?thesis using that(1) by (simp add: live_slots_def with_finalized_def)
  qed
  show ?thesis
  proof (intro exI [of _ rows] conjI allI impI)
    fix slot agg assume "gget (src_slots src) slot = Some agg \<and> slot_matches uni search (ag_summary agg)"
    then obtain s where "s \<in> live_slots uni cur search src" and s: "ss_Slot s = slot" using held by blast
    then have "s \<in> set rows \<or> 0 < limit \<and> int (length rows) = limit \<and> (\<forall>x \<in> set rows. ss_Slot s < ss_Slot x)"
      using rows(2) unfolding newest_def by blast
    then show "slot \<in> ss_Slot ` set rows \<or> 0 < limit \<and> int (length rows) = limit \<and> (\<forall>s \<in> set rows. slot < ss_Slot s)"
      using s by blast
  qed (use rows in \<open>auto simp: newest_def live_slots_def\<close>)
qed

end
