(* ===== verification/Emitting.thy ===== *)
theory Emitting
  imports Messages
begin

text \<open>
  \<open>probe/emitter.go\<close> and \<open>probe/intern.go\<close>: the probe's event pipeline.  It numbers envelopes,
  keeps the latest ones in a ring buffer and hands each to the registered sinks.

  The ring is the source's array with its write index and fill count; an unused cell is a nil
  pointer.  Reading or writing outside of the array and dereferencing nil are panics.
  The ring is refined to the list of its envelopes, oldest first, and this to the history
  of everything that was emitted.  A sink is named by a number; \<open>Emit\<close> returns the writes it makes
  after the mutex is released.  \<open>now\<close> is the result of \<open>time.Now().UnixNano()\<close>.
\<close>

section \<open>State\<close>

type_synonym sink_id = nat

record stringInterner =
  si_strings :: "string list"
  si_stringIDs :: "(string, u32) gomap"

record Emitter =
  em_nextSeq :: u64
  em_buffer :: "Envelope option list"
  em_bufferIdx :: nat
  em_bufferLen :: nat
  em_sinks :: "sink_id list"
  em_closed :: bool
  em_strings :: stringInterner
  em_nextPeerAlias :: u64
  em_nextConnID :: u32
  em_nextStreamID :: u32

definition DefaultRingBufferSize :: int where
  "DefaultRingBufferSize = 65536"

definition newStringInterner :: stringInterner where
  "newStringInterner = \<lparr>si_strings = [], si_stringIDs = []\<rparr>"

definition NewEmitter :: "int \<Rightarrow> Emitter" where
  "NewEmitter bufferSize =
     (let n = (if bufferSize \<le> 0 then DefaultRingBufferSize else bufferSize)
      in \<lparr>em_nextSeq = 1, em_buffer = replicate (nat n) None, em_bufferIdx = 0, em_bufferLen = 0,
          em_sinks = [], em_closed = False, em_strings = newStringInterner,
          em_nextPeerAlias = 0, em_nextConnID = 0, em_nextStreamID = 0\<rparr>)"

text \<open>\<open>Add(1) - 1\<close> on an atomic counter returns the old value.\<close>

definition NextPeerAlias :: "Emitter \<Rightarrow> u64 \<times> Emitter" where
  "NextPeerAlias e = (let n = em_nextPeerAlias e + 1 in (n - 1, e\<lparr>em_nextPeerAlias := n\<rparr>))"

definition NextConnID :: "Emitter \<Rightarrow> u32 \<times> Emitter" where
  "NextConnID e = (let n = em_nextConnID e + 1 in (n - 1, e\<lparr>em_nextConnID := n\<rparr>))"

definition NextStreamID :: "Emitter \<Rightarrow> u32 \<times> Emitter" where
  "NextStreamID e = (let n = em_nextStreamID e + 1 in (n - 1, e\<lparr>em_nextStreamID := n\<rparr>))"

section \<open>Emitting\<close>

definition addToBufferLocked :: "Envelope \<Rightarrow> Emitter \<Rightarrow> Emitter go" where
  "addToBufferLocked env e =
     (let n = length (em_buffer e) in
      if em_bufferIdx e < n then Some
        (e\<lparr>em_buffer := (em_buffer e)[em_bufferIdx e := Some env],
           em_bufferIdx := (em_bufferIdx e + 1) mod n,
           em_bufferLen := (if em_bufferLen e < n then em_bufferLen e + 1 else em_bufferLen e)\<rparr>)
      else None)"

definition snapshotSinks :: "Emitter \<Rightarrow> sink_id list" where
  "snapshotSinks e = em_sinks e"

text \<open>\<open>Emit\<close>: the new state and the writes to the sinks.\<close>

definition Emit :: "int \<Rightarrow> Envelope \<Rightarrow> Emitter \<Rightarrow> (Emitter \<times> (sink_id \<times> Envelope) list) go" where
  "Emit now env e =
     (if em_closed e then Some (e, [])
      else do {
        let env = env\<lparr>env_Seq := em_nextSeq e\<rparr>;
        let e = e\<lparr>em_nextSeq := em_nextSeq e + 1\<rparr>;
        let env = env\<lparr>env_ObservedAtNs := now\<rparr>;
        e \<leftarrow> addToBufferLocked env e;
        Some (e, map (\<lambda>s. (s, env)) (snapshotSinks e))
      })"

text \<open>The cell at an index, which must hold an envelope.\<close>

definition cell :: "Envelope option list \<Rightarrow> nat \<Rightarrow> Envelope go" where
  "cell buf i = (if i < length buf then buf ! i else None)"

function collect :: "Envelope option list \<Rightarrow> u64 \<Rightarrow> nat \<Rightarrow> nat \<Rightarrow> nat \<Rightarrow> Envelope list go" where
  "collect buf startSeq oldestIdx i n =
     (if i < n then do {
        env \<leftarrow> cell buf ((oldestIdx + i) mod length buf);
        out \<leftarrow> collect buf startSeq oldestIdx (i + 1) n;
        Some (if env_Seq env \<ge> startSeq then env # out else out)
      }
      else Some [])"
  by pat_completeness auto
termination
  by (relation "measure (\<lambda>(buf, startSeq, oldestIdx, i, n). n - i)") simp_all

declare collect.simps [simp del]

definition EventsFromSeq :: "u64 \<Rightarrow> Emitter \<Rightarrow> (Envelope list \<times> bool) go" where
  "EventsFromSeq startSeq e =
     (if em_bufferLen e = 0 then Some ([], True)
      else do {
        let oldestIdx = (if em_bufferLen e = length (em_buffer e) then em_bufferIdx e else 0);
        oldest \<leftarrow> cell (em_buffer e) oldestIdx;
        if startSeq < env_Seq oldest then Some ([], False)
        else do {
          out \<leftarrow> collect (em_buffer e) startSeq oldestIdx 0 (em_bufferLen e);
          Some (out, True)
        }
      })"

definition AddSink :: "sink_id \<Rightarrow> Emitter \<Rightarrow> Emitter" where
  "AddSink sink e = e\<lparr>em_sinks := em_sinks e @ [sink]\<rparr>"

definition RemoveSink :: "sink_id \<Rightarrow> Emitter \<Rightarrow> Emitter" where
  "RemoveSink sink e = e\<lparr>em_sinks := remove1 sink (em_sinks e)\<rparr>"

definition Sinks :: "Emitter \<Rightarrow> sink_id list" where
  "Sinks e = snapshotSinks e"

definition SetClosed :: "bool \<Rightarrow> Emitter \<Rightarrow> Emitter" where
  "SetClosed closed e = e\<lparr>em_closed := closed\<rparr>"

section \<open>Interning\<close>

definition Intern :: "int \<Rightarrow> string \<Rightarrow> Emitter \<Rightarrow> (u32 \<times> Emitter \<times> (sink_id \<times> Envelope) list) go" where
  "Intern now s e =
     (let si = em_strings e in
      case gget (si_stringIDs si) s of
        Some ident \<Rightarrow> Some (ident, e, [])
      | None \<Rightarrow> do {
          let ident = of_nat (length (si_strings si));
          let e = e\<lparr>em_strings := \<lparr>si_strings = si_strings si @ [s], si_stringIDs = gput s ident (si_stringIDs si)\<rparr>\<rparr>;
          (e, ws) \<leftarrow> Emit now \<lparr>env_Seq = 0, env_ObservedAtNs = 0,
            env_Payload = Some (Envelope_StringDef \<lparr>def_Id = ident, def_Value = s\<rparr>)\<rparr> e;
          Some (ident, e, ws)
        })"

definition intern_snapshot :: "stringInterner \<Rightarrow> string list" where
  "intern_snapshot si = si_strings si"

section \<open>The ring as a list\<close>

definition ring :: "Emitter \<Rightarrow> Envelope option list" where
  "ring e = (if em_bufferLen e < length (em_buffer e) then take (em_bufferLen e) (em_buffer e)
     else drop (em_bufferIdx e) (em_buffer e) @ take (em_bufferIdx e) (em_buffer e))"

definition ring_ok :: "Emitter \<Rightarrow> bool" where
  "ring_ok e \<longleftrightarrow> em_bufferIdx e < length (em_buffer e) \<and> em_bufferLen e \<le> length (em_buffer e)
     \<and> (em_bufferLen e < length (em_buffer e) \<longrightarrow> em_bufferIdx e = em_bufferLen e)"

lemma ring_ok_New: "ring_ok (NewEmitter n)" "ring (NewEmitter n) = []" "length (em_buffer (NewEmitter n)) > 0"
  by (auto simp: ring_ok_def ring_def NewEmitter_def DefaultRingBufferSize_def Let_def)

lemma length_ring: "ring_ok e \<Longrightarrow> length (ring e) = em_bufferLen e"
  by (auto simp: ring_ok_def ring_def)

lemma addToBuffer_ring:
  assumes "ring_ok e"
  shows "\<exists>e'. addToBufferLocked env e = Some e' \<and> ring_ok e'
    \<and> ring e' = drop (Suc (length (ring e)) - length (em_buffer e)) (ring e @ [Some env])
    \<and> length (em_buffer e') = length (em_buffer e) \<and> em_nextSeq e' = em_nextSeq e \<and> em_sinks e' = em_sinks e
    \<and> em_closed e' = em_closed e \<and> em_strings e' = em_strings e"
proof -
  let ?n = "length (em_buffer e)" and ?i = "em_bufferIdx e" and ?l = "em_bufferLen e"
  have i: "?i < ?n" using assms by (simp add: ring_ok_def)
  show ?thesis
  proof (cases "?l < ?n")
    case True
    with assms have il: "?i = ?l" by (simp add: ring_ok_def)
    show ?thesis
    proof (cases "Suc ?l < ?n")
      case True
      with il i show ?thesis
        by (simp add: addToBufferLocked_def Let_def ring_ok_def ring_def take_Suc_conv_app_nth take_update_swap [symmetric])
    next
      case False
      with \<open>?l < ?n\<close> have "Suc ?l = ?n" "em_buffer e \<noteq> []" by auto
      with il i show ?thesis
        by (simp add: addToBufferLocked_def Let_def ring_ok_def ring_def upd_conv_take_nth_drop)
    qed
  next
    case False
    with assms have ln: "?l = ?n" by (simp add: ring_ok_def)
    have d: "drop ?i (em_buffer e) = em_buffer e ! ?i # drop (Suc ?i) (em_buffer e)" using i by (simp add: Cons_nth_drop_Suc)
    show ?thesis
    proof (cases "Suc ?i = ?n")
      case True
      moreover from i have "em_buffer e \<noteq> []" by auto
      ultimately show ?thesis using ln i d
        by (simp add: addToBufferLocked_def Let_def ring_ok_def ring_def upd_conv_take_nth_drop)
    next
      case False
      with i have "Suc ?i < ?n" "Suc (Suc (?n - Suc 0)) - ?n = 1" by simp_all
      with ln i d show ?thesis
        by (simp add: addToBufferLocked_def Let_def ring_ok_def ring_def take_Suc_conv_app_nth)
    qed
  qed
qed

text \<open>
  The contract of the ring: a log that keeps the latest entries up to its capacity.
\<close>

locale bounded_log =
  fixes push :: "'a \<Rightarrow> 's \<Rightarrow> 's option"
    and contents :: "'s \<Rightarrow> 'a list"
    and cap :: "'s \<Rightarrow> nat"
    and invar :: "'s \<Rightarrow> bool"
  assumes push_total: "invar s \<Longrightarrow> \<exists>s'. push x s = Some s'"
    and push_contents: "invar s \<Longrightarrow> push x s = Some s' \<Longrightarrow>
      contents s' = drop (Suc (length (contents s)) - cap s) (contents s @ [x])"
    and push_frame: "invar s \<Longrightarrow> push x s = Some s' \<Longrightarrow> invar s' \<and> cap s' = cap s"
    and contents_bound: "invar s \<Longrightarrow> length (contents s) \<le> cap s"
begin

text \<open>The log holds the end of the history it was fed.\<close>

lemma push_suffix:
  assumes "invar s" and "push x s = Some s'" and "contents s = drop (length h - cap s) h"
  shows "contents s' = drop (length (h @ [x]) - cap s') (h @ [x])"
proof -
  have "cap s' = cap s" using push_frame [OF assms(1,2)] by simp
  moreover have "contents s' = drop (Suc (length (contents s)) - cap s) (contents s @ [x])"
    by (rule push_contents [OF assms(1,2)])
  ultimately show ?thesis using assms(3) by (cases "length h < cap s") (auto simp: drop_Cons' Suc_diff_le)
qed

end

definition entries :: "Emitter \<Rightarrow> Envelope list" where
  "entries e = map the (ring e)"

definition entries_ok :: "Emitter \<Rightarrow> bool" where
  "entries_ok e \<longleftrightarrow> ring_ok e \<and> None \<notin> set (ring e)"

interpretation ring_log: bounded_log addToBufferLocked entries "\<lambda>e. length (em_buffer e)" entries_ok
proof
  fix e x assume "entries_ok e"
  then show "\<exists>e'. addToBufferLocked x e = Some e'" using addToBuffer_ring by (auto simp: entries_ok_def)
  show "length (entries e) \<le> length (em_buffer e)"
    using \<open>entries_ok e\<close> by (simp add: entries_def entries_ok_def length_ring) (simp add: ring_ok_def)
next
  fix e x e' assume ok: "entries_ok e" and add: "addToBufferLocked x e = Some e'"
  from ok have "ring_ok e" by (simp add: entries_ok_def)
  from addToBuffer_ring [OF this, of x] add
  have r: "ring_ok e'" "ring e' = drop (Suc (length (ring e)) - length (em_buffer e)) (ring e @ [Some x])"
    "length (em_buffer e') = length (em_buffer e)" by auto
  then show "entries e' = drop (Suc (length (entries e)) - length (em_buffer e)) (entries e @ [x])"
    by (simp add: entries_def drop_map flip: drop_map)
  from r ok show "entries_ok e' \<and> length (em_buffer e') = length (em_buffer e)"
    by (auto simp: entries_ok_def dest: in_set_dropD)
qed

section \<open>Reading the ring\<close>

definition oldest_idx :: "Emitter \<Rightarrow> nat" where
  "oldest_idx e = (if em_bufferLen e = length (em_buffer e) then em_bufferIdx e else 0)"

lemma ring_nth:
  assumes "ring_ok e" and "i < em_bufferLen e"
  shows "ring e ! i = em_buffer e ! ((oldest_idx e + i) mod length (em_buffer e))"
proof (cases "em_bufferLen e = length (em_buffer e)")
  case True
  have idx: "em_bufferIdx e < length (em_buffer e)" using assms(1) by (simp add: ring_ok_def)
  show ?thesis
  proof (cases "em_bufferIdx e + i < length (em_buffer e)")
    case True
    with \<open>em_bufferLen e = length (em_buffer e)\<close> idx show ?thesis
      by (simp add: ring_def oldest_idx_def nth_append less_diff_conv add.commute)
  next
    case False
    then have "(em_bufferIdx e + i) mod length (em_buffer e) = em_bufferIdx e + i - length (em_buffer e)"
      using idx assms(2) True by (simp add: mod_if)
    with False True idx assms(2) show ?thesis
      by (simp add: ring_def oldest_idx_def nth_append less_diff_conv add.commute)
  qed
next
  case False
  with assms show ?thesis by (simp add: ring_def oldest_idx_def ring_ok_def)
qed

lemma collect_filter:
  assumes "\<And>j. i \<le> j \<Longrightarrow> j < n \<Longrightarrow> cell buf ((o' + j) mod length buf) = Some (xs ! j)" and "length xs = n" and "i \<le> n"
  shows "collect buf s o' i n = Some (filter (\<lambda>env. s \<le> env_Seq env) (drop i xs))"
  using assms(1,3)
proof (induction "n - i" arbitrary: i)
  case 0
  then show ?case using assms(2) by (simp add: collect.simps)
next
  case (Suc k)
  then have "i < n" by simp
  moreover have "collect buf s o' (i + 1) n = Some (filter (\<lambda>env. s \<le> env_Seq env) (drop (i + 1) xs))"
    using Suc.hyps(2) Suc.prems by (intro Suc.hyps(1)) auto
  ultimately show ?case
    using Suc.prems(1) [of i] assms(2) by (simp add: collect.simps [of _ _ _ i] Cons_nth_drop_Suc [symmetric])
qed

lemma EventsFromSeq_entries:
  assumes "entries_ok e"
  shows "EventsFromSeq s e = Some (if entries e = [] then ([], True)
    else if s < env_Seq (hd (entries e)) then ([], False)
    else (filter (\<lambda>env. s \<le> env_Seq env) (entries e), True))"
proof (cases "em_bufferLen e = 0")
  case True
  with assms length_ring [of e] show ?thesis by (auto simp: EventsFromSeq_def entries_def entries_ok_def)
next
  case False
  have ok: "ring_ok e" and len: "length (ring e) = em_bufferLen e"
    using assms length_ring by (simp_all add: entries_ok_def)
  have pos: "length (em_buffer e) > 0" using ok by (auto simp: ring_ok_def)
  have rd: "cell (em_buffer e) ((oldest_idx e + j) mod length (em_buffer e)) = Some (entries e ! j)"
    if "j < em_bufferLen e" for j
  proof -
    have "ring e ! j \<noteq> None" using assms that len by (metis entries_ok_def nth_mem)
    then show ?thesis using ring_nth [OF ok that] that len pos by (simp add: cell_def entries_def)
  qed
  have ne: "entries e \<noteq> []" using False len by (auto simp: entries_def)
  then have hd: "hd (entries e) = entries e ! 0" "entries e \<noteq> []" by (simp_all add: hd_conv_nth)
  have "oldest_idx e < length (em_buffer e)" using ok pos by (auto simp: oldest_idx_def ring_ok_def)
  then have old: "cell (em_buffer e) (oldest_idx e) = Some (hd (entries e))"
    using rd [of 0] False hd by simp
  have "collect (em_buffer e) s (oldest_idx e) 0 (em_bufferLen e) = Some (filter (\<lambda>env. s \<le> env_Seq env) (drop 0 (entries e)))"
    using rd len by (intro collect_filter) (simp_all add: entries_def)
  with old hd False show ?thesis
    by (simp add: EventsFromSeq_def oldest_idx_def [symmetric] Let_def)
qed

section \<open>The history\<close>

text \<open>Envelopes emitted one after the other by an open emitter, and the envelopes as they were stamped.\<close>

primrec emit_all :: "(int \<times> Payload) list \<Rightarrow> Emitter \<Rightarrow> (Emitter \<times> Envelope list) go" where
  "emit_all [] e = Some (e, [])"
| "emit_all (x # xs) e = (case Emit (fst x) \<lparr>env_Seq = 0, env_ObservedAtNs = 0, env_Payload = Some (snd x)\<rparr> e of None \<Rightarrow> None
     | Some (e', ws) \<Rightarrow> (case emit_all xs e' of None \<Rightarrow> None
         | Some (e'', h) \<Rightarrow> Some (e'', \<lparr>env_Seq = em_nextSeq e, env_ObservedAtNs = fst x, env_Payload = Some (snd x)\<rparr> # h)))"

text \<open>The history is numbered from 1 without gaps and the ring holds its end.\<close>

definition history_ok :: "Envelope list \<Rightarrow> Emitter \<Rightarrow> bool" where
  "history_ok h e \<longleftrightarrow> entries_ok e \<and> entries e = drop (length h - length (em_buffer e)) h
     \<and> map (uint \<circ> env_Seq) h = map (\<lambda>i. int i + 1) [0..<length h]
     \<and> uint (em_nextSeq e) = int (length h) + 1"

lemma history_ok_New: "history_ok [] (NewEmitter n)"
  using ring_ok_New [of n] by (simp add: history_ok_def entries_ok_def entries_def) (simp add: NewEmitter_def Let_def)

definition counters :: "Emitter \<Rightarrow> u64 \<times> u32 \<times> u32" where
  "counters e = (em_nextPeerAlias e, em_nextConnID e, em_nextStreamID e)"

lemma Emit_history:
  assumes "history_ok h e" and "\<not> em_closed e" and "int (length h) + 2 < 2 ^ 64"
  shows "\<exists>e'. Emit now env e = Some (e', map (\<lambda>s. (s, env\<lparr>env_Seq := em_nextSeq e, env_ObservedAtNs := now\<rparr>)) (em_sinks e))
    \<and> history_ok (h @ [env\<lparr>env_Seq := em_nextSeq e, env_ObservedAtNs := now\<rparr>]) e' \<and> \<not> em_closed e'
    \<and> em_sinks e' = em_sinks e \<and> length (em_buffer e') = length (em_buffer e) \<and> em_strings e' = em_strings e
    \<and> counters e' = counters e"
proof -
  let ?env = "env\<lparr>env_Seq := em_nextSeq e, env_ObservedAtNs := now\<rparr>"
  let ?e = "e\<lparr>em_nextSeq := em_nextSeq e + 1\<rparr>"
  have eq: "entries ?e = entries e" "entries_ok ?e = entries_ok e"
    by (simp_all add: entries_def entries_ok_def ring_def ring_ok_def)
  have ok: "entries_ok ?e" using assms(1) eq by (simp add: history_ok_def)
  then obtain e' where add: "addToBufferLocked ?env ?e = Some e'" using ring_log.push_total by blast
  have frame: "em_nextSeq e' = em_nextSeq e + 1" "em_sinks e' = em_sinks e" "em_closed e' = em_closed e" "em_strings e' = em_strings e"
    "counters e' = counters e"
    using add by (auto simp: addToBufferLocked_def counters_def Let_def split: if_splits)
  have seq: "uint (em_nextSeq e) = int (length h) + 1" using assms(1) by (simp add: history_ok_def)
  then have "uint (em_nextSeq e + 1) = int (length h) + 2"
    using assms(3) by (simp add: uint_word_ariths)
  moreover have "entries e' = drop (length (h @ [?env]) - length (em_buffer e')) (h @ [?env])"
    by (rule ring_log.push_suffix [OF ok add]) (use assms(1) eq in \<open>simp add: history_ok_def\<close>)
  moreover have "entries_ok e'" "length (em_buffer e') = length (em_buffer e)"
    using ring_log.push_frame [OF ok add] by simp_all
  ultimately have "history_ok (h @ [?env]) e'"
    using assms(1) seq frame(1) by (simp add: history_ok_def)
  with add frame assms(2) \<open>length (em_buffer e') = length (em_buffer e)\<close> show ?thesis
    by (simp add: Emit_def snapshotSinks_def)
qed

lemma emit_all_history:
  "history_ok h e \<Longrightarrow> \<not> em_closed e \<Longrightarrow> int (length h) + int (length xs) + 1 < 2 ^ 64 \<Longrightarrow>
     \<exists>e' h'. emit_all xs e = Some (e', h') \<and> history_ok (h @ h') e' \<and> length h' = length xs
       \<and> length (em_buffer e') = length (em_buffer e) \<and> map env_Payload h' = map (Some \<circ> snd) xs"
proof (induction xs arbitrary: h e)
  case (Cons x xs)
  let ?env = "\<lparr>env_Seq = em_nextSeq e, env_ObservedAtNs = fst x, env_Payload = Some (snd x)\<rparr>"
  obtain e1 ws where 1: "Emit (fst x) \<lparr>env_Seq = 0, env_ObservedAtNs = 0, env_Payload = Some (snd x)\<rparr> e = Some (e1, ws)"
    "history_ok (h @ [?env]) e1" "\<not> em_closed e1" "length (em_buffer e1) = length (em_buffer e)"
    using Emit_history [OF Cons.prems(1,2), of "fst x" "\<lparr>env_Seq = 0, env_ObservedAtNs = 0, env_Payload = Some (snd x)\<rparr>"]
      Cons.prems(3) by auto
  from Cons.IH [OF 1(2,3)] Cons.prems(3) obtain e' h' where
    "emit_all xs e1 = Some (e', h')" "history_ok ((h @ [?env]) @ h') e'" "length h' = length xs"
    "length (em_buffer e') = length (em_buffer e1)" "map env_Payload h' = map (Some \<circ> snd) xs"
    by auto
  with 1 show ?case by (intro exI [of _ e'] exI [of _ "?env # h'"]) simp
qed simp

lemma history_seq: "history_ok h e \<Longrightarrow> i < length h \<Longrightarrow> uint (env_Seq (h ! i)) = int i + 1"
proof -
  assume "history_ok h e" and i: "i < length h"
  then have "map (uint \<circ> env_Seq) h ! i = map (\<lambda>i. int i + 1) [0..<length h] ! i" by (simp add: history_ok_def)
  with i show ?thesis by simp
qed

text \<open>From any point of the history that is not past the number, the envelopes with at least that number.\<close>

lemma filter_from_seq:
  assumes "history_ok h e" and "1 \<le> s" and "k \<le> nat (uint s - 1)"
  shows "filter (\<lambda>x. s \<le> env_Seq x) (drop k h) = drop (nat (uint s - 1)) h"
proof -
  define m where "m = nat (uint s - 1)"
  have s: "uint s = int m + 1" using assms(2) by (simp add: m_def word_le_def)
  have "drop k h = take (m - k) (drop k h) @ drop m h"
    using assms(3) append_take_drop_id [of "m - k" "drop k h"] by (simp add: m_def)
  moreover have "\<not> s \<le> env_Seq x" if "x \<in> set (take (m - k) (drop k h))" for x
  proof -
    from that obtain i where "i < length (take (m - k) (drop k h))" "x = take (m - k) (drop k h) ! i"
      by (metis in_set_conv_nth)
    then have "k + i < length h" "k + i < m" "x = h ! (k + i)" by auto
    with history_seq [OF assms(1), of "k + i"] s show ?thesis by (simp add: word_le_def)
  qed
  moreover have "s \<le> env_Seq x" if "x \<in> set (drop m h)" for x
  proof -
    from that obtain i where "i < length (drop m h)" "x = drop m h ! i" by (metis in_set_conv_nth)
    then have "m + i < length h" "x = h ! (m + i)" by auto
    with history_seq [OF assms(1), of "m + i"] s show ?thesis by (simp add: word_le_def)
  qed
  ultimately show ?thesis
    by (metis (no_types, lifting) append_Nil filter_False filter_True filter_append m_def)
qed

lemma EventsFromSeq_history:
  assumes "history_ok h e" and "1 \<le> s"
  shows "EventsFromSeq s e = Some (if h = [] then ([], True)
    else if int (length h) - int (length (em_buffer e)) < uint s then (drop (nat (uint s - 1)) h, True) else ([], False))"
proof -
  define k where "k = length h - length (em_buffer e)"
  have ok: "entries_ok e" and ent: "entries e = drop k h" using assms(1) by (simp_all add: history_ok_def k_def)
  have pos: "0 < length (em_buffer e)" using ok by (auto simp: entries_ok_def ring_ok_def)
  show ?thesis
  proof (cases "h = []")
    case True
    with EventsFromSeq_entries [OF ok] ent show ?thesis by simp
  next
    case False
    then have k: "k < length h" using pos by (simp add: k_def)
    then have hd: "uint (env_Seq (hd (entries e))) = int k + 1" and ne: "entries e \<noteq> []"
      using history_seq [OF assms(1) k] ent by (simp_all add: hd_drop_conv_nth)
    have lt: "s < env_Seq (hd (entries e)) \<longleftrightarrow> \<not> int (length h) - int (length (em_buffer e)) < uint s"
      using hd pos assms(2) by (auto simp: word_less_def word_le_def k_def)
    show ?thesis
    proof (cases "s < env_Seq (hd (entries e))")
      case True
      with EventsFromSeq_entries [OF ok] ne False lt show ?thesis by simp
    next
      case f: False
      then have "k \<le> nat (uint s - 1)" using hd by (simp add: word_less_def)
      from filter_from_seq [OF assms this] f EventsFromSeq_entries [OF ok, of s] ne False lt ent show ?thesis by simp
    qed
  qed
qed

text \<open>
  C7: the ring never hides a gap: after any number of emissions, asking for the events from a number
  on returns exactly the emitted envelopes from that number on, in order and without a gap,
  or reports that the range is not covered; it reports that exactly when the ring has dropped an
  envelope of the range, that is, when more than its capacity were emitted since.
\<close>

theorem ring_replay_gap_free:
  assumes "emit_all xs (NewEmitter sz) = Some (e, h)" and "int (length xs) + 1 < 2 ^ 64" and "1 \<le> s"
  shows "map env_Payload h = map (Some \<circ> snd) xs
    \<and> (\<forall>i < length h. uint (env_Seq (h ! i)) = int i + 1)
    \<and> EventsFromSeq s e = Some (if h = [] then ([], True)
        else if int (length h) - (if sz \<le> 0 then 65536 else sz) < uint s then (drop (nat (uint s - 1)) h, True)
        else ([], False))"
proof -
  have "\<not> em_closed (NewEmitter sz)"
    and n: "int (length (em_buffer (NewEmitter sz))) = (if sz \<le> 0 then 65536 else sz)"
    by (simp_all add: NewEmitter_def DefaultRingBufferSize_def Let_def)
  with emit_all_history [OF history_ok_New, of sz xs] assms(1,2)
  have ok: "history_ok h e" and len: "length (em_buffer e) = length (em_buffer (NewEmitter sz))"
    and pl: "map env_Payload h = map (Some \<circ> snd) xs" by auto
  show ?thesis
    using pl history_seq [OF ok] EventsFromSeq_history [OF ok assms(3)] n unfolding len by simp
qed

definition demo_emissions :: "(int \<times> Payload) list" where
  "demo_emissions = map (\<lambda>n. (int n, Envelope_StringDef \<lparr>def_Id = of_nat n, def_Value = ''s''\<rparr>)) [0..<3]"

theorem ring_replay_gap_free_witness:
  "\<exists>e h. emit_all demo_emissions (NewEmitter 2) = Some (e, h)
    \<and> map env_Payload h = map (Some \<circ> snd) demo_emissions \<and> (\<forall>i < length h. uint (env_Seq (h ! i)) = int i + 1)
    \<and> EventsFromSeq 2 e = Some (drop 1 h, True) \<and> EventsFromSeq 1 e = Some ([], False)"
proof -
  have "\<not> em_closed (NewEmitter 2)" by (simp add: NewEmitter_def Let_def)
  with emit_all_history [OF history_ok_New, of 2 demo_emissions] obtain e h where
    run: "emit_all demo_emissions (NewEmitter 2) = Some (e, h)" and len: "length h = 3"
    by (auto simp: demo_emissions_def)
  with ring_replay_gap_free [OF run, of 2] ring_replay_gap_free [OF run, of 1] show ?thesis
    by (intro exI [of _ e] exI [of _ h]) (auto simp: demo_emissions_def)
qed

text \<open>
  Fan-out: an open emitter stamps each envelope with the next number and the time of the call and hands
  it to every registered sink, in the order of registration; a closed emitter changes nothing and
  hands out nothing.
\<close>

lemma Emit_fans_out:
  assumes "history_ok h e" and "int (length h) + 2 < 2 ^ 64"
  shows "\<exists>e'. Emit now env e = Some (e', map (\<lambda>s. (s, env\<lparr>env_Seq := em_nextSeq e, env_ObservedAtNs := now\<rparr>))
      (if em_closed e then [] else Sinks e))
    \<and> (em_closed e \<longrightarrow> e' = e)
    \<and> (\<not> em_closed e \<longrightarrow> uint (em_nextSeq e') = uint (em_nextSeq e) + 1 \<and> Sinks e' = Sinks e)"
proof (cases "em_closed e")
  case True
  then show ?thesis by (simp add: Emit_def)
next
  case False
  from Emit_history [OF assms(1) False assms(2), of now env] assms(1) False show ?thesis
    by (auto simp: history_ok_def Sinks_def snapshotSinks_def)
qed

section \<open>The interner\<close>

definition intern_ok :: "stringInterner \<Rightarrow> bool" where
  "intern_ok si \<longleftrightarrow> gm_ok (si_stringIDs si) \<and> distinct (si_strings si) \<and> length (si_strings si) \<le> 2 ^ 32
     \<and> (\<forall>s n. gget (si_stringIDs si) s = Some n \<longleftrightarrow> unat n < length (si_strings si) \<and> si_strings si ! unat n = s)"

lemma history_ok_strings [simp]: "history_ok h (e\<lparr>em_strings := si\<rparr>) = history_ok h e"
  by (simp add: history_ok_def entries_ok_def entries_def ring_def ring_ok_def)

lemma intern_ok_New: "intern_ok newStringInterner"
  by (simp add: intern_ok_def newStringInterner_def)

lemma intern_ok_add:
  assumes "intern_ok si" and "gget (si_stringIDs si) s = None" and "length (si_strings si) < 2 ^ 32"
  shows "intern_ok \<lparr>si_strings = si_strings si @ [s], si_stringIDs = gput s (of_nat (length (si_strings si))) (si_stringIDs si)\<rparr>"
proof -
  let ?n = "length (si_strings si)"
  have un: "unat (of_nat ?n :: u32) = ?n" using assms(3) by (simp add: unat_of_nat)
  have new: "s \<notin> set (si_strings si)"
  proof
    assume "s \<in> set (si_strings si)"
    then obtain i where i: "i < ?n" "si_strings si ! i = s" by (auto simp: in_set_conv_nth)
    then have "unat (of_nat i :: u32) = i" using assms(3) by (simp add: unat_of_nat)
    with i assms(1) have "gget (si_stringIDs si) s = Some (of_nat i)" by (simp add: intern_ok_def)
    with assms(2) show False by simp
  qed
  have "((gget (si_stringIDs si))(s \<mapsto> of_nat ?n)) t = Some n \<longleftrightarrow>
      unat n < length (si_strings si @ [s]) \<and> (si_strings si @ [s]) ! unat n = t" for t n
  proof (cases "unat n = ?n")
    case True
    then have "n = of_nat ?n" using un by (metis word_unat_eq_iff)
    with assms(1) new un show ?thesis by (auto simp: intern_ok_def)
  next
    case False
    with assms(1) new un show ?thesis by (auto simp: intern_ok_def nth_append)
  qed
  with assms new show ?thesis by (simp add: intern_ok_def del: fun_upd_apply)
qed

lemma Intern_history:
  assumes "intern_ok (em_strings e)" and "history_ok h e" and "int (length h) + 2 < 2 ^ 64" and "\<not> em_closed e"
    and "length (si_strings (em_strings e)) < 2 ^ 32"
  shows "\<exists>n e' envs. Intern now s e = Some (n, e', concat (map (\<lambda>env. map (\<lambda>k. (k, env)) (em_sinks e)) envs))
    \<and> intern_ok (em_strings e') \<and> history_ok (h @ envs) e' \<and> \<not> em_closed e' \<and> em_sinks e' = em_sinks e
    \<and> length (em_buffer e') = length (em_buffer e) \<and> counters e' = counters e
    \<and> unat n < length (si_strings (em_strings e')) \<and> si_strings (em_strings e') ! unat n = s
    \<and> (if s \<in> set (si_strings (em_strings e)) then e' = e \<and> envs = []
       else si_strings (em_strings e') = si_strings (em_strings e) @ [s] \<and> n = of_nat (length (si_strings (em_strings e)))
         \<and> envs = [\<lparr>env_Seq = em_nextSeq e, env_ObservedAtNs = now,
             env_Payload = Some (Envelope_StringDef \<lparr>def_Id = n, def_Value = s\<rparr>)\<rparr>])"
proof (cases "gget (si_stringIDs (em_strings e)) s")
  case (Some n)
  with assms(1) have "unat n < length (si_strings (em_strings e))" "si_strings (em_strings e) ! unat n = s"
    by (simp_all add: intern_ok_def)
  moreover from this have "s \<in> set (si_strings (em_strings e))" by (metis nth_mem)
  ultimately show ?thesis using Some assms by (intro exI [of _ n] exI [of _ e] exI [of _ "[]"]) (simp add: Intern_def)
next
  case None
  let ?n = "of_nat (length (si_strings (em_strings e))) :: u32"
  let ?si = "\<lparr>si_strings = si_strings (em_strings e) @ [s], si_stringIDs = gput s ?n (si_stringIDs (em_strings e))\<rparr>"
  let ?e = "e\<lparr>em_strings := ?si\<rparr>" and ?pl = "Some (Envelope_StringDef \<lparr>def_Id = ?n, def_Value = s\<rparr>)"
  have ok: "intern_ok ?si" by (rule intern_ok_add [OF assms(1) None assms(5)])
  have un: "unat ?n = length (si_strings (em_strings e))" using assms(5) by (simp add: unat_of_nat)
  have new: "s \<notin> set (si_strings (em_strings e))" using ok by (simp add: intern_ok_def)
  have "history_ok h ?e" using assms(2) by simp
  from Emit_history [OF this _ assms(3), of now "\<lparr>env_Seq = 0, env_ObservedAtNs = 0, env_Payload = ?pl\<rparr>"] assms(4)
  obtain e' where "Emit now \<lparr>env_Seq = 0, env_ObservedAtNs = 0, env_Payload = ?pl\<rparr> ?e
      = Some (e', map (\<lambda>k. (k, \<lparr>env_Seq = em_nextSeq e, env_ObservedAtNs = now, env_Payload = ?pl\<rparr>)) (em_sinks e))"
    and "history_ok (h @ [\<lparr>env_Seq = em_nextSeq e, env_ObservedAtNs = now, env_Payload = ?pl\<rparr>]) e'"
    and "\<not> em_closed e'" "em_sinks e' = em_sinks e" "length (em_buffer e') = length (em_buffer e)" "em_strings e' = ?si"
    "counters e' = counters e"
    by (auto simp: counters_def)
  with None ok un new show ?thesis
    by (intro exI [of _ ?n] exI [of _ e'] exI [of _ "[\<lparr>env_Seq = em_nextSeq e, env_ObservedAtNs = now, env_Payload = ?pl\<rparr>]"])
      (simp add: Intern_def Let_def)
qed

text \<open>
  Interning is a bijection between the strings seen and the numbers 0, 1, 2, ...: \<open>Intern\<close> returns the position of
  the string in the table, for a known string without emitting anything; a new string is appended and
  announced to every sink by exactly one \<open>StringDef\<close> that carries that number, before the number is returned.
\<close>

lemma Intern_announces:
  assumes "intern_ok (em_strings e)" and "history_ok h e" and "int (length h) + 2 < 2 ^ 64" and "\<not> em_closed e"
    and "length (si_strings (em_strings e)) < 2 ^ 32"
  shows "\<exists>n e' ws. Intern now s e = Some (n, e', ws) \<and> intern_ok (em_strings e')
    \<and> unat n < length (si_strings (em_strings e')) \<and> si_strings (em_strings e') ! unat n = s
    \<and> (if s \<in> set (si_strings (em_strings e)) then e' = e \<and> ws = []
       else si_strings (em_strings e') = si_strings (em_strings e) @ [s]
         \<and> ws = map (\<lambda>k. (k, \<lparr>env_Seq = em_nextSeq e, env_ObservedAtNs = now,
             env_Payload = Some (Envelope_StringDef \<lparr>def_Id = n, def_Value = s\<rparr>)\<rparr>)) (Sinks e))"
  using Intern_history [OF assms, of now s] by (fastforce simp: Sinks_def snapshotSinks_def)

end
