(* ===== verification/Probe_Network.thy ===== *)
theory Probe_Network
  imports Emitting Go_Lib
begin

text \<open>
  \<open>probe/stream.go\<close> and \<open>probe/host.go\<close>: the wrapped libp2p network.  It gives aliases to peers,
  connections and streams, remembers the upsert message of everything that is open, and emits an envelope for
  each change and for each chunk of bytes read or written.

  What libp2p reports of a connection or stream is an argument (\<open>net_conn\<close>, \<open>net_stream\<close>), as is
  what an inner \<open>Read\<close>, \<open>Write\<close> or \<open>SetProtocol\<close> returns.  An operation takes the readings of
  \<open>time.Now\<close> by call site, in the order of the code, as \<open>now 0\<close>, \<open>now 1\<close>, ..., and returns the
  writes to the sinks.  The emitter has no pointer to the network: \<open>Probe\<close> pairs the two.  An operation runs without
  another one in between; the code takes the network's mutex once per helper.
\<close>

section \<open>State\<close>

datatype net_direction = DirUnknown | DirInbound | DirOutbound

datatype direction = directionUnknown | directionIn | directionOut

record net_conn =
  nc_ID :: string
  nc_RemotePeer :: bytes
  nc_RemoteAddr :: string
  nc_LocalAddr :: string
  nc_Direction :: net_direction
  nc_Transport :: string
  nc_Security :: string
  nc_Muxer :: string

record net_stream =
  ns_Conn :: net_conn
  ns_Protocol :: string
  ns_Direction :: net_direction

record wrappedConn =
  wc_conn :: net_conn
  wc_connID :: u32
  wc_peerAlias :: u64

record trackedPeer =
  tp_alias :: u64
  tp_peerID :: bytes

record wrappedStream =
  ws_wconn :: wrappedConn
  ws_streamID :: u32
  ws_protocol :: string

record wrappedNetwork =
  nw_peers :: "(bytes, trackedPeer) gomap"
  nw_conns :: "(string, wrappedConn) gomap"
  nw_connByID :: "(u32, wrappedConn) gomap"
  nw_connectionUpserts :: "(u32, ConnectionUpsert) gomap"
  nw_streamUpserts :: "(u32, StreamUpsert) gomap"

record Probe =
  pb_emitter :: Emitter
  pb_net :: wrappedNetwork

type_synonym sink_writes = "(sink_id \<times> Envelope) list"

definition empty_network :: wrappedNetwork where
  "empty_network = \<lparr>nw_peers = [], nw_conns = [], nw_connByID = [], nw_connectionUpserts = [], nw_streamUpserts = []\<rparr>"

text \<open>The part of \<open>Wrap\<close> that builds the state: emitter, network and sinks.\<close>

definition Wrap :: "int \<Rightarrow> sink_id list \<Rightarrow> Probe" where
  "Wrap ringBufferSize sinks =
     \<lparr>pb_emitter = fold AddSink sinks (NewEmitter ringBufferSize), pb_net = empty_network\<rparr>"

lemma fold_AddSink: "fold AddSink sinks e = e\<lparr>em_sinks := em_sinks e @ sinks\<rparr>"
  by (induction sinks arbitrary: e) (simp_all add: AddSink_def)

fun directionFromNetwork :: "net_direction \<Rightarrow> direction" where
  "directionFromNetwork DirInbound = directionIn"
| "directionFromNetwork DirOutbound = directionOut"
| "directionFromNetwork _ = directionUnknown"

fun directionToIngest :: "direction \<Rightarrow> Direction" where
  "directionToIngest directionIn = DIRECTION_IN"
| "directionToIngest directionOut = DIRECTION_OUT"
| "directionToIngest _ = DIRECTION_UNKNOWN"

section \<open>The emitter of the probe\<close>

definition emit_payload :: "int \<Rightarrow> Payload \<Rightarrow> Probe \<Rightarrow> (Probe \<times> sink_writes) go" where
  "emit_payload now pl p = do {
     (e, ws) \<leftarrow> Emit now \<lparr>env_Seq = 0, env_ObservedAtNs = 0, env_Payload = Some pl\<rparr> (pb_emitter p);
     Some (p\<lparr>pb_emitter := e\<rparr>, ws)
   }"

definition intern_string :: "int \<Rightarrow> string \<Rightarrow> Probe \<Rightarrow> (u32 \<times> Probe \<times> sink_writes) go" where
  "intern_string now s p = do {
     (ident, e, ws) \<leftarrow> Intern now s (pb_emitter p);
     Some (ident, p\<lparr>pb_emitter := e\<rparr>, ws)
   }"

definition next_conn_id :: "Probe \<Rightarrow> u32 \<times> Probe" where
  "next_conn_id p = (case NextConnID (pb_emitter p) of (i, e) \<Rightarrow> (i, p\<lparr>pb_emitter := e\<rparr>))"

definition next_stream_id :: "Probe \<Rightarrow> u32 \<times> Probe" where
  "next_stream_id p = (case NextStreamID (pb_emitter p) of (i, e) \<Rightarrow> (i, p\<lparr>pb_emitter := e\<rparr>))"

section \<open>Connections\<close>

definition peerUpsertFor :: "u64 \<Rightarrow> bytes \<Rightarrow> PeerUpsert" where
  "peerUpsertFor alias ident = \<lparr>pu_PeerAlias = alias, pu_PeerId = ident\<rparr>"

text \<open>The part of \<open>connectionUpsertFor\<close> under the mutex.\<close>

definition track_conn ::
  "net_conn \<Rightarrow> u32 \<Rightarrow> int \<Rightarrow> u32 \<Rightarrow> u32 \<Rightarrow> u32 \<Rightarrow> Probe \<Rightarrow> (wrappedConn \<times> ConnectionUpsert option \<times> bool) \<times> Probe" where
  "track_conn conn connID openedAtNs transportID securityID muxerID p =
     (let n = pb_net p in
      case gget (nw_conns n) (nc_ID conn) of
        Some existing \<Rightarrow> ((existing, gget (nw_connectionUpserts n) (wc_connID existing), False), p)
      | None \<Rightarrow>
          let (peerInfo, e, peers) =
                (case gget (nw_peers n) (nc_RemotePeer conn) of
                   Some peerInfo \<Rightarrow> (peerInfo, pb_emitter p, nw_peers n)
                 | None \<Rightarrow>
                     let (alias, e) = NextPeerAlias (pb_emitter p);
                         peerInfo = \<lparr>tp_alias = alias, tp_peerID = nc_RemotePeer conn\<rparr>
                     in (peerInfo, e, gput (nc_RemotePeer conn) peerInfo (nw_peers n)));
              upsert = \<lparr>cu_ConnAlias = ucast connID, cu_PeerAlias = tp_alias peerInfo,
                cu_RemoteAddr = nc_RemoteAddr conn, cu_LocalAddr = nc_LocalAddr conn,
                cu_Direction = directionToIngest (directionFromNetwork (nc_Direction conn)),
                cu_TransportId = transportID, cu_SecurityId = securityID, cu_MuxerId = muxerID,
                cu_OpenedAtNs = openedAtNs\<rparr>;
              wc = \<lparr>wc_conn = conn, wc_connID = connID, wc_peerAlias = tp_alias peerInfo\<rparr>;
              n = n\<lparr>nw_peers := peers, nw_conns := gput (nc_ID conn) wc (nw_conns n),
                    nw_connByID := gput connID wc (nw_connByID n),
                    nw_connectionUpserts := gput connID upsert (nw_connectionUpserts n)\<rparr>
          in ((wc, Some upsert, True), \<lparr>pb_emitter = e, pb_net = n\<rparr>))"

definition connectionUpsertFor ::
  "(nat \<Rightarrow> int) \<Rightarrow> net_conn \<Rightarrow> u32 \<Rightarrow> int \<Rightarrow> Probe
     \<Rightarrow> ((wrappedConn \<times> ConnectionUpsert option \<times> bool) \<times> Probe \<times> sink_writes) go" where
  "connectionUpsertFor now conn connID openedAtNs p = do {
     (transportID, p, ws1) \<leftarrow> intern_string (now 0) (nc_Transport conn) p;
     (securityID, p, ws2) \<leftarrow> intern_string (now 1) (nc_Security conn) p;
     (muxerID, p, ws3) \<leftarrow> intern_string (now 2) (nc_Muxer conn) p;
     let (r, p) = track_conn conn connID openedAtNs transportID securityID muxerID p;
     Some (r, p, ws1 @ ws2 @ ws3)
   }"

text \<open>The two envelopes of a new connection, whose upsert is never nil.\<close>

definition emit_connection ::
  "(nat \<Rightarrow> int) \<Rightarrow> wrappedConn \<Rightarrow> bytes \<Rightarrow> ConnectionUpsert option \<Rightarrow> Probe \<Rightarrow> (Probe \<times> sink_writes) go" where
  "emit_connection now wc remotePeer upsert p = do {
     (p, ws1) \<leftarrow> emit_payload (now 0) (Envelope_PeerUpsert (peerUpsertFor (wc_peerAlias wc) remotePeer)) p;
     u \<leftarrow> upsert;
     (p, ws2) \<leftarrow> emit_payload (now 1) (Envelope_ConnectionUpsert u) p;
     Some (p, ws1 @ ws2)
   }"

definition getConn :: "net_conn \<Rightarrow> wrappedNetwork \<Rightarrow> wrappedConn option" where
  "getConn conn n = gget (nw_conns n) (nc_ID conn)"

definition removeAndGetConn :: "net_conn \<Rightarrow> wrappedNetwork \<Rightarrow> wrappedConn option \<times> wrappedNetwork" where
  "removeAndGetConn conn n =
     (let wc = gget (nw_conns n) (nc_ID conn);
          n = n\<lparr>nw_conns := gdel (nc_ID conn) (nw_conns n)\<rparr>
      in case wc of
           None \<Rightarrow> (None, n)
         | Some w \<Rightarrow> (Some w, n\<lparr>nw_connByID := gdel (wc_connID w) (nw_connByID n),
                              nw_connectionUpserts := gdel (wc_connID w) (nw_connectionUpserts n)\<rparr>))"

definition removeStreamsForConn :: "u32 \<Rightarrow> wrappedNetwork \<Rightarrow> u64 list \<times> wrappedNetwork" where
  "removeStreamsForConn connAlias n =
     (let mine = (\<lambda>u. su_ConnAlias u = ucast connAlias)
      in (map su_StreamAlias (filter mine (gvals (nw_streamUpserts n))),
          n\<lparr>nw_streamUpserts := filter (\<lambda>kv. \<not> mine (snd kv)) (nw_streamUpserts n)\<rparr>))"

definition addStreamUpsert :: "StreamUpsert \<Rightarrow> wrappedNetwork \<Rightarrow> wrappedNetwork" where
  "addStreamUpsert u n = n\<lparr>nw_streamUpserts := gput (ucast (su_StreamAlias u)) u (nw_streamUpserts n)\<rparr>"

definition removeStream :: "u32 \<Rightarrow> wrappedNetwork \<Rightarrow> wrappedNetwork" where
  "removeStream streamID n = n\<lparr>nw_streamUpserts := gdel streamID (nw_streamUpserts n)\<rparr>"

section \<open>Notifications\<close>

definition Connected :: "(nat \<Rightarrow> int) \<Rightarrow> net_conn \<Rightarrow> Probe \<Rightarrow> (Probe \<times> sink_writes) go" where
  "Connected now conn p = do {
     let openedAt = now 0;
     let (connID, p) = next_conn_id p;
     ((wc, upsert, created), p, ws1) \<leftarrow> connectionUpsertFor (\<lambda>i. now (1 + i)) conn connID openedAt p;
     if \<not> created then Some (p, ws1)
     else do {
       (p, ws2) \<leftarrow> emit_connection (\<lambda>i. now (4 + i)) wc (nc_RemotePeer conn) upsert p;
       Some (p, ws1 @ ws2)
     }
   }"

fun emit_streams_closed :: "(nat \<Rightarrow> int) \<Rightarrow> int \<Rightarrow> u64 list \<Rightarrow> Probe \<Rightarrow> (Probe \<times> sink_writes) go" where
  "emit_streams_closed now closedAtNs [] p = Some (p, [])"
| "emit_streams_closed now closedAtNs (alias # rest) p = do {
     (p, ws1) \<leftarrow> emit_payload (now 0) (Envelope_StreamClosed
       \<lparr>sc_StreamAlias = alias, sc_ClosedAtNs = closedAtNs, sc_Reason = CLOSE_REASON_CONN_CLOSED\<rparr>) p;
     (p, ws2) \<leftarrow> emit_streams_closed (\<lambda>i. now (Suc i)) closedAtNs rest p;
     Some (p, ws1 @ ws2)
   }"

definition Disconnected :: "(nat \<Rightarrow> int) \<Rightarrow> net_conn \<Rightarrow> Probe \<Rightarrow> (Probe \<times> sink_writes) go" where
  "Disconnected now conn p =
     (case removeAndGetConn conn (pb_net p) of
        (None, n) \<Rightarrow> Some (p\<lparr>pb_net := n\<rparr>, [])
      | (Some wc, n) \<Rightarrow> do {
          let closedAtNs = now 0;
          let (aliases, n) = removeStreamsForConn (wc_connID wc) n;
          (p, ws1) \<leftarrow> emit_streams_closed (\<lambda>i. now (1 + i)) closedAtNs aliases (p\<lparr>pb_net := n\<rparr>);
          (p, ws2) \<leftarrow> emit_payload (now (1 + length aliases)) (Envelope_ConnectionClosed
            \<lparr>cc_ConnAlias = ucast (wc_connID wc), cc_ClosedAtNs = closedAtNs\<rparr>) p;
          Some (p, ws1 @ ws2)
        })"

section \<open>Streams\<close>

definition wrapStream :: "(nat \<Rightarrow> int) \<Rightarrow> net_stream \<Rightarrow> Probe \<Rightarrow> (wrappedStream \<times> Probe \<times> sink_writes) go" where
  "wrapStream now s p = do {
     let (streamID, p) = next_stream_id p;
     (wc, p, ws1) \<leftarrow>
       (case getConn (ns_Conn s) (pb_net p) of
          Some wc \<Rightarrow> Some (wc, p, [])
        | None \<Rightarrow> do {
            let openedAt = now 0;
            let (connID, p) = next_conn_id p;
            ((wc, upsert, created), p, ws1) \<leftarrow> connectionUpsertFor (\<lambda>i. now (1 + i)) (ns_Conn s) connID openedAt p;
            if \<not> created then Some (wc, p, ws1)
            else do {
              (p, ws2) \<leftarrow> emit_connection (\<lambda>i. now (4 + i)) wc (nc_RemotePeer (ns_Conn s)) upsert p;
              Some (wc, p, ws1 @ ws2)
            }
          });
     (protocolID, p, ws2) \<leftarrow> intern_string (now 6) (ns_Protocol s) p;
     let streamUpsert = \<lparr>su_StreamAlias = ucast streamID, su_ConnAlias = ucast (wc_connID wc),
       su_Direction = directionToIngest (directionFromNetwork (ns_Direction s)),
       su_ProtocolId = protocolID, su_OpenedAtNs = now 7\<rparr>;
     let p = p\<lparr>pb_net := addStreamUpsert streamUpsert (pb_net p)\<rparr>;
     (p, ws3) \<leftarrow> emit_payload (now 8) (Envelope_StreamUpsert streamUpsert) p;
     Some (\<lparr>ws_wconn = wc, ws_streamID = streamID, ws_protocol = ns_Protocol s\<rparr>, p, ws1 @ ws2 @ ws3)
   }"

text \<open>\<open>NewStream\<close> of the network and of the host: the inner call fails or returns a stream.\<close>

definition NewStream ::
  "(nat \<Rightarrow> int) \<Rightarrow> string + net_stream \<Rightarrow> Probe \<Rightarrow> ((string + wrappedStream) \<times> Probe \<times> sink_writes) go" where
  "NewStream now inner p =
     (case inner of
        Inl err \<Rightarrow> Some (Inl err, p, [])
      | Inr s \<Rightarrow> do {
          (w, p, ws) \<leftarrow> wrapStream now s p;
          Some (Inr w, p, ws)
        })"

definition SetProtocol :: "string option \<Rightarrow> string \<Rightarrow> wrappedStream \<Rightarrow> wrappedStream \<times> string option" where
  "SetProtocol inner ident s = (case inner of Some err \<Rightarrow> (s, Some err) | None \<Rightarrow> (s\<lparr>ws_protocol := ident\<rparr>, None))"

definition emitChunk :: "int \<Rightarrow> direction \<Rightarrow> bytes \<Rightarrow> wrappedStream \<Rightarrow> Probe \<Rightarrow> (Probe \<times> sink_writes) go" where
  "emitChunk now dir data s p = emit_payload now (Envelope_StreamChunk
     \<lparr>ch_StreamAlias = ucast (ws_streamID s), ch_Direction = directionToIngest dir, ch_Data = data\<rparr>) p"

text \<open>\<open>Read\<close> and \<open>Write\<close>: the buffer after the inner call, the count it returned; \<open>buf[:n]\<close> panics past the end.\<close>

definition Read_stream :: "int \<Rightarrow> bytes \<Rightarrow> int \<Rightarrow> wrappedStream \<Rightarrow> Probe \<Rightarrow> (Probe \<times> sink_writes) go" where
  "Read_stream now buf n s p =
     (if n > 0 then (if n \<le> int (length buf) then emitChunk now directionIn (take (nat n) buf) s p else None)
      else Some (p, []))"

definition Write_stream :: "int \<Rightarrow> bytes \<Rightarrow> int \<Rightarrow> wrappedStream \<Rightarrow> Probe \<Rightarrow> (Probe \<times> sink_writes) go" where
  "Write_stream now buf n s p =
     (if n > 0 then (if n \<le> int (length buf) then emitChunk now directionOut (take (nat n) buf) s p else None)
      else Some (p, []))"

definition emitClosed :: "(nat \<Rightarrow> int) \<Rightarrow> CloseReason \<Rightarrow> wrappedStream \<Rightarrow> Probe \<Rightarrow> (Probe \<times> sink_writes) go" where
  "emitClosed now reason s p = emit_payload (now 1) (Envelope_StreamClosed
     \<lparr>sc_StreamAlias = ucast (ws_streamID s), sc_ClosedAtNs = now 0, sc_Reason = reason\<rparr>)
     (p\<lparr>pb_net := removeStream (ws_streamID s) (pb_net p)\<rparr>)"

definition Close_stream :: "(nat \<Rightarrow> int) \<Rightarrow> wrappedStream \<Rightarrow> Probe \<Rightarrow> (Probe \<times> sink_writes) go" where
  "Close_stream now s p = emitClosed now CLOSE_REASON_CLOSE s p"

definition Reset_stream :: "(nat \<Rightarrow> int) \<Rightarrow> wrappedStream \<Rightarrow> Probe \<Rightarrow> (Probe \<times> sink_writes) go" where
  "Reset_stream now s p = emitClosed now CLOSE_REASON_RESET s p"

text \<open>\<open>Host.Close\<close>: the emitter stops before the sinks are closed.\<close>

definition Close_host :: "Probe \<Rightarrow> Probe \<times> sink_id list" where
  "Close_host p = (let e = SetClosed True (pb_emitter p) in (p\<lparr>pb_emitter := e\<rparr>, Sinks e))"

section \<open>Snapshots\<close>

record snapshot =
  sn_strings :: "string list"
  sn_peers :: "PeerUpsert list"
  sn_connections :: "ConnectionUpsert list"
  sn_streams :: "StreamUpsert list"

definition net_snapshot :: "wrappedNetwork \<Rightarrow> PeerUpsert list \<times> ConnectionUpsert list \<times> StreamUpsert list" where
  "net_snapshot n =
     (sort_slice (by_key_asc pu_PeerAlias) (map (\<lambda>q. peerUpsertFor (tp_alias q) (tp_peerID q)) (gvals (nw_peers n))),
      sort_slice (by_key_asc cu_ConnAlias) (gvals (nw_connectionUpserts n)),
      sort_slice (by_key_asc su_StreamAlias) (gvals (nw_streamUpserts n)))"

definition probe_snapshot :: "Probe \<Rightarrow> snapshot" where
  "probe_snapshot p =
     (case net_snapshot (pb_net p) of (peers, connections, streams) \<Rightarrow>
        \<lparr>sn_strings = intern_snapshot (em_strings (pb_emitter p)), sn_peers = peers,
         sn_connections = connections, sn_streams = streams\<rparr>)"

section \<open>What an operation emits\<close>

abbreviation strs :: "Probe \<Rightarrow> string list" where
  "strs p \<equiv> si_strings (em_strings (pb_emitter p))"

text \<open>An open probe with the history of its envelopes.\<close>

definition emitter_ok :: "Envelope list \<Rightarrow> Probe \<Rightarrow> bool" where
  "emitter_ok h p \<longleftrightarrow> history_ok h (pb_emitter p) \<and> intern_ok (em_strings (pb_emitter p)) \<and> \<not> em_closed (pb_emitter p)"

text \<open>Going from one state to the next, the history grows by some envelopes and each sink is handed exactly these, in order.\<close>

definition emission :: "Envelope list \<Rightarrow> Probe \<Rightarrow> Probe \<Rightarrow> sink_writes \<Rightarrow> Envelope list \<Rightarrow> bool" where
  "emission h p p' ws envs \<longleftrightarrow> emitter_ok (h @ envs) p'
     \<and> ws = concat (map (\<lambda>env. map (\<lambda>k. (k, env)) (em_sinks (pb_emitter p))) envs)
     \<and> em_sinks (pb_emitter p') = em_sinks (pb_emitter p)
     \<and> length (em_buffer (pb_emitter p')) = length (em_buffer (pb_emitter p))"

lemma emission_trans:
  "emission h p p1 ws1 envs1 \<Longrightarrow> emission (h @ envs1) p1 p2 ws2 envs2 \<Longrightarrow> emission h p p2 (ws1 @ ws2) (envs1 @ envs2)"
  by (simp add: emission_def)

lemma emission_refl: "emitter_ok h p \<Longrightarrow> emission h p p [] []"
  by (simp add: emission_def)

lemma emission_ok: "emission h p p' ws envs \<Longrightarrow> emitter_ok (h @ envs) p'"
  by (simp add: emission_def)

text \<open>Each sink that is registered once sees the envelopes in their order.\<close>

lemma emission_sink:
  assumes "emission h p p' ws envs" and "distinct (em_sinks (pb_emitter p))" and "k \<in> set (em_sinks (pb_emitter p))"
  shows "map snd (filter (\<lambda>w. fst w = k) ws) = envs"
proof -
  have "filter (\<lambda>i. i = k) ks = [k]" if "distinct ks" "k \<in> set ks" for ks
    using that by (induction ks) (auto simp: filter_empty_conv)
  then have one: "filter (\<lambda>i. i = k) (em_sinks (pb_emitter p)) = [k]" using assms(2,3) by blast
  show ?thesis
  proof -
    have "map snd (filter (\<lambda>w. fst w = k) (concat (map (\<lambda>env. map (\<lambda>k. (k, env)) (em_sinks (pb_emitter p))) es))) = es" for es
      using one by (induction es) (auto simp: filter_map o_def)
    then show ?thesis using assms(1) by (simp add: emission_def)
  qed
qed

text \<open>Changes that the emitter does not see.\<close>

lemma history_ok_counters [simp]:
  "history_ok h (e\<lparr>em_nextConnID := a\<rparr>) = history_ok h e" "history_ok h (e\<lparr>em_nextStreamID := a\<rparr>) = history_ok h e"
  "history_ok h (e\<lparr>em_nextPeerAlias := b\<rparr>) = history_ok h e" "history_ok h (e\<lparr>em_sinks := ks\<rparr>) = history_ok h e"
  by (simp_all add: history_ok_def entries_ok_def entries_def ring_def ring_ok_def)

lemma emit_payload_spec:
  assumes "emitter_ok h p" and "int (length h) + 2 < 2 ^ 64"
  shows "\<exists>p' ws env. emit_payload now pl p = Some (p', ws) \<and> emission h p p' ws [env] \<and> env_Payload env = Some pl
    \<and> pb_net p' = pb_net p \<and> em_strings (pb_emitter p') = em_strings (pb_emitter p)
    \<and> counters (pb_emitter p') = counters (pb_emitter p)"
proof -
  let ?env0 = "\<lparr>env_Seq = 0, env_ObservedAtNs = 0, env_Payload = Some pl\<rparr>"
  from assms Emit_history [of h "pb_emitter p" now ?env0] obtain e' where
    "Emit now ?env0 (pb_emitter p) = Some (e', map (\<lambda>s. (s, ?env0\<lparr>env_Seq := em_nextSeq (pb_emitter p), env_ObservedAtNs := now\<rparr>))
        (em_sinks (pb_emitter p)))"
    "history_ok (h @ [?env0\<lparr>env_Seq := em_nextSeq (pb_emitter p), env_ObservedAtNs := now\<rparr>]) e'" "\<not> em_closed e'"
    "em_sinks e' = em_sinks (pb_emitter p)" "length (em_buffer e') = length (em_buffer (pb_emitter p))"
    "em_strings e' = em_strings (pb_emitter p)" "counters e' = counters (pb_emitter p)"
    by (auto simp: emitter_ok_def)
  with assms(1) show ?thesis
    by (intro exI [of _ "p\<lparr>pb_emitter := e'\<rparr>"] exI [of _ "map (\<lambda>s. (s, _)) _"]
        exI [of _ "?env0\<lparr>env_Seq := em_nextSeq (pb_emitter p), env_ObservedAtNs := now\<rparr>"])
      (simp add: emit_payload_def emission_def emitter_ok_def)
qed

text \<open>The definitions announced when a string is interned.\<close>

definition string_defs :: "string list \<Rightarrow> string \<Rightarrow> Payload list" where
  "string_defs ss s = (if s \<in> set ss then [] else [Envelope_StringDef \<lparr>def_Id = of_nat (length ss), def_Value = s\<rparr>])"

lemma intern_string_spec:
  assumes "emitter_ok h p" and "int (length h) + 2 < 2 ^ 64" and "length (strs p) < 2 ^ 32"
  shows "\<exists>n p' ws envs. intern_string now s p = Some (n, p', ws) \<and> emission h p p' ws envs
    \<and> map env_Payload envs = map Some (string_defs (strs p) s) \<and> pb_net p' = pb_net p
    \<and> counters (pb_emitter p') = counters (pb_emitter p)
    \<and> strs p' = strs p @ (if s \<in> set (strs p) then [] else [s])
    \<and> unat n < length (strs p') \<and> strs p' ! unat n = s"
proof -
  have ok: "intern_ok (em_strings (pb_emitter p))" "history_ok h (pb_emitter p)" "\<not> em_closed (pb_emitter p)"
    using assms(1) by (simp_all add: emitter_ok_def)
  obtain n e' envs where *: "Intern now s (pb_emitter p) = Some (n, e', concat (map (\<lambda>env. map (\<lambda>k. (k, env)) (em_sinks (pb_emitter p))) envs))"
    "intern_ok (em_strings e') \<and> history_ok (h @ envs) e' \<and> \<not> em_closed e' \<and> em_sinks e' = em_sinks (pb_emitter p)
    \<and> length (em_buffer e') = length (em_buffer (pb_emitter p)) \<and> counters e' = counters (pb_emitter p)
    \<and> unat n < length (si_strings (em_strings e')) \<and> si_strings (em_strings e') ! unat n = s"
    "if s \<in> set (strs p) then e' = pb_emitter p \<and> envs = []
       else si_strings (em_strings e') = strs p @ [s] \<and> n = of_nat (length (strs p))
         \<and> envs = [\<lparr>env_Seq = em_nextSeq (pb_emitter p), env_ObservedAtNs = now,
             env_Payload = Some (Envelope_StringDef \<lparr>def_Id = n, def_Value = s\<rparr>)\<rparr>]"
    using Intern_history [OF ok(1,2) assms(2) ok(3) assms(3), of now s] by blast
  let ?p' = "p\<lparr>pb_emitter := e'\<rparr>"
  have "intern_string now s p = Some (n, ?p', concat (map (\<lambda>env. map (\<lambda>k. (k, env)) (em_sinks (pb_emitter p))) envs))"
    using *(1) by (simp add: intern_string_def)
  moreover have "emission h p ?p' (concat (map (\<lambda>env. map (\<lambda>k. (k, env)) (em_sinks (pb_emitter p))) envs)) envs"
    using *(2) by (simp add: emission_def emitter_ok_def)
  moreover have "map env_Payload envs = map Some (string_defs (strs p) s)"
    "strs ?p' = strs p @ (if s \<in> set (strs p) then [] else [s])"
    using *(3) by (auto simp: string_defs_def split: if_splits)
  ultimately show ?thesis using *(2) by (intro exI conjI) (assumption | simp)+
qed

end
