(* ===== verification/Mirroring.thy ===== *)
theory Mirroring
  imports Processing Probe_Network
begin

text \<open>
  The probe and the processor together: what the processor knows of a source (strings, streams, peers and
  connections) is a mirror of what the probe tracks.  The processor's state is read as three tables; a payload
  moves the tables by a step that does not depend on the rest of the processor; every operation of the
  probe emits exactly the payloads that move the tables along; and a snapshot sets up the mirror
  from any state.
\<close>

section \<open>The tables of a source\<close>

type_synonym source_tables = "(u32 \<rightharpoonup> string) \<times> (u64 \<rightharpoonup> string) \<times> PeerMap"

definition tables :: "sourceState \<Rightarrow> source_tables" where
  "tables src = (gget (src_strings src), (\<lambda>a. map_option st_protocol (gget (src_streams src) a)), src_peers src)"

definition conn_shown :: "(u32 \<Rightarrow> string) \<Rightarrow> ConnectionUpsert \<Rightarrow> ConnState" where
  "conn_shown look cu =
     \<lparr>cst_Api = \<lparr>cs_RemoteAddr = cu_RemoteAddr cu, cs_LocalAddr = cu_LocalAddr cu,
        cs_Direction = dirString (cu_Direction cu), cs_Transport = look (cu_TransportId cu),
        cs_Security = look (cu_SecurityId cu), cs_Muxer = look (cu_MuxerId cu),
        cs_OpenedAtNs = cu_OpenedAtNs cu\<rparr>,
      cst_PeerAlias = cu_PeerAlias cu\<rparr>"

definition look_up :: "(u32 \<rightharpoonup> string) \<Rightarrow> u32 \<Rightarrow> string" where
  "look_up S i = (case S i of None \<Rightarrow> [] | Some s \<Rightarrow> s)"

fun tables_step :: "Payload \<Rightarrow> source_tables \<Rightarrow> source_tables" where
  "tables_step Envelope_SnapshotStart (S, T, M) = (Map.empty, Map.empty, Clear M)"
| "tables_step Envelope_SnapshotEnd (S, T, M) = (S, T, M)"
| "tables_step (Envelope_StringDef d) (S, T, M) = (S(def_Id d \<mapsto> def_Value d), T, M)"
| "tables_step (Envelope_PeerUpsert u) (S, T, M) = (S, T, UpsertPeer (pu_PeerAlias u) (pu_PeerId u) M)"
| "tables_step (Envelope_ConnectionUpsert cu) (S, T, M) =
     (S, T, UpsertConnection (cu_ConnAlias cu) (conn_shown (look_up S) cu) M)"
| "tables_step (Envelope_ConnectionClosed c) (S, T, M) = (S, T, CloseConnection (cc_ConnAlias c) M)"
| "tables_step (Envelope_StreamUpsert s) (S, T, M) = (S, T(su_StreamAlias s \<mapsto> look_up S (su_ProtocolId s)), M)"
| "tables_step (Envelope_StreamClosed s) (S, T, M) = (S, T(sc_StreamAlias s := None), M)"
| "tables_step (Envelope_StreamChunk c) (S, T, M) = (S, T, M)"

lemma lookup_string_eq: "lookup_string src = look_up (gget (src_strings src))"
  by (rule HOL.ext) (simp add: lookup_string_def look_up_def getd_def)

lemma conn_state_eq: "conn_state src cu = conn_shown (look_up (gget (src_strings src))) cu"
  by (simp add: conn_state_def conn_shown_def lookup_string_eq)

lemma tables_ensure: "source_of sid (ensureSourceLocked sid f p) = f (source_of sid p)"
  by (simp add: ensureSourceLocked_def)

lemma source_of_cache [simp]: "source_of sid (p\<lparr>pr_cache := c\<rparr>) = source_of sid p"
  by (simp add: source_of_def)

lemma source_of_get: "gget (pr_sources p) sid = Some src \<Longrightarrow> source_of sid p = src"
  by (simp add: source_of_def getd_def)

lemma tables_chunk:
  assumes "handleStreamChunk ext now sid t c p = Some (p', effs)"
  shows "tables (source_of sid p') = tables (source_of sid p)"
  using assms
proof (cases rule: handleStreamChunk_Some)
  case (booked src st ref fd slots dec cache decoded agg)
  then show ?thesis by (simp add: source_of_get booked_source_def tables_def fun_eq_iff)
qed simp

lemma tables_closed: "tables (source_of sid (handleStreamClosed sid s p)) = tables_step (Envelope_StreamClosed s) (tables (source_of sid p))"
proof (cases "gget (pr_sources p) sid")
  case None
  then have "source_of sid p = newSourceState" by (simp add: source_of_def getd_def)
  with None show ?thesis by (simp add: handleStreamClosed_def tables_def newSourceState_def fun_eq_iff)
next
  case (Some src)
  then show ?thesis by (simp add: handleStreamClosed_def tables_def source_of_get fun_eq_iff)
qed

lemma tables_payload:
  assumes "apply_payload ext now sid t (Some pl) p = Some (p', effs)" and "pl \<noteq> Envelope_SnapshotStart"
  shows "tables (source_of sid p') = tables_step pl (tables (source_of sid p))"
proof (cases pl)
  case (Envelope_StreamChunk c)
  with assms show ?thesis by (cases "tables (source_of sid p)") (simp add: tables_chunk)
next
  case (Envelope_StreamUpsert s)
  with assms have "p' = handleStreamUpsert ext sid s p" by simp
  with Envelope_StreamUpsert show ?thesis
    by (simp add: handleStreamUpsert_def tables_ensure Let_def) (simp add: tables_def lookup_string_eq fun_eq_iff)
next
  case (Envelope_StreamClosed s)
  with assms have "p' = handleStreamClosed sid s p" by simp
  with Envelope_StreamClosed show ?thesis by (simp only: tables_closed)
qed (use assms in \<open>auto simp: tables_def tables_ensure conn_state_eq\<close>)

lemma tables_reset: "tables (source_of sid (ResetSource sid p)) = tables_step Envelope_SnapshotStart (tables (source_of sid p))"
proof (cases "gget (pr_sources p) sid")
  case None
  then have "source_of sid p = newSourceState" by (simp add: source_of_def getd_def)
  with None show ?thesis by (simp add: ResetSource_def tables_def newSourceState_def NewPeerMap_def Clear_def fun_eq_iff)
next
  case (Some src)
  then show ?thesis by (simp add: ResetSource_def tables_def source_of_get fun_eq_iff)
qed

lemma tables_cursor: "tables (source_of sid (advance_cursor seq sid p)) = tables (source_of sid p)"
  by (simp add: advance_cursor_def tables_ensure) (simp add: tables_def)

text \<open>One envelope that is not old: the processor accepts it and moves the tables by its payload.\<close>

definition cursor_after :: "Envelope \<Rightarrow> u64 \<Rightarrow> u64" where
  "cursor_after env c = (if env_Payload env = Some Envelope_SnapshotStart then 0
     else if env_Payload env = Some Envelope_SnapshotEnd then c else max (env_Seq env) c)"

lemma apply_tables:
  assumes "clock_ok (pr_clock p)" and "proc_ok ext p" and "env_Payload env = Some pl"
    and "env_Seq env = 0 \<or> LastAppliedSeq sid p < env_Seq env"
  shows "\<exists>p' effs. ApplyForSource ext now sid (Some env) p = Some (p', effs) \<and> proc_ok ext p' \<and> pr_clock p' = pr_clock p
    \<and> tables (source_of sid p') = tables_step pl (tables (source_of sid p))
    \<and> LastAppliedSeq sid p' = cursor_after env (LastAppliedSeq sid p)"
proof -
  obtain p' effs where run: "ApplyForSource ext now sid (Some env) p = Some (p', effs)" "proc_ok ext p'" "pr_clock p' = pr_clock p"
    using ApplyForSource_total [OF assms(1,2)] by blast
  consider (start) "pl = Envelope_SnapshotStart" | (finish) "pl = Envelope_SnapshotEnd"
    | (other) "pl \<noteq> Envelope_SnapshotStart" "pl \<noteq> Envelope_SnapshotEnd" by blast
  then have "tables (source_of sid p') = tables_step pl (tables (source_of sid p))
    \<and> LastAppliedSeq sid p' = cursor_after env (LastAppliedSeq sid p)"
  proof cases
    case start
    with run assms(3) have "p' = ResetSource sid p" by (simp add: ApplyForSource_def)
    moreover have "LastAppliedSeq sid (ResetSource sid p) = 0"
      by (simp add: ResetSource_def LastAppliedSeq_def split: option.split)
    ultimately show ?thesis using start assms(3) by (simp only: tables_reset) (simp add: cursor_after_def)
  next
    case finish
    with run assms(3) have "p' = p" by (simp add: ApplyForSource_def)
    with finish assms(3) show ?thesis by (cases "tables (source_of sid p)") (simp add: cursor_after_def)
  next
    case other
    have "\<not> (env_Seq env \<noteq> 0 \<and> gget (pr_sources p) sid \<noteq> None \<and> env_Seq env \<le> src_lastAppliedSeq (source_of sid p))"
      using assms(4) by (auto simp: LastAppliedSeq_eq)
    with run(1) other assms(3) obtain q where q: "apply_payload ext now sid (env_ObservedAtNs env) (Some pl) p = Some (q, effs)"
      "p' = advance_cursor (env_Seq env) sid q"
      by (auto simp: ApplyForSource_def bind_eq_Some_conv)
    then show ?thesis
      using tables_payload [OF q(1) other(1)] cursor_apply_payload [OF q(1)] other assms(3)
      by (simp add: tables_cursor cursor_advance cursor_after_def)
  qed
  with run show ?thesis by blast
qed

text \<open>Envelopes delivered one after the other, each with the time of its delivery.\<close>

definition deliver :: "string \<Rightarrow> (time \<times> Envelope) list \<Rightarrow> delivery list" where
  "deliver sid xs = map (\<lambda>(t, env). (t, sid, env)) xs"

fun accepted :: "u64 \<Rightarrow> Envelope list \<Rightarrow> bool" where
  "accepted c [] = True"
| "accepted c (env # envs) = ((env_Seq env = 0 \<or> c < env_Seq env) \<and> env_Payload env \<noteq> None \<and> accepted (cursor_after env c) envs)"

definition payloads :: "Envelope list \<Rightarrow> Payload list" where
  "payloads envs = map (\<lambda>env. the (env_Payload env)) envs"

lemma apply_all_tables:
  "clock_ok (pr_clock p) \<Longrightarrow> proc_ok ext p \<Longrightarrow> accepted (LastAppliedSeq sid p) (map snd xs) \<Longrightarrow>
    \<exists>p' effs. apply_all ext (deliver sid xs) p = Some (p', effs) \<and> proc_ok ext p' \<and> pr_clock p' = pr_clock p
      \<and> tables (source_of sid p') = fold tables_step (payloads (map snd xs)) (tables (source_of sid p))
      \<and> LastAppliedSeq sid p' = fold cursor_after (map snd xs) (LastAppliedSeq sid p)"
proof (induction xs arbitrary: p)
  case (Cons x xs)
  obtain t env where x: "x = (t, env)" by (cases x)
  with Cons.prems(3) obtain pl where pl: "env_Payload env = Some pl" by auto
  from Cons.prems x obtain p1 effs1 where 1: "ApplyForSource ext t sid (Some env) p = Some (p1, effs1)" "proc_ok ext p1"
    "pr_clock p1 = pr_clock p" "tables (source_of sid p1) = tables_step pl (tables (source_of sid p))"
    "LastAppliedSeq sid p1 = cursor_after env (LastAppliedSeq sid p)"
    using apply_tables [OF Cons.prems(1,2) pl, of sid t] by auto
  from Cons.IH [of p1] 1 Cons.prems x obtain p2 effs2 where
    "apply_all ext (deliver sid xs) p1 = Some (p2, effs2)" "proc_ok ext p2" "pr_clock p2 = pr_clock p"
    "tables (source_of sid p2) = fold tables_step (payloads (map snd xs)) (tables (source_of sid p1))"
    "LastAppliedSeq sid p2 = fold cursor_after (map snd xs) (LastAppliedSeq sid p1)"
    by auto
  with 1 x pl show ?case by (simp add: deliver_def payloads_def)
qed (simp add: deliver_def payloads_def)

section \<open>What the probe tracks\<close>

text \<open>Aliases of connections and streams are 32 bits wide in the probe and 64 bits in the messages.\<close>

definition widen :: "(u32 \<rightharpoonup> 'v) \<Rightarrow> u64 \<rightharpoonup> 'v" where
  "widen m a = (if ucast (ucast a :: u32) = a then m (ucast a) else None)"

lemma ucast_round [simp]: "ucast (ucast (k :: u32) :: u64) = k"
  by (rule bit_word_eqI) (simp add: bit_simps)

lemma widen_upd [simp]:
  "widen (m(k \<mapsto> v)) = (widen m)(ucast k \<mapsto> v)" "widen (m(k := None)) = (widen m)(ucast k := None)"
  by (auto simp: widen_def fun_eq_iff)

lemma widen_ucast [simp]: "widen m (ucast k) = m k"
  by (simp add: widen_def)

lemma widen_Some: "widen m a = Some v \<longleftrightarrow> (\<exists>k. a = ucast k \<and> m k = Some v)"
  by (auto simp: widen_def intro: exI [of _ "ucast a"])

definition string_table :: "string list \<Rightarrow> u32 \<rightharpoonup> string" where
  "string_table ss i = (if unat i < length ss then Some (ss ! unat i) else None)"

definition stream_table :: "string list \<Rightarrow> wrappedNetwork \<Rightarrow> u64 \<rightharpoonup> string" where
  "stream_table ss n a = map_option (\<lambda>u. ss ! unat (su_ProtocolId u)) (widen (gget (nw_streamUpserts n)) a)"

definition conn_table :: "string list \<Rightarrow> wrappedNetwork \<Rightarrow> u64 \<rightharpoonup> ConnState" where
  "conn_table ss n a = map_option (conn_shown (\<lambda>i. ss ! unat i)) (widen (gget (nw_connectionUpserts n)) a)"

lemma conn_table_upd:
  "nw_connectionUpserts n' = gput k u (nw_connectionUpserts n) \<Longrightarrow>
     conn_table ss n' = (conn_table ss n)(ucast k \<mapsto> conn_shown (\<lambda>i. ss ! unat i) u)"
  "nw_connectionUpserts n' = gdel k (nw_connectionUpserts n) \<Longrightarrow> conn_table ss n' = (conn_table ss n)(ucast k := None)"
  by (rule HOL.ext, simp add: conn_table_def del: fun_upd_apply, simp add: conn_table_def)+

lemma stream_table_upd:
  "nw_streamUpserts n' = gput k u (nw_streamUpserts n) \<Longrightarrow>
     stream_table ss n' = (stream_table ss n)(ucast k \<mapsto> ss ! unat (su_ProtocolId u))"
  "nw_streamUpserts n' = gdel k (nw_streamUpserts n) \<Longrightarrow> stream_table ss n' = (stream_table ss n)(ucast k := None)"
  by (rule HOL.ext, simp add: stream_table_def del: fun_upd_apply, simp add: stream_table_def)+

definition ident_of :: "PeerMap \<Rightarrow> u64 \<rightharpoonup> bytes" where
  "ident_of m a = map_option pst_PeerID (gget (pmap_peers m) a)"

text \<open>
  The tables mirror the probe: the same strings, the protocol of every open stream, every open connection with its
  addresses, direction and protocols, and every peer under the identity that the probe gave the alias to.
\<close>

definition mirrors :: "Probe \<Rightarrow> source_tables \<Rightarrow> bool" where
  "mirrors p tb \<longleftrightarrow> (case tb of (S, T, M) \<Rightarrow>
     S = string_table (strs p) \<and> T = stream_table (strs p) (pb_net p) \<and> peers_ok M
     \<and> open_conn M = conn_table (strs p) (pb_net p)
     \<and> (\<forall>a ident. ident_of M a = Some ident \<longrightarrow> (\<exists>q. gget (nw_peers (pb_net p)) ident = Some q \<and> tp_alias q = a)))"

definition conn_entry :: "string list \<Rightarrow> (bytes, trackedPeer) gomap \<Rightarrow> u32 \<Rightarrow> ConnectionUpsert \<Rightarrow> bool" where
  "conn_entry ss peers k u \<longleftrightarrow> cu_ConnAlias u = ucast k \<and> unat (cu_TransportId u) < length ss
     \<and> unat (cu_SecurityId u) < length ss \<and> unat (cu_MuxerId u) < length ss
     \<and> (\<exists>ident q. gget peers ident = Some q \<and> tp_alias q = cu_PeerAlias u)"

definition stream_entry :: "string list \<Rightarrow> u32 \<Rightarrow> StreamUpsert \<Rightarrow> bool" where
  "stream_entry ss k u \<longleftrightarrow> su_StreamAlias u = ucast k \<and> unat (su_ProtocolId u) < length ss"

definition peers_tracked :: "(bytes, trackedPeer) gomap \<Rightarrow> u64 \<Rightarrow> bool" where
  "peers_tracked peers bound \<longleftrightarrow> gm_ok peers
     \<and> (\<forall>ident q. gget peers ident = Some q \<longrightarrow> tp_peerID q = ident \<and> tp_alias q < bound)
     \<and> (\<forall>i j q r. gget peers i = Some q \<longrightarrow> gget peers j = Some r \<longrightarrow> tp_alias q = tp_alias r \<longrightarrow> i = j)"

definition probe_ok :: "Probe \<Rightarrow> bool" where
  "probe_ok p \<longleftrightarrow> peers_tracked (nw_peers (pb_net p)) (em_nextPeerAlias (pb_emitter p))
     \<and> gm_ok (nw_connectionUpserts (pb_net p)) \<and> gm_ok (nw_streamUpserts (pb_net p))
     \<and> (\<forall>k u. gget (nw_connectionUpserts (pb_net p)) k = Some u \<longrightarrow>
          k < em_nextConnID (pb_emitter p) \<and> conn_entry (strs p) (nw_peers (pb_net p)) k u)
     \<and> (\<forall>k u. gget (nw_streamUpserts (pb_net p)) k = Some u \<longrightarrow> stream_entry (strs p) k u)"

lemma ident_of_ops [simp]:
  "ident_of (UpsertPeer a ident m) = (ident_of m)(a \<mapsto> ident)"
  "ident_of (UpsertConnection c cs m) = ident_of m"
  by (auto simp: ident_of_def UpsertPeer_def UpsertConnection_def touch_def Let_def fun_eq_iff split: option.split)

lemma ident_of_Close: "ident_of (CloseConnection c m) a = Some i \<Longrightarrow> ident_of m a = Some i"
  by (auto simp: ident_of_def CloseConnection_def Let_def split: option.splits if_splits)

lemma ident_of_Clear [simp]: "ident_of (Clear m) = Map.empty"
  by (simp add: ident_of_def Clear_def fun_eq_iff)

lemma known_ident: "a \<in> known m \<longleftrightarrow> ident_of m a \<noteq> None"
  by (auto simp: known_def ident_of_def)

lemma look_up_string_table: "unat i < length ss \<Longrightarrow> look_up (string_table ss) i = ss ! unat i"
  by (simp add: look_up_def string_table_def)

lemma conn_shown_cong:
  "unat (cu_TransportId u) < length ss \<Longrightarrow> unat (cu_SecurityId u) < length ss \<Longrightarrow> unat (cu_MuxerId u) < length ss \<Longrightarrow>
     conn_shown (look_up (string_table ss)) u = conn_shown (\<lambda>i. ss ! unat i) u
     \<and> conn_shown (\<lambda>i. (ss @ x) ! unat i) u = conn_shown (\<lambda>i. ss ! unat i) u"
  by (simp add: conn_shown_def look_up_string_table nth_append)

section \<open>Following one operation\<close>

definition follows :: "Probe \<Rightarrow> Probe \<Rightarrow> Envelope list \<Rightarrow> bool" where
  "follows p p' envs \<longleftrightarrow> (\<forall>tb. mirrors p tb \<longrightarrow> mirrors p' (fold tables_step (payloads envs) tb))
     \<and> (\<forall>env \<in> set envs. env_Payload env \<notin> {None, Some Envelope_SnapshotStart, Some Envelope_SnapshotEnd})"

lemma payloads_simps [simp]:
  "payloads [] = []" "payloads (env # envs) = the (env_Payload env) # payloads envs"
  "payloads (xs @ ys) = payloads xs @ payloads ys"
  by (simp_all add: payloads_def)

lemma payloads_eq: "map env_Payload envs = map Some pls \<Longrightarrow> payloads envs = pls"
  by (induction envs arbitrary: pls) (auto simp: payloads_def)

lemma follows_trans: "follows p p1 xs \<Longrightarrow> follows p1 p2 ys \<Longrightarrow> follows p p2 (xs @ ys)"
  unfolding follows_def by (simp add: ball_Un del: split_paired_All)

text \<open>The mirror and the invariant depend on the interned strings and three maps of the network.\<close>

lemma mirrors_cong:
  assumes "strs p' = strs p" and "nw_peers (pb_net p') = nw_peers (pb_net p)"
    and "nw_connectionUpserts (pb_net p') = nw_connectionUpserts (pb_net p)"
    and "nw_streamUpserts (pb_net p') = nw_streamUpserts (pb_net p)"
  shows "mirrors p' = mirrors p"
  using assms by (simp add: mirrors_def stream_table_def conn_table_def fun_eq_iff)

lemma string_table_snoc:
  assumes "length ss < 2 ^ 32"
  shows "string_table (ss @ [s]) = (string_table ss)(of_nat (length ss) \<mapsto> s)"
proof
  fix i :: u32
  have un: "unat (of_nat (length ss) :: u32) = length ss" using assms by (simp add: unat_of_nat)
  show "string_table (ss @ [s]) i = ((string_table ss)(of_nat (length ss) \<mapsto> s)) i"
  proof (cases "i = of_nat (length ss)")
    case True
    with un show ?thesis by (simp add: string_table_def)
  next
    case False
    with un have "unat i \<noteq> length ss" by (metis word_unat_eq_iff)
    with False show ?thesis by (simp add: string_table_def nth_append)
  qed
qed

lemma tables_more_strings:
  assumes "probe_ok p"
  shows "stream_table (strs p @ x) (pb_net p) = stream_table (strs p) (pb_net p)"
    and "conn_table (strs p @ x) (pb_net p) = conn_table (strs p) (pb_net p)"
proof -
  show "stream_table (strs p @ x) (pb_net p) = stream_table (strs p) (pb_net p)"
  proof
    fix a
    show "stream_table (strs p @ x) (pb_net p) a = stream_table (strs p) (pb_net p) a"
      using assms by (cases "widen (gget (nw_streamUpserts (pb_net p))) a")
        (auto simp: stream_table_def widen_Some probe_ok_def stream_entry_def nth_append)
  qed
  show "conn_table (strs p @ x) (pb_net p) = conn_table (strs p) (pb_net p)"
  proof
    fix a
    show "conn_table (strs p @ x) (pb_net p) a = conn_table (strs p) (pb_net p) a"
      using assms by (cases "widen (gget (nw_connectionUpserts (pb_net p))) a")
        (auto simp: conn_table_def widen_Some probe_ok_def conn_entry_def conn_shown_cong)
  qed
qed

lemma probe_ok_more_strings:
  assumes "probe_ok p" and "strs p' = strs p @ x" and "pb_net p' = pb_net p" and "counters (pb_emitter p') = counters (pb_emitter p)"
  shows "probe_ok p'"
  using assms unfolding probe_ok_def conn_entry_def stream_entry_def counters_def by fastforce

text \<open>The result of an operation that goes right.\<close>

definition sound :: "Envelope list \<Rightarrow> Probe \<Rightarrow> (Probe \<times> sink_writes) go \<Rightarrow> bool" where
  "sound h p r \<longleftrightarrow> (\<exists>p' ws envs. r = Some (p', ws) \<and> emission h p p' ws envs \<and> probe_ok p' \<and> follows p p' envs)"

lemma intern_follows:
  assumes "emitter_ok h p" and "probe_ok p" and "int (length h) + 2 < 2 ^ 64" and "length (strs p) < 2 ^ 32"
  shows "\<exists>n p' ws envs x. intern_string now s p = Some (n, p', ws) \<and> emission h p p' ws envs \<and> probe_ok p' \<and> follows p p' envs
    \<and> length envs \<le> 1 \<and> length x \<le> 1 \<and> strs p' = strs p @ x \<and> unat n < length (strs p')
    \<and> pb_net p' = pb_net p \<and> counters (pb_emitter p') = counters (pb_emitter p)"
proof -
  obtain n p' ws envs where r: "intern_string now s p = Some (n, p', ws)" "emission h p p' ws envs"
    "map env_Payload envs = map Some (string_defs (strs p) s)" "pb_net p' = pb_net p"
    "counters (pb_emitter p') = counters (pb_emitter p)"
    "strs p' = strs p @ (if s \<in> set (strs p) then [] else [s])" "unat n < length (strs p')"
    using intern_string_spec [OF assms(1,3,4)] by blast
  have x: "length (if s \<in> set (strs p) then [] else [s]) \<le> 1" by simp
  have ok: "probe_ok p'" by (rule probe_ok_more_strings [OF assms(2) r(6,4,5)])
  have pls: "payloads envs = string_defs (strs p) s" by (rule payloads_eq [OF r(3)])
  have "mirrors p' (fold tables_step (payloads envs) tb)" if "mirrors p tb" for tb
    using that tables_more_strings [OF assms(2)] string_table_snoc [OF assms(4)] r(4,6)
    by (cases tb) (auto simp: mirrors_def pls string_defs_def)
  moreover have "\<forall>env \<in> set envs. env_Payload env \<in> Some ` set (string_defs (strs p) s)"
    using arg_cong [OF r(3), of set] by auto
  ultimately have "follows p p' envs" by (force simp: follows_def string_defs_def split: if_splits)
  moreover have "length envs \<le> 1" using arg_cong [OF r(3), of length] by (simp add: string_defs_def split: if_splits)
  ultimately show ?thesis using r ok x by (intro exI conjI) (assumption | rule x)+
qed

text \<open>Three strings interned in a row.\<close>

lemma intern3_follows:
  assumes "emitter_ok h p" and "probe_ok p" and "int (length h) + 4 < 2 ^ 64" and "length (strs p) + 2 < 2 ^ 32"
  shows "\<exists>i j k p' ws envs x. do {
       (i, p1, ws1) \<leftarrow> intern_string t1 a p; (j, p2, ws2) \<leftarrow> intern_string t2 b p1; (k, p3, ws3) \<leftarrow> intern_string t3 c p2;
       Some (i, j, k, p3, ws1 @ ws2 @ ws3) } = Some (i, j, k, p', ws)
    \<and> emission h p p' ws envs \<and> probe_ok p' \<and> follows p p' envs \<and> length envs \<le> 3 \<and> length x \<le> 3 \<and> strs p' = strs p @ x
    \<and> unat i < length (strs p') \<and> unat j < length (strs p') \<and> unat k < length (strs p')
    \<and> pb_net p' = pb_net p \<and> counters (pb_emitter p') = counters (pb_emitter p)"
proof -
  obtain i p1 ws1 e1 x1 where 1: "intern_string t1 a p = Some (i, p1, ws1)" "emission h p p1 ws1 e1" "probe_ok p1" "follows p p1 e1"
    "length e1 \<le> 1" "length x1 \<le> 1" "strs p1 = strs p @ x1" "unat i < length (strs p1)"
    "pb_net p1 = pb_net p" "counters (pb_emitter p1) = counters (pb_emitter p)"
    using intern_follows [OF assms(1,2), of t1 a] assms(3,4) by auto
  have "int (length (h @ e1)) + 2 < 2 ^ 64" "length (strs p1) < 2 ^ 32" using 1(5,6,7) assms(3,4) by simp_all
  then obtain j p2 ws2 e2 x2 where 2: "intern_string t2 b p1 = Some (j, p2, ws2)" "emission (h @ e1) p1 p2 ws2 e2" "probe_ok p2"
    "follows p1 p2 e2" "length e2 \<le> 1" "length x2 \<le> 1" "strs p2 = strs p1 @ x2" "unat j < length (strs p2)"
    "pb_net p2 = pb_net p1" "counters (pb_emitter p2) = counters (pb_emitter p1)"
    using intern_follows [OF emission_ok [OF 1(2)] 1(3), of t2 b] by blast
  have "int (length ((h @ e1) @ e2)) + 2 < 2 ^ 64" "length (strs p2) < 2 ^ 32" using 1(5,6,7) 2(5,6,7) assms(3,4) by simp_all
  then obtain k p3 ws3 e3 x3 where 3: "intern_string t3 c p2 = Some (k, p3, ws3)" "emission ((h @ e1) @ e2) p2 p3 ws3 e3" "probe_ok p3"
    "follows p2 p3 e3" "length e3 \<le> 1" "length x3 \<le> 1" "strs p3 = strs p2 @ x3" "unat k < length (strs p3)"
    "pb_net p3 = pb_net p2" "counters (pb_emitter p3) = counters (pb_emitter p2)"
    using intern_follows [OF emission_ok [OF 2(2)] 2(3), of t3 c] by blast
  have "emission h p p3 (ws1 @ ws2 @ ws3) (e1 @ e2 @ e3)"
    using emission_trans [OF 1(2) emission_trans [OF 2(2) 3(2)]] by simp
  moreover have "follows p p3 (e1 @ e2 @ e3)" by (rule follows_trans [OF 1(4) follows_trans [OF 2(4) 3(4)]])
  ultimately show ?thesis using 1 2 3
    by (intro exI [of _ i] exI [of _ j] exI [of _ k] exI [of _ p3] exI [of _ "ws1 @ ws2 @ ws3"] exI [of _ "e1 @ e2 @ e3"]
        exI [of _ "x1 @ x2 @ x3"]) simp
qed

text \<open>A new connection: its peer gets an alias unless it has one.\<close>

lemma peers_tracked_new:
  assumes "peers_tracked peers next" and "gget peers ident = None" and "next \<noteq> - 1"
  shows "peers_tracked (gput ident \<lparr>tp_alias = next, tp_peerID = ident\<rparr> peers) (next + 1)"
proof -
  have lt: "next < next + 1" using assms(3) by (rule word_inc_less)
  have "tp_alias q < next" if "gget peers i = Some q" for i q using that assms(1) by (simp add: peers_tracked_def)
  with assms lt show ?thesis
    unfolding peers_tracked_def by (auto split: if_splits dest: less_trans)
qed

definition peer_entry :: "bytes \<Rightarrow> Probe \<Rightarrow> trackedPeer \<times> Emitter \<times> (bytes, trackedPeer) gomap" where
  "peer_entry ident p = (case gget (nw_peers (pb_net p)) ident of
     Some q \<Rightarrow> (q, pb_emitter p, nw_peers (pb_net p))
   | None \<Rightarrow> let q = \<lparr>tp_alias = em_nextPeerAlias (pb_emitter p), tp_peerID = ident\<rparr>
       in (q, (pb_emitter p)\<lparr>em_nextPeerAlias := em_nextPeerAlias (pb_emitter p) + 1\<rparr>, gput ident q (nw_peers (pb_net p))))"

lemma peer_entry_spec:
  assumes "peer_entry ident p = (q, e, peers)" and "peers_tracked (nw_peers (pb_net p)) (em_nextPeerAlias (pb_emitter p))"
    and "em_nextPeerAlias (pb_emitter p) \<noteq> - 1"
  shows "gget peers ident = Some q" and "peers_tracked peers (em_nextPeerAlias e)"
    and "\<And>i r. gget (nw_peers (pb_net p)) i = Some r \<Longrightarrow> gget peers i = Some r"
    and "\<exists>a. e = (pb_emitter p)\<lparr>em_nextPeerAlias := a\<rparr>"
proof -
  consider (old) "gget (nw_peers (pb_net p)) ident = Some q" "e = pb_emitter p" "peers = nw_peers (pb_net p)"
    | (new) "gget (nw_peers (pb_net p)) ident = None" "q = \<lparr>tp_alias = em_nextPeerAlias (pb_emitter p), tp_peerID = ident\<rparr>"
      "e = (pb_emitter p)\<lparr>em_nextPeerAlias := em_nextPeerAlias (pb_emitter p) + 1\<rparr>" "peers = gput ident q (nw_peers (pb_net p))"
    using assms(1) by (auto simp: peer_entry_def Let_def split: option.splits)
  then have "gget peers ident = Some q \<and> peers_tracked peers (em_nextPeerAlias e)
    \<and> (\<forall>i r. gget (nw_peers (pb_net p)) i = Some r \<longrightarrow> gget peers i = Some r) \<and> (\<exists>a. e = (pb_emitter p)\<lparr>em_nextPeerAlias := a\<rparr>)"
  proof cases
    case old
    have "pb_emitter p = (pb_emitter p)\<lparr>em_nextPeerAlias := em_nextPeerAlias (pb_emitter p)\<rparr>" by simp
    with old assms(2) show ?thesis by blast
  next
    case new
    with peers_tracked_new [OF assms(2) new(1) assms(3)] show ?thesis by auto
  qed
  then show "gget peers ident = Some q" "peers_tracked peers (em_nextPeerAlias e)"
    "\<And>i r. gget (nw_peers (pb_net p)) i = Some r \<Longrightarrow> gget peers i = Some r" "\<exists>a. e = (pb_emitter p)\<lparr>em_nextPeerAlias := a\<rparr>"
    by blast+
qed

lemma track_conn_eq:
  assumes "gget (nw_conns (pb_net p)) (nc_ID conn) = None" and "peer_entry (nc_RemotePeer conn) p = (q, e, peers)"
  shows "\<exists>u wc conns byID. track_conn conn connID t i j k p = ((wc, Some u, True),
      \<lparr>pb_emitter = e, pb_net = (pb_net p)\<lparr>nw_peers := peers, nw_conns := conns, nw_connByID := byID,
         nw_connectionUpserts := gput connID u (nw_connectionUpserts (pb_net p))\<rparr>\<rparr>)
    \<and> wc_connID wc = connID \<and> wc_peerAlias wc = tp_alias q
    \<and> cu_ConnAlias u = ucast connID \<and> cu_PeerAlias u = tp_alias q \<and> cu_TransportId u = i \<and> cu_SecurityId u = j \<and> cu_MuxerId u = k"
  using assms unfolding track_conn_def peer_entry_def NextPeerAlias_def
  by (auto simp: Let_def split: option.splits intro!: exI)

text \<open>Adding one connection to the tables, after its peer.\<close>

lemma mirrors_connection:
  assumes "mirrors p tb" and "gget (nw_connectionUpserts (pb_net p)) k = None"
    and "strs p' = strs p" and "nw_streamUpserts (pb_net p') = nw_streamUpserts (pb_net p)"
    and "nw_connectionUpserts (pb_net p') = gput k u (nw_connectionUpserts (pb_net p))"
    and "\<And>i r. gget (nw_peers (pb_net p)) i = Some r \<Longrightarrow> gget (nw_peers (pb_net p')) i = Some r"
    and "conn_entry (strs p) (nw_peers (pb_net p')) k u" and "gget (nw_peers (pb_net p')) ident = Some q" and "tp_alias q = cu_PeerAlias u"
  shows "mirrors p' (fold tables_step [Envelope_PeerUpsert (peerUpsertFor (cu_PeerAlias u) ident), Envelope_ConnectionUpsert u] tb)"
proof -
  obtain S T M where tb: "tb = (S, T, M)" by (cases tb) auto
  let ?M1 = "UpsertPeer (cu_PeerAlias u) ident M" and ?cs = "conn_shown (look_up S) u"
  have m: "S = string_table (strs p)" "T = stream_table (strs p) (pb_net p)" "peers_ok M" "open_conn M = conn_table (strs p) (pb_net p)"
    and idents: "\<And>a i. ident_of M a = Some i \<Longrightarrow> \<exists>q. gget (nw_peers (pb_net p)) i = Some q \<and> tp_alias q = a"
    using assms(1) tb by (simp_all add: mirrors_def)
  have al: "cu_ConnAlias u = ucast k" using assms(7) by (simp add: conn_entry_def)
  have shown: "?cs = conn_shown (\<lambda>i. strs p ! unat i) u" using assms(7) conn_shown_cong m(1) by (simp add: conn_entry_def)
  have ok1: "peers_ok ?M1" using m(3) by (rule peers_ok_UpsertPeer)
  have "open_conn M (ucast k) = None" using m(4) assms(2) by (simp add: conn_table_def)
  then have own: "same_owner ?M1 (ucast k) ?cs" by (simp add: same_owner_def open_conn_UpsertPeer)
  have kn: "cst_PeerAlias ?cs \<in> known ?M1" by (simp add: known_ident conn_shown_def)
  have "peers_ok (UpsertConnection (ucast k) ?cs ?M1)" by (rule peers_ok_UpsertConnection [OF ok1 own])
  moreover have "open_conn (UpsertConnection (ucast k) ?cs ?M1) = conn_table (strs p') (pb_net p')"
    unfolding open_conn_UpsertConnection [OF ok1 own kn] open_conn_UpsertPeer m(4) conn_table_upd(1) [OF assms(5)] assms(3)
    by (simp only: shown)
  moreover have "\<exists>q. gget (nw_peers (pb_net p')) i = Some q \<and> tp_alias q = a"
    if "ident_of (UpsertConnection (ucast k) ?cs ?M1) a = Some i" for a i
    using that idents assms(6,8,9) by (auto split: if_splits dest: idents)
  moreover have "stream_table (strs p') (pb_net p') = T"
    unfolding m(2) by (rule HOL.ext) (simp add: assms(3,4) stream_table_def)
  ultimately show ?thesis using m(1) by (simp add: tb al mirrors_def peerUpsertFor_def assms(3))
qed

lemma emit2_follows:
  assumes "emitter_ok h p" and "int (length h) + 3 < 2 ^ 64"
  shows "\<exists>p' ws e1 e2. emit_connection now wc ident (Some u) p = Some (p', ws) \<and> emission h p p' ws [e1, e2]
    \<and> env_Payload e1 = Some (Envelope_PeerUpsert (peerUpsertFor (wc_peerAlias wc) ident))
    \<and> env_Payload e2 = Some (Envelope_ConnectionUpsert u)
    \<and> pb_net p' = pb_net p \<and> em_strings (pb_emitter p') = em_strings (pb_emitter p) \<and> counters (pb_emitter p') = counters (pb_emitter p)"
proof -
  obtain p1 ws1 e1 where 1: "emit_payload (now 0) (Envelope_PeerUpsert (peerUpsertFor (wc_peerAlias wc) ident)) p = Some (p1, ws1)"
    "emission h p p1 ws1 [e1]" "env_Payload e1 = Some (Envelope_PeerUpsert (peerUpsertFor (wc_peerAlias wc) ident))"
    "pb_net p1 = pb_net p" "em_strings (pb_emitter p1) = em_strings (pb_emitter p)" "counters (pb_emitter p1) = counters (pb_emitter p)"
    using emit_payload_spec [OF assms(1)] assms(2) by fastforce
  moreover have "int (length (h @ [e1])) + 2 < 2 ^ 64" using assms(2) by simp
  ultimately obtain p2 ws2 e2 where 2: "emit_payload (now 1) (Envelope_ConnectionUpsert u) p1 = Some (p2, ws2)"
    "emission (h @ [e1]) p1 p2 ws2 [e2]" "env_Payload e2 = Some (Envelope_ConnectionUpsert u)"
    "pb_net p2 = pb_net p1" "em_strings (pb_emitter p2) = em_strings (pb_emitter p1)" "counters (pb_emitter p2) = counters (pb_emitter p1)"
    using emit_payload_spec [OF emission_ok [OF 1(2)]] by blast
  with 1 emission_trans [OF 1(2) 2(2)] show ?thesis
    by (intro exI [of _ p2] exI [of _ "ws1 @ ws2"] exI [of _ e1] exI [of _ e2]) (simp add: emit_connection_def)
qed

lemma track_follows:
  assumes ok: "emitter_ok h p" "probe_ok p" and room: "int (length h) + 3 < 2 ^ 64" "em_nextPeerAlias (pb_emitter p) \<noteq> - 1"
    and ids: "unat i < length (strs p)" "unat j < length (strs p)" "unat k < length (strs p)"
    and new: "connID < em_nextConnID (pb_emitter p)" "gget (nw_connectionUpserts (pb_net p)) connID = None"
      "gget (nw_conns (pb_net p)) (nc_ID conn) = None"
  shows "\<exists>wc u p1 p' ws envs. track_conn conn connID t i j k p = ((wc, Some u, True), p1) \<and> wc_connID wc = connID
    \<and> emit_connection now wc (nc_RemotePeer conn) (Some u) p1 = Some (p', ws)
    \<and> emission h p p' ws envs \<and> probe_ok p' \<and> follows p p' envs \<and> length envs = 2 \<and> strs p' = strs p"
proof -
  obtain q e peers where q: "peer_entry (nc_RemotePeer conn) p = (q, e, peers)" by (cases "peer_entry (nc_RemotePeer conn) p") auto
  have tr: "peers_tracked (nw_peers (pb_net p)) (em_nextPeerAlias (pb_emitter p))" using ok(2) by (simp add: probe_ok_def)
  note q' = peer_entry_spec [OF q tr room(2)]
  obtain u wc conns byID where t: "track_conn conn connID t i j k p = ((wc, Some u, True),
      \<lparr>pb_emitter = e, pb_net = (pb_net p)\<lparr>nw_peers := peers, nw_conns := conns, nw_connByID := byID,
         nw_connectionUpserts := gput connID u (nw_connectionUpserts (pb_net p))\<rparr>\<rparr>)" (is "_ = (_, ?p1)")
    and wc: "wc_connID wc = connID" "wc_peerAlias wc = cu_PeerAlias u" and u: "cu_ConnAlias u = ucast connID" "cu_PeerAlias u = tp_alias q"
      "cu_TransportId u = i" "cu_SecurityId u = j" "cu_MuxerId u = k"
    using track_conn_eq [OF new(3) q, of connID t i j k] by auto
  from q'(4) obtain a where e: "e = (pb_emitter p)\<lparr>em_nextPeerAlias := a\<rparr>" by blast
  have ok1: "emitter_ok h ?p1" using ok(1) by (simp add: emitter_ok_def e)
  have entry: "conn_entry (strs p) peers connID u" using q'(1) u ids by (auto simp: conn_entry_def)
  obtain p' ws e1 e2 where em: "emit_connection now wc (nc_RemotePeer conn) (Some u) ?p1 = Some (p', ws)" "emission h ?p1 p' ws [e1, e2]"
    "env_Payload e1 = Some (Envelope_PeerUpsert (peerUpsertFor (wc_peerAlias wc) (nc_RemotePeer conn)))"
    "env_Payload e2 = Some (Envelope_ConnectionUpsert u)" "pb_net p' = pb_net ?p1"
    "em_strings (pb_emitter p') = em_strings (pb_emitter ?p1)" "counters (pb_emitter p') = counters (pb_emitter ?p1)"
    using emit2_follows [OF ok1 room(1), of now wc "nc_RemotePeer conn" u] by blast
  have str: "strs p' = strs p" using em(6) by (simp add: e)
  have "emission h p p' ws [e1, e2]" using em(2) by (simp add: emission_def e)
  moreover have "follows p p' [e1, e2]"
  proof -
    have "mirrors p' (fold tables_step (payloads [e1, e2]) tb)" if "mirrors p tb" for tb
      using mirrors_connection [OF that new(2) str, of u "nc_RemotePeer conn" q] em(3-5) wc(2) entry q'(1,3) u(2) by simp
    then show ?thesis using em(3,4) by (auto simp: follows_def)
  qed
  moreover have "probe_ok p'"
  proof -
    have old: "conn_entry (strs p) peers k' u'" if "conn_entry (strs p) (nw_peers (pb_net p)) k' u'" for k' u'
      using that q'(3) unfolding conn_entry_def by blast
    have "em_nextPeerAlias (pb_emitter p') = em_nextPeerAlias e" "em_nextConnID (pb_emitter p') = em_nextConnID (pb_emitter p)"
      using em(7) by (simp_all add: counters_def e)
    with q'(2) ok(2) old entry new(1) em(5) str show ?thesis
      unfolding probe_ok_def by auto
  qed
  ultimately show ?thesis using t em(1) wc(1) str
    by (intro exI [of _ wc] exI [of _ u] exI [of _ ?p1] exI [of _ p'] exI [of _ ws] exI [of _ "[e1, e2]"]) simp
qed

section \<open>Connections\<close>

lemma next_conn_id_spec:
  assumes "emitter_ok h p" and "probe_ok p" and "em_nextConnID (pb_emitter p) \<noteq> - 1" and "next_conn_id p = (c, p')"
  shows "emission h p p' [] []" "probe_ok p'" "follows p p' []" "c < em_nextConnID (pb_emitter p')"
    "gget (nw_connectionUpserts (pb_net p')) c = None" "strs p' = strs p" "pb_net p' = pb_net p"
    "em_nextPeerAlias (pb_emitter p') = em_nextPeerAlias (pb_emitter p)"
proof -
  let ?n = "em_nextConnID (pb_emitter p)"
  have p': "p' = p\<lparr>pb_emitter := (pb_emitter p)\<lparr>em_nextConnID := ?n + 1\<rparr>\<rparr>" and c: "c = ?n"
    using assms(4) by (auto simp: next_conn_id_def NextConnID_def Let_def)
  show inc: "c < em_nextConnID (pb_emitter p')" using word_inc_less [OF assms(3)] by (simp add: p' c)
  show "strs p' = strs p" "pb_net p' = pb_net p" "em_nextPeerAlias (pb_emitter p') = em_nextPeerAlias (pb_emitter p)"
    by (simp_all add: p')
  then have "mirrors p' = mirrors p" by (intro mirrors_cong) simp_all
  then show "follows p p' []" by (simp add: follows_def)
  show "emission h p p' [] []" using assms(1) by (simp add: emission_def emitter_ok_def p')
  have below: "k < ?n" if "gget (nw_connectionUpserts (pb_net p)) k = Some u" for k u
    using assms(2) that by (simp add: probe_ok_def)
  then show "gget (nw_connectionUpserts (pb_net p')) c = None" by (fastforce simp: p' c)
  have "k < ?n + 1" if "gget (nw_connectionUpserts (pb_net p)) k = Some u" for k u
    using below [OF that] word_inc_less [OF assms(3)] by (rule less_trans)
  with assms(2) show "probe_ok p'" by (simp add: probe_ok_def p')
qed

text \<open>The common part of \<open>Connected\<close> and \<open>wrapStream\<close>.\<close>

definition connect_block :: "(nat \<Rightarrow> int) \<Rightarrow> net_conn \<Rightarrow> Probe \<Rightarrow> (wrappedConn \<times> Probe \<times> sink_writes) go" where
  "connect_block now conn p = do {
     let openedAt = now 0;
     let (connID, p) = next_conn_id p;
     ((wc, upsert, created), p, ws1) \<leftarrow> connectionUpsertFor (\<lambda>i. now (1 + i)) conn connID openedAt p;
     if \<not> created then Some (wc, p, ws1)
     else do {
       (p, ws2) \<leftarrow> emit_connection (\<lambda>i. now (4 + i)) wc (nc_RemotePeer conn) upsert p;
       Some (wc, p, ws1 @ ws2)
     }
   }"

lemma Connected_block: "Connected now conn p = map_option snd (connect_block now conn p)"
  by (auto simp: Connected_def connect_block_def Let_def map_option_case split: prod.split bind_split)

lemma connect_block_follows:
  assumes ok: "emitter_ok h p" "probe_ok p" and room: "int (length h) + 6 < 2 ^ 64" "length (strs p) + 2 < 2 ^ 32"
    "em_nextPeerAlias (pb_emitter p) \<noteq> - 1" "em_nextConnID (pb_emitter p) \<noteq> - 1"
  shows "\<exists>wc p' ws envs x. connect_block now conn p = Some (wc, p', ws) \<and> emission h p p' ws envs \<and> probe_ok p' \<and> follows p p' envs
    \<and> length envs \<le> 5 \<and> strs p' = strs p @ x \<and> length x \<le> 3"
proof -
  obtain c p1 where id: "next_conn_id p = (c, p1)" by (cases "next_conn_id p")
  note n = next_conn_id_spec [OF ok room(4) id]
  have ok1: "emitter_ok h p1" using emission_ok [OF n(1)] by simp
  obtain i j k p2 ws1 e1 x where int3: "do {
       (i, q1, ws1) \<leftarrow> intern_string (now 1) (nc_Transport conn) p1; (j, q2, ws2) \<leftarrow> intern_string (now 2) (nc_Security conn) q1;
       (k, q3, ws3) \<leftarrow> intern_string (now 3) (nc_Muxer conn) q2; Some (i, j, k, q3, ws1 @ ws2 @ ws3) } = Some (i, j, k, p2, ws1)"
    "emission h p1 p2 ws1 e1" "probe_ok p2" "follows p1 p2 e1" "length e1 \<le> 3" "length x \<le> 3" "strs p2 = strs p1 @ x"
    "unat i < length (strs p2)" "unat j < length (strs p2)" "unat k < length (strs p2)"
    "pb_net p2 = pb_net p1" "counters (pb_emitter p2) = counters (pb_emitter p1)"
    using intern3_follows [OF ok1 n(2), of "now 1" "nc_Transport conn" "now 2" "nc_Security conn" "now 3" "nc_Muxer conn"] room n(6) by auto
  have call: "connectionUpsertFor (\<lambda>i. now (1 + i)) conn c t p1
      = (case track_conn conn c t i j k p2 of (r, p3) \<Rightarrow> Some (r, p3, ws1))" for t
    using int3(1) by (auto simp: connectionUpsertFor_def bind_eq_Some_conv numeral_2_eq_2 numeral_3_eq_3)
  have em1: "emission h p p2 ws1 e1" using emission_trans [OF n(1), of p2 ws1 e1] int3(2) by simp
  have fo1: "follows p p2 e1" using follows_trans [OF n(3) int3(4)] by simp
  show ?thesis
  proof (cases "gget (nw_conns (pb_net p2)) (nc_ID conn)")
    case (Some w)
    then have "track_conn conn c t i j k p2 = ((w, gget (nw_connectionUpserts (pb_net p2)) (wc_connID w), False), p2)" for t
      by (simp add: track_conn_def Let_def)
    then have "connect_block now conn p = Some (w, p2, ws1)" using call id by (simp add: connect_block_def)
    with em1 fo1 int3 n(6) show ?thesis by (intro exI [of _ w] exI [of _ p2] exI [of _ ws1] exI [of _ e1] exI [of _ x]) simp
  next
    case None
    have cnt: "em_nextPeerAlias (pb_emitter p2) \<noteq> - 1" "c < em_nextConnID (pb_emitter p2)"
      "gget (nw_connectionUpserts (pb_net p2)) c = None"
      using int3(11,12) n(4,5,8) room(3) by (simp_all add: counters_def)
    have "int (length (h @ e1)) + 3 < 2 ^ 64" using int3(5) room(1) by simp
    from track_follows [OF emission_ok [OF em1] int3(3) this cnt(1) int3(8-10) cnt(2,3) None, of "now 0" "\<lambda>i. now (4 + i)"]
    obtain wc u p3 p4 ws2 e2 where tr: "track_conn conn c (now 0) i j k p2 = ((wc, Some u, True), p3)"
      "emit_connection (\<lambda>i. now (4 + i)) wc (nc_RemotePeer conn) (Some u) p3 = Some (p4, ws2)"
      "emission (h @ e1) p2 p4 ws2 e2" "probe_ok p4" "follows p2 p4 e2" "length e2 = 2" "strs p4 = strs p2"
      by blast
    have "connect_block now conn p = Some (wc, p4, ws1 @ ws2)" using call id tr(1,2) by (simp add: connect_block_def)
    with emission_trans [OF em1 tr(3)] follows_trans [OF fo1 tr(5)] tr int3 n(6) show ?thesis
      by (intro exI [of _ wc] exI [of _ p4] exI [of _ "ws1 @ ws2"] exI [of _ "e1 @ e2"] exI [of _ x]) simp
  qed
qed

section \<open>Streams\<close>

lemma mirrors_stream:
  assumes "mirrors p tb" and "strs p' = strs p" and "nw_peers (pb_net p') = nw_peers (pb_net p)"
    and "nw_connectionUpserts (pb_net p') = nw_connectionUpserts (pb_net p)"
    and "nw_streamUpserts (pb_net p') = gput k u (nw_streamUpserts (pb_net p))" and "stream_entry (strs p) k u"
  shows "mirrors p' (tables_step (Envelope_StreamUpsert u) tb)"
proof -
  have "stream_table (strs p') (pb_net p') = (stream_table (strs p) (pb_net p))(ucast k \<mapsto> strs p ! unat (su_ProtocolId u))"
    unfolding stream_table_upd(1) [OF assms(5)] assms(2) ..
  moreover have "conn_table (strs p') (pb_net p') = conn_table (strs p) (pb_net p)"
    by (rule HOL.ext) (simp add: conn_table_def assms(2,4))
  ultimately show ?thesis using assms(1,2,3,6)
    by (cases tb) (simp add: mirrors_def stream_entry_def look_up_string_table)
qed

lemma gget_filter: "gm_ok m \<Longrightarrow> gget (filter (\<lambda>kv. P (snd kv)) m) k = (case gget m k of None \<Rightarrow> None | Some v \<Rightarrow> if P v then Some v else None)"
proof (induction m)
  case (Cons kv m)
  obtain a b where kv: "kv = (a, b)" by (cases kv)
  have "gget m a = None" using Cons.prems kv by (simp add: map_of_eq_None_iff)
  with Cons kv show ?case by (auto split: option.splits)
qed simp

text \<open>Closing some streams: exactly these disappear from the table.\<close>

lemma fold_stream_closed:
  "fold tables_step (map (\<lambda>a. Envelope_StreamClosed \<lparr>sc_StreamAlias = a, sc_ClosedAtNs = t, sc_Reason = r\<rparr>) as) (S, T, M)
     = (S, (\<lambda>a. if a \<in> set as then None else T a), M)"
proof (induction as arbitrary: T)
  case (Cons a as)
  show ?case by (simp add: Cons) (auto simp: fun_eq_iff)
qed simp

lemma stream_table_remove:
  assumes "probe_ok p" and "removeStreamsForConn c (pb_net p) = (aliases, n)"
  shows "stream_table ss n = (\<lambda>a. if a \<in> set aliases then None else stream_table ss (pb_net p) a)"
proof
  fix a
  have ok: "gm_ok (nw_streamUpserts (pb_net p))" using assms(1) by (simp add: probe_ok_def)
  have al: "a \<in> set aliases \<longleftrightarrow> (\<exists>k u. gget (nw_streamUpserts (pb_net p)) k = Some u \<and> su_ConnAlias u = ucast c \<and> su_StreamAlias u = a)"
    using assms(2) gget_iff [OF ok] by (force simp: removeStreamsForConn_def Let_def image_iff)
  have n: "gget (nw_streamUpserts n) k = (case gget (nw_streamUpserts (pb_net p)) k of None \<Rightarrow> None
      | Some u \<Rightarrow> if su_ConnAlias u \<noteq> ucast c then Some u else None)" for k
    using assms(2) gget_filter [OF ok, of "\<lambda>u. su_ConnAlias u \<noteq> ucast c" k] by (auto simp: removeStreamsForConn_def Let_def)
  have entry: "su_StreamAlias u = ucast k" if "gget (nw_streamUpserts (pb_net p)) k = Some u" for k u
    using that assms(1) by (simp add: probe_ok_def stream_entry_def)
  show "stream_table ss n a = (if a \<in> set aliases then None else stream_table ss (pb_net p) a)"
  proof (cases "widen (gget (nw_streamUpserts (pb_net p))) a")
    case None
    then have "widen (gget (nw_streamUpserts n)) a = None" using n by (simp add: widen_def split: if_splits)
    with None show ?thesis by (simp add: stream_table_def)
  next
    case (Some u)
    then obtain k where k: "a = ucast k" "gget (nw_streamUpserts (pb_net p)) k = Some u" by (auto simp: widen_Some)
    have "a \<in> set aliases \<longleftrightarrow> su_ConnAlias u = ucast c"
    proof
      assume "a \<in> set aliases"
      then obtain k' u' where u': "gget (nw_streamUpserts (pb_net p)) k' = Some u'" "su_ConnAlias u' = ucast c" "su_StreamAlias u' = a"
        unfolding al by blast
      then have "(ucast k' :: u64) = ucast k" using entry k(1) by simp
      then have "k' = k" by (metis ucast_round)
      with u' k(2) show "su_ConnAlias u = ucast c" by simp
    next
      assume "su_ConnAlias u = ucast c"
      with k entry [OF k(2)] show "a \<in> set aliases" unfolding al by auto
    qed
    with k n show ?thesis by (simp add: stream_table_def)
  qed
qed

lemma mirrors_disconnect:
  assumes "mirrors p tb" and "strs p' = strs p" and "nw_peers (pb_net p') = nw_peers (pb_net p)"
    and "stream_table (strs p) (pb_net p') = (\<lambda>a. if a \<in> set as then None else stream_table (strs p) (pb_net p) a)"
    and "conn_table (strs p) (pb_net p') = (conn_table (strs p) (pb_net p))(c := None)"
  shows "mirrors p' (fold tables_step (map (\<lambda>a. Envelope_StreamClosed \<lparr>sc_StreamAlias = a, sc_ClosedAtNs = t, sc_Reason = r\<rparr>) as
    @ [Envelope_ConnectionClosed \<lparr>cc_ConnAlias = c, cc_ClosedAtNs = t\<rparr>]) tb)"
proof -
  obtain S T M where tb: "tb = (S, T, M)" by (cases tb) auto
  have m: "S = string_table (strs p)" "T = stream_table (strs p) (pb_net p)" "peers_ok M" "open_conn M = conn_table (strs p) (pb_net p)"
    and idents: "\<And>a i. ident_of M a = Some i \<Longrightarrow> \<exists>q. gget (nw_peers (pb_net p)) i = Some q \<and> tp_alias q = a"
    using assms(1) tb by (simp_all add: mirrors_def)
  have "open_conn (CloseConnection c M) = conn_table (strs p) (pb_net p')"
    unfolding open_conn_CloseConnection [OF m(3)] m(4) assms(5) ..
  moreover have "\<exists>q. gget (nw_peers (pb_net p')) i = Some q \<and> tp_alias q = a" if "ident_of (CloseConnection c M) a = Some i" for a i
    using idents [OF ident_of_Close [OF that]] assms(3) by simp
  ultimately show ?thesis
    using m(1,2) peers_ok_CloseConnection [OF m(3)] assms(4)
    by (simp add: tb fold_stream_closed mirrors_def assms(2))
qed

lemma emit_streams_closed_spec:
  assumes "emitter_ok h p" and "int (length h) + int (length as) + 1 < 2 ^ 64"
  shows "\<exists>p' ws envs. emit_streams_closed now t as p = Some (p', ws) \<and> emission h p p' ws envs
    \<and> map env_Payload envs = map Some (map (\<lambda>a. Envelope_StreamClosed \<lparr>sc_StreamAlias = a, sc_ClosedAtNs = t, sc_Reason = CLOSE_REASON_CONN_CLOSED\<rparr>) as)
    \<and> pb_net p' = pb_net p \<and> em_strings (pb_emitter p') = em_strings (pb_emitter p) \<and> counters (pb_emitter p') = counters (pb_emitter p)"
  using assms
proof (induction as arbitrary: h p now)
  case Nil
  then show ?case by (auto intro: emission_refl)
next
  case (Cons a as)
  let ?pl = "Envelope_StreamClosed \<lparr>sc_StreamAlias = a, sc_ClosedAtNs = t, sc_Reason = CLOSE_REASON_CONN_CLOSED\<rparr>"
  from Cons.prems obtain p1 ws1 env where 1: "emit_payload (now 0) ?pl p = Some (p1, ws1)" "emission h p p1 ws1 [env]"
    "env_Payload env = Some ?pl" "pb_net p1 = pb_net p" "em_strings (pb_emitter p1) = em_strings (pb_emitter p)"
    "counters (pb_emitter p1) = counters (pb_emitter p)"
    using emit_payload_spec [OF Cons.prems(1), of "now 0" ?pl] by auto
  from Cons.IH [OF emission_ok [OF 1(2)], of "\<lambda>i. now (Suc i)"] Cons.prems(2) obtain p2 ws2 envs where
    "emit_streams_closed (\<lambda>i. now (Suc i)) t as p1 = Some (p2, ws2)" "emission (h @ [env]) p1 p2 ws2 envs"
    "map env_Payload envs = map Some (map (\<lambda>a. Envelope_StreamClosed \<lparr>sc_StreamAlias = a, sc_ClosedAtNs = t, sc_Reason = CLOSE_REASON_CONN_CLOSED\<rparr>) as)"
    "pb_net p2 = pb_net p1" "em_strings (pb_emitter p2) = em_strings (pb_emitter p1)" "counters (pb_emitter p2) = counters (pb_emitter p1)"
    by auto
  with 1 emission_trans [OF 1(2)] show ?case
    by (intro exI [of _ p2] exI [of _ "ws1 @ ws2"] exI [of _ "env # envs"]) fastforce
qed

section \<open>All operations\<close>

text \<open>One call into the wrapped host or network, and what libp2p handed to it.\<close>

datatype probe_op =
    OpConnected net_conn | OpDisconnected net_conn | OpStream net_stream
  | OpRead wrappedStream bytes int | OpWrite wrappedStream bytes int | OpCloseStream wrappedStream | OpResetStream wrappedStream

fun run_op :: "(nat \<Rightarrow> int) \<Rightarrow> probe_op \<Rightarrow> Probe \<Rightarrow> (Probe \<times> sink_writes) go" where
  "run_op now (OpConnected conn) p = Connected now conn p"
| "run_op now (OpDisconnected conn) p = Disconnected now conn p"
| "run_op now (OpStream s) p = map_option snd (wrapStream now s p)"
| "run_op now (OpRead s buf n) p = Read_stream (now 0) buf n s p"
| "run_op now (OpWrite s buf n) p = Write_stream (now 0) buf n s p"
| "run_op now (OpCloseStream s) p = Close_stream now s p"
| "run_op now (OpResetStream s) p = Reset_stream now s p"

text \<open>Readers and writers report at most as many bytes as the buffer holds.\<close>

fun op_valid :: "probe_op \<Rightarrow> bool" where
  "op_valid (OpRead s buf n) = (n \<le> int (length buf))"
| "op_valid (OpWrite s buf n) = (n \<le> int (length buf))"
| "op_valid _ = True"

text \<open>Sequence numbers, string numbers and aliases are not used up.\<close>

definition room :: "Envelope list \<Rightarrow> Probe \<Rightarrow> bool" where
  "room h p \<longleftrightarrow> int (length h) + int (length (nw_streamUpserts (pb_net p))) + 8 < 2 ^ 64 \<and> length (strs p) + 3 < 2 ^ 32
     \<and> em_nextPeerAlias (pb_emitter p) \<noteq> - 1 \<and> em_nextConnID (pb_emitter p) \<noteq> - 1"

lemma sound_connected:
  assumes "emitter_ok h p" and "probe_ok p" and "room h p"
  shows "sound h p (Connected now conn p)"
proof -
  from connect_block_follows [OF assms(1,2), of now conn] assms(3) obtain wc p' ws envs where
    "connect_block now conn p = Some (wc, p', ws)" "emission h p p' ws envs" "probe_ok p'" "follows p p' envs"
    by (auto simp: room_def)
  then show ?thesis by (auto simp: sound_def Connected_block)
qed

text \<open>An envelope that leaves the tables as they are.\<close>

lemma sound_chunk:
  assumes "emitter_ok h p" and "probe_ok p" and "room h p"
  shows "sound h p (emitChunk now dir data s p)"
proof -
  let ?pl = "Envelope_StreamChunk \<lparr>ch_StreamAlias = ucast (ws_streamID s), ch_Direction = directionToIngest dir, ch_Data = data\<rparr>"
  from assms(3) have "int (length h) + 2 < 2 ^ 64" by (simp add: room_def)
  then obtain p' ws env where em: "emit_payload now ?pl p = Some (p', ws)" "emission h p p' ws [env]" "env_Payload env = Some ?pl"
    "pb_net p' = pb_net p" "em_strings (pb_emitter p') = em_strings (pb_emitter p)" "counters (pb_emitter p') = counters (pb_emitter p)"
    using emit_payload_spec [OF assms(1)] by blast
  then have "mirrors p' = mirrors p" by (intro mirrors_cong) simp_all
  then have "follows p p' [env]" using em(3) by (auto simp: follows_def)
  moreover have "probe_ok p'" by (rule probe_ok_more_strings [OF assms(2), of _ "[]"]) (use em in simp_all)
  ultimately show ?thesis using em(1,2) by (auto simp: sound_def emitChunk_def)
qed

text \<open>Emitting one envelope after the network has changed.\<close>

lemma sound_change:
  assumes "emitter_ok h p" and "int (length h) + 2 < 2 ^ 64" and "probe_ok (p\<lparr>pb_net := n\<rparr>)"
    and "pl \<noteq> Envelope_SnapshotStart" "pl \<noteq> Envelope_SnapshotEnd"
    and step: "\<And>tb. mirrors p tb \<Longrightarrow> mirrors (p\<lparr>pb_net := n\<rparr>) (tables_step pl tb)"
  shows "sound h p (emit_payload now pl (p\<lparr>pb_net := n\<rparr>))"
proof -
  have "emitter_ok h (p\<lparr>pb_net := n\<rparr>)" using assms(1) by (simp add: emitter_ok_def)
  then obtain p' ws env where em: "emit_payload now pl (p\<lparr>pb_net := n\<rparr>) = Some (p', ws)" "emission h (p\<lparr>pb_net := n\<rparr>) p' ws [env]"
    "env_Payload env = Some pl" "pb_net p' = n" "em_strings (pb_emitter p') = em_strings (pb_emitter p)"
    "counters (pb_emitter p') = counters (pb_emitter p)"
    using emit_payload_spec [OF _ assms(2), of "p\<lparr>pb_net := n\<rparr>" now pl] by auto
  then have "mirrors p' = mirrors (p\<lparr>pb_net := n\<rparr>)" by (intro mirrors_cong) simp_all
  then have "follows p p' [env]" using em(3) step assms(4,5) by (simp add: follows_def del: split_paired_All)
  moreover have "probe_ok p'" by (rule probe_ok_more_strings [OF assms(3), of _ "[]"]) (use em in simp_all)
  moreover have "emission h p p' ws [env]" using em(2) by (simp add: emission_def)
  ultimately show ?thesis using em(1) by (auto simp: sound_def)
qed

lemma sound_closed:
  assumes "emitter_ok h p" and "probe_ok p" and "room h p"
  shows "sound h p (emitClosed now r s p)"
  unfolding emitClosed_def
proof (rule sound_change [OF assms(1)])
  let ?n = "removeStream (ws_streamID s) (pb_net p)"
  show "int (length h) + 2 < 2 ^ 64" using assms(3) by (simp add: room_def)
  show "probe_ok (p\<lparr>pb_net := ?n\<rparr>)" using assms(2) by (auto simp: probe_ok_def removeStream_def)
  fix tb assume m: "mirrors p tb"
  have "stream_table (strs p) ?n = (stream_table (strs p) (pb_net p))(ucast (ws_streamID s) := None)"
    by (rule stream_table_upd(2)) (simp add: removeStream_def)
  moreover have "conn_table (strs p) ?n = conn_table (strs p) (pb_net p)" by (rule HOL.ext) (simp add: conn_table_def removeStream_def)
  moreover have "nw_peers ?n = nw_peers (pb_net p)" by (simp add: removeStream_def)
  ultimately show "mirrors (p\<lparr>pb_net := ?n\<rparr>) (tables_step (Envelope_StreamClosed
      \<lparr>sc_StreamAlias = ucast (ws_streamID s), sc_ClosedAtNs = now 0, sc_Reason = r\<rparr>) tb)"
    using m by (cases tb) (simp add: mirrors_def)
qed simp_all

lemma wrapStream_block:
  "wrapStream now s p = do {
     let (streamID, p) = next_stream_id p;
     (wc, p, ws1) \<leftarrow> (case getConn (ns_Conn s) (pb_net p) of Some wc \<Rightarrow> Some (wc, p, []) | None \<Rightarrow> connect_block now (ns_Conn s) p);
     (protocolID, p, ws2) \<leftarrow> intern_string (now 6) (ns_Protocol s) p;
     let streamUpsert = \<lparr>su_StreamAlias = ucast streamID, su_ConnAlias = ucast (wc_connID wc),
       su_Direction = directionToIngest (directionFromNetwork (ns_Direction s)),
       su_ProtocolId = protocolID, su_OpenedAtNs = now 7\<rparr>;
     (p, ws3) \<leftarrow> emit_payload (now 8) (Envelope_StreamUpsert streamUpsert) (p\<lparr>pb_net := addStreamUpsert streamUpsert (pb_net p)\<rparr>);
     Some (\<lparr>ws_wconn = wc, ws_streamID = streamID, ws_protocol = ns_Protocol s\<rparr>, p, ws1 @ ws2 @ ws3)
   }"
  unfolding wrapStream_def connect_block_def Let_def ..

lemma next_stream_id_spec:
  assumes "emitter_ok h p" and "probe_ok p" and "next_stream_id p = (c, p')"
  shows "emission h p p' [] []" "probe_ok p'" "follows p p' []" "strs p' = strs p" "pb_net p' = pb_net p"
    "em_nextPeerAlias (pb_emitter p') = em_nextPeerAlias (pb_emitter p)" "em_nextConnID (pb_emitter p') = em_nextConnID (pb_emitter p)"
proof -
  have p': "p' = p\<lparr>pb_emitter := (pb_emitter p)\<lparr>em_nextStreamID := em_nextStreamID (pb_emitter p) + 1\<rparr>\<rparr>"
    using assms(3) by (auto simp: next_stream_id_def NextStreamID_def Let_def)
  show "strs p' = strs p" "pb_net p' = pb_net p"
    "em_nextPeerAlias (pb_emitter p') = em_nextPeerAlias (pb_emitter p)" "em_nextConnID (pb_emitter p') = em_nextConnID (pb_emitter p)"
    by (simp_all add: p')
  then have "mirrors p' = mirrors p" by (intro mirrors_cong) simp_all
  then show "follows p p' []" by (simp add: follows_def)
  show "emission h p p' [] []" using assms(1) by (simp add: emission_def emitter_ok_def p')
  show "probe_ok p'" using assms(2) by (simp add: probe_ok_def p')
qed

lemma sound_stream_upsert:
  assumes "emitter_ok h p" and "probe_ok p" and "int (length h) + 2 < 2 ^ 64"
    and "su_StreamAlias u = ucast (k :: u32)" and "unat (su_ProtocolId u) < length (strs p)"
  shows "sound h p (emit_payload now (Envelope_StreamUpsert u) (p\<lparr>pb_net := addStreamUpsert u (pb_net p)\<rparr>))"
proof (rule sound_change [OF assms(1,3)])
  have entry: "stream_entry (strs p) k u" using assms(4,5) by (simp add: stream_entry_def)
  have add: "nw_streamUpserts (addStreamUpsert u (pb_net p)) = gput k u (nw_streamUpserts (pb_net p))"
    by (simp add: addStreamUpsert_def assms(4))
  show "probe_ok (p\<lparr>pb_net := addStreamUpsert u (pb_net p)\<rparr>)"
    using assms(2) entry add by (auto simp: probe_ok_def addStreamUpsert_def)
  fix tb assume "mirrors p tb"
  then show "mirrors (p\<lparr>pb_net := addStreamUpsert u (pb_net p)\<rparr>) (tables_step (Envelope_StreamUpsert u) tb)"
    using add entry by (intro mirrors_stream [where k = k]) (simp_all add: addStreamUpsert_def)
qed simp_all

lemma sound_stream:
  assumes "emitter_ok h p" and "probe_ok p" and "room h p"
  shows "sound h p (map_option snd (wrapStream now s p))"
proof -
  obtain c p1 where id: "next_stream_id p = (c, p1)" by (cases "next_stream_id p")
  note n = next_stream_id_spec [OF assms(1,2) id]
  have ok1: "emitter_ok h p1" using emission_ok [OF n(1)] by simp
  have rm: "int (length h) + 8 < 2 ^ 64" "length (strs p1) + 3 < 2 ^ 32" "em_nextPeerAlias (pb_emitter p1) \<noteq> - 1"
    "em_nextConnID (pb_emitter p1) \<noteq> - 1" using assms(3) n by (simp_all add: room_def)
  have "\<exists>wc p2 ws1 e1 x. (case getConn (ns_Conn s) (pb_net p1) of Some wc \<Rightarrow> Some (wc, p1, []) | None \<Rightarrow> connect_block now (ns_Conn s) p1)
      = Some (wc, p2, ws1) \<and> emission h p1 p2 ws1 e1 \<and> probe_ok p2 \<and> follows p1 p2 e1 \<and> length e1 \<le> 5 \<and> strs p2 = strs p1 @ x \<and> length x \<le> 3"
  proof (cases "getConn (ns_Conn s) (pb_net p1)")
    case None
    with connect_block_follows [OF ok1 n(2), of now "ns_Conn s"] rm show ?thesis by auto
  next
    case (Some wc)
    with emission_refl [OF ok1] n(2) show ?thesis
      by (intro exI [of _ wc] exI [of _ p1] exI [of _ "[]"]) (simp add: follows_def)
  qed
  then obtain wc p2 ws1 e1 x where 2: "(case getConn (ns_Conn s) (pb_net p1) of Some wc \<Rightarrow> Some (wc, p1, [])
      | None \<Rightarrow> connect_block now (ns_Conn s) p1) = Some (wc, p2, ws1)" "emission h p1 p2 ws1 e1" "probe_ok p2" "follows p1 p2 e1"
    "length e1 \<le> 5" "strs p2 = strs p1 @ x" "length x \<le> 3" by blast
  have em2: "emission h p p2 ws1 e1" using emission_trans [OF n(1), of p2 ws1 e1] 2(2) by simp
  have "int (length (h @ e1)) + 2 < 2 ^ 64" "length (strs p2) < 2 ^ 32" using 2(5-7) rm(1,2) by simp_all
  from intern_follows [OF emission_ok [OF em2] 2(3) this, of "now 6" "ns_Protocol s"] obtain i p3 ws2 e2 where
    3: "intern_string (now 6) (ns_Protocol s) p2 = Some (i, p3, ws2)" "emission (h @ e1) p2 p3 ws2 e2" "probe_ok p3" "follows p2 p3 e2"
      "length e2 \<le> 1" "unat i < length (strs p3)" by blast
  have em3: "emission h p p3 (ws1 @ ws2) (e1 @ e2)" by (rule emission_trans [OF em2 3(2)])
  have "int (length (h @ e1 @ e2)) + 2 < 2 ^ 64" using 2(5) 3(5) rm(1) by simp
  let ?u = "\<lparr>su_StreamAlias = ucast c, su_ConnAlias = ucast (wc_connID wc),
       su_Direction = directionToIngest (directionFromNetwork (ns_Direction s)), su_ProtocolId = i, su_OpenedAtNs = now 7\<rparr>"
  from sound_stream_upsert [OF emission_ok [OF em3] 3(3) \<open>int (length (h @ e1 @ e2)) + 2 < 2 ^ 64\<close>, of ?u c "now 8"] 3(6)
  obtain p4 ws3 e3 where 4: "emit_payload (now 8) (Envelope_StreamUpsert ?u) (p3\<lparr>pb_net := addStreamUpsert ?u (pb_net p3)\<rparr>) = Some (p4, ws3)"
    "emission (h @ e1 @ e2) p3 p4 ws3 e3" "probe_ok p4" "follows p3 p4 e3" by (auto simp: sound_def)
  have "map_option snd (wrapStream now s p) = Some (p4, ws1 @ ws2 @ ws3)"
    using id 2(1) 3(1) 4(1) by (simp add: wrapStream_block)
  moreover have "emission h p p4 (ws1 @ ws2 @ ws3) (e1 @ e2 @ e3)" using emission_trans [OF em3 4(2)] by simp
  moreover have "follows p p4 (e1 @ e2 @ e3)"
    using follows_trans [OF n(3) follows_trans [OF 2(4) follows_trans [OF 3(4) 4(4)]]] by simp
  ultimately show ?thesis using 4(3) by (auto simp: sound_def)
qed

text \<open>Forgetting a connection and the streams that were open on it: what \<open>Disconnected\<close> leaves in the
  network's tables before it reports anything.\<close>

lemma forget_conn:
  assumes "probe_ok p" and "gget (nw_conns (pb_net p)) (nc_ID conn) = Some wc"
  obtains n1 n2 aliases where "removeAndGetConn conn (pb_net p) = (Some wc, n1)"
    and "removeStreamsForConn (wc_connID wc) n1 = (aliases, n2)"
    and "nw_peers n2 = nw_peers (pb_net p)" and "probe_ok (p\<lparr>pb_net := n2\<rparr>)"
    and "length aliases \<le> length (nw_streamUpserts (pb_net p))"
    and "stream_table (strs p) n2 = (\<lambda>a. if a \<in> set aliases then None else stream_table (strs p) (pb_net p) a)"
    and "conn_table (strs p) n2 = (conn_table (strs p) (pb_net p))(ucast (wc_connID wc) := None)"
proof -
  obtain n1 where n1: "removeAndGetConn conn (pb_net p) = (Some wc, n1)"
    "nw_connectionUpserts n1 = gdel (wc_connID wc) (nw_connectionUpserts (pb_net p))"
    "nw_streamUpserts n1 = nw_streamUpserts (pb_net p)" "nw_peers n1 = nw_peers (pb_net p)"
    using assms(2) by (simp add: removeAndGetConn_def Let_def)
  have ok1: "probe_ok (p\<lparr>pb_net := n1\<rparr>)" using assms(1) n1 by (auto simp: probe_ok_def)
  obtain aliases n2 where n2: "removeStreamsForConn (wc_connID wc) n1 = (aliases, n2)"
    "nw_connectionUpserts n2 = nw_connectionUpserts n1" "nw_peers n2 = nw_peers n1"
    by (simp add: removeStreamsForConn_def Let_def)
  have "stream_table (strs p) n1 = stream_table (strs p) (pb_net p)" by (rule HOL.ext) (simp add: stream_table_def n1(3))
  with stream_table_remove [OF ok1, of "wc_connID wc" aliases n2 "strs p"] n2(1)
  have st: "stream_table (strs p) n2 = (\<lambda>a. if a \<in> set aliases then None else stream_table (strs p) (pb_net p) a)"
    by (simp add: fun_eq_iff)
  have ct: "conn_table (strs p) n2 = (conn_table (strs p) (pb_net p))(ucast (wc_connID wc) := None)"
    by (rule conn_table_upd(2)) (simp add: n1(2) n2(2))
  have "gget (nw_streamUpserts n2) k = Some u \<Longrightarrow> gget (nw_streamUpserts (pb_net p)) k = Some u" and "gm_ok (nw_streamUpserts n2)" for k u
    using n2(1) n1(3) assms(1) gget_filter [of "nw_streamUpserts (pb_net p)" "\<lambda>u. su_ConnAlias u \<noteq> ucast (wc_connID wc)" k]
    by (auto simp: removeStreamsForConn_def Let_def probe_ok_def gm_ok_def distinct_map_filter split: option.splits if_splits)
  with ok1 n2 n1 assms(1) have "probe_ok (p\<lparr>pb_net := n2\<rparr>)" by (auto simp: probe_ok_def)
  moreover have "length aliases \<le> length (nw_streamUpserts (pb_net p))"
    using n2(1) n1(3) by (auto simp: removeStreamsForConn_def Let_def intro: order_trans [OF length_filter_le])
  ultimately show thesis using that n1(1,4) n2(1,3) st ct by simp
qed

text \<open>The reports of the closed streams and of the closed connection make a mirror forget the same.\<close>

lemma follows_disconnect:
  assumes "map env_Payload e1 = map Some (map (\<lambda>a. Envelope_StreamClosed \<lparr>sc_StreamAlias = a, sc_ClosedAtNs = t,
      sc_Reason = CLOSE_REASON_CONN_CLOSED\<rparr>) aliases)"
    and "env_Payload e2 = Some (Envelope_ConnectionClosed \<lparr>cc_ConnAlias = c, cc_ClosedAtNs = t\<rparr>)"
    and "nw_peers (pb_net p') = nw_peers (pb_net p)" and "em_strings (pb_emitter p') = em_strings (pb_emitter p)"
    and "stream_table (strs p) (pb_net p') = (\<lambda>a. if a \<in> set aliases then None else stream_table (strs p) (pb_net p) a)"
    and "conn_table (strs p) (pb_net p') = (conn_table (strs p) (pb_net p))(c := None)"
  shows "follows p p' (e1 @ [e2])"
proof -
  have pls: "payloads (e1 @ [e2]) = map (\<lambda>a. Envelope_StreamClosed \<lparr>sc_StreamAlias = a, sc_ClosedAtNs = t,
      sc_Reason = CLOSE_REASON_CONN_CLOSED\<rparr>) aliases @ [Envelope_ConnectionClosed \<lparr>cc_ConnAlias = c, cc_ClosedAtNs = t\<rparr>]"
    using payloads_eq [OF assms(1)] assms(2) by simp
  have "mirrors p' (fold tables_step (payloads (e1 @ [e2])) tb)" if "mirrors p tb" for tb
    unfolding pls by (rule mirrors_disconnect [OF that]) (use assms(3-6) in simp_all)
  moreover have "env_Payload env \<notin> {None, Some Envelope_SnapshotStart, Some Envelope_SnapshotEnd}" if "env \<in> set (e1 @ [e2])" for env
  proof -
    have "env_Payload env \<in> set (map env_Payload (e1 @ [e2]))" unfolding set_map using that by (rule imageI)
    then show ?thesis unfolding map_append assms(1) using assms(2) by auto
  qed
  ultimately show ?thesis unfolding follows_def by blast
qed

lemma sound_disconnected:
  assumes "emitter_ok h p" and "probe_ok p" and "room h p"
  shows "sound h p (Disconnected now conn p)"
proof (cases "gget (nw_conns (pb_net p)) (nc_ID conn)")
  case None
  let ?p = "p\<lparr>pb_net := (pb_net p)\<lparr>nw_conns := gdel (nc_ID conn) (nw_conns (pb_net p))\<rparr>\<rparr>"
  have "Disconnected now conn p = Some (?p, [])" using None by (simp add: Disconnected_def removeAndGetConn_def Let_def)
  moreover have "emission h p ?p [] []" "probe_ok ?p" using assms(1,2) by (simp_all add: emission_def emitter_ok_def probe_ok_def)
  moreover have "mirrors ?p = mirrors p" by (intro mirrors_cong) simp_all
  then have "follows p ?p []" by (simp add: follows_def)
  ultimately show ?thesis by (auto simp: sound_def)
next
  case (Some wc)
  obtain n1 n2 aliases where n: "removeAndGetConn conn (pb_net p) = (Some wc, n1)"
    "removeStreamsForConn (wc_connID wc) n1 = (aliases, n2)" "nw_peers n2 = nw_peers (pb_net p)" "probe_ok (p\<lparr>pb_net := n2\<rparr>)"
    "length aliases \<le> length (nw_streamUpserts (pb_net p))"
    "stream_table (strs p) n2 = (\<lambda>a. if a \<in> set aliases then None else stream_table (strs p) (pb_net p) a)"
    "conn_table (strs p) n2 = (conn_table (strs p) (pb_net p))(ucast (wc_connID wc) := None)"
    by (rule forget_conn [OF assms(2) Some])
  let ?p2 = "p\<lparr>pb_net := n2\<rparr>"
  have ok2: "emitter_ok h ?p2" using assms(1) by (simp add: emitter_ok_def)
  from n(5) assms(3) have "int (length h) + int (length aliases) + 1 < 2 ^ 64" by (simp add: room_def)
  from emit_streams_closed_spec [OF ok2 this, of "\<lambda>i. now (1 + i)" "now 0"] obtain p3 ws1 e1 where
    3: "emit_streams_closed (\<lambda>i. now (1 + i)) (now 0) aliases ?p2 = Some (p3, ws1)" "emission h ?p2 p3 ws1 e1"
      "map env_Payload e1 = map Some (map (\<lambda>a. Envelope_StreamClosed \<lparr>sc_StreamAlias = a, sc_ClosedAtNs = now 0, sc_Reason = CLOSE_REASON_CONN_CLOSED\<rparr>) aliases)"
      "pb_net p3 = n2" "em_strings (pb_emitter p3) = em_strings (pb_emitter p)" "counters (pb_emitter p3) = counters (pb_emitter p)"
    by auto
  let ?pl = "Envelope_ConnectionClosed \<lparr>cc_ConnAlias = ucast (wc_connID wc), cc_ClosedAtNs = now 0\<rparr>"
  have "length e1 = length aliases" using arg_cong [OF 3(3), of length] by simp
  with n(5) assms(3) have "int (length (h @ e1)) + 2 < 2 ^ 64" by (simp add: room_def)
  from emit_payload_spec [OF emission_ok [OF 3(2)] this, of "now (1 + length aliases)" ?pl] obtain p4 ws2 e2 where
    4: "emit_payload (now (1 + length aliases)) ?pl p3 = Some (p4, ws2)" "emission (h @ e1) p3 p4 ws2 [e2]" "env_Payload e2 = Some ?pl"
      "pb_net p4 = n2" "em_strings (pb_emitter p4) = em_strings (pb_emitter p)" "counters (pb_emitter p4) = counters (pb_emitter p)"
    using 3(4-6) by auto
  have "Disconnected now conn p = Some (p4, ws1 @ ws2)"
    using n(1,2) 3(1) 4(1) by (simp add: Disconnected_def)
  moreover have "emission h p p4 (ws1 @ ws2) (e1 @ [e2])"
    using emission_trans [OF 3(2) 4(2)] by (simp add: emission_def)
  moreover have "probe_ok p4" by (rule probe_ok_more_strings [OF n(4), of _ "[]"]) (use 4 in simp_all)
  moreover have "follows p p4 (e1 @ [e2])"
    by (rule follows_disconnect [OF 3(3) 4(3)]) (use 4(4,5) n(3,6,7) in simp_all)
  ultimately show ?thesis by (auto simp: sound_def)
qed

lemma run_op_sound:
  assumes "emitter_ok h p" and "probe_ok p" and "room h p" and "op_valid x"
  shows "sound h p (run_op now x p)"
proof -
  have "sound h p (Some (p, []))" using assms(1,2) emission_refl by (fastforce simp: sound_def follows_def)
  with assms show ?thesis
    by (cases x) (simp_all add: sound_connected sound_disconnected sound_stream sound_chunk sound_closed Read_stream_def Write_stream_def
        Close_stream_def Reset_stream_def)
qed

end
