(* ===== verification/Wire.thy ===== *)
theory Wire
  imports Messages Go_Lib
begin

text \<open>
  \<open>proto/xray/wire/wire.go\<close>: the typed, length-delimited framing of the ingest protocol.

  The protobuf codec is not part of the repository: \<open>marshal\<close> and \<open>unmarshal\<close> are
  arguments.  A writer is a state and a \<open>write\<close> function that may fail; a reader is the list
  of bytes the peer sends before it closes the connection.
\<close>

unbundle bit_operations_syntax

datatype wire_error =
    EOF
  | UnexpectedEOF
  | UnexpectedType u8 u8
  | VarintOverflow
  | MessageTooLarge u64
  | CodecError string
  | WriteError string

definition WireClientHello :: u8 where "WireClientHello = 0x01"
definition WireServerHello :: u8 where "WireServerHello = 0x02"
definition WireEnvelope :: u8 where "WireEnvelope = 0x03"
definition MaxMessageSize :: nat where "MaxMessageSize = 4 * 2 ^ 20"
definition IngestProtocolVersion :: u32 where "IngestProtocolVersion = 3"

lemmas wire_consts = WireClientHello_def WireServerHello_def WireEnvelope_def
  MaxMessageSize_def IngestProtocolVersion_def

type_synonym 'm marshal = "'m \<Rightarrow> wire_error + bytes"
type_synonym 'm unmarshal = "bytes \<Rightarrow> wire_error + 'm"
type_synonym 'w writer = "'w \<Rightarrow> bytes \<Rightarrow> 'w \<times> wire_error option"

section \<open>Writing\<close>

definition WriteTyped ::
  "'m marshal \<Rightarrow> 'w writer \<Rightarrow> 'w \<Rightarrow> u8 \<Rightarrow> 'm \<Rightarrow> 'w \<times> wire_error option" where
  "WriteTyped marshal write w typ msg =
     (case marshal msg of
        Inl err \<Rightarrow> (w, Some err)
      | Inr data \<Rightarrow>
          (case write w [typ] of
             (w, Some err) \<Rightarrow> (w, Some err)
           | (w, None) \<Rightarrow>
               (case write w (PutUvarint (of_nat (length data))) of
                  (w, Some err) \<Rightarrow> (w, Some err)
                | (w, None) \<Rightarrow> write w data)))"

definition WriteClientHello ::
  "ClientHello marshal \<Rightarrow> 'w writer \<Rightarrow> 'w \<Rightarrow> ClientHello \<Rightarrow> 'w \<times> wire_error option" where
  "WriteClientHello marshal write w msg = WriteTyped marshal write w WireClientHello msg"

definition WriteServerHello ::
  "ServerHello marshal \<Rightarrow> 'w writer \<Rightarrow> 'w \<Rightarrow> ServerHello \<Rightarrow> 'w \<times> wire_error option" where
  "WriteServerHello marshal write w msg = WriteTyped marshal write w WireServerHello msg"

definition WriteEnvelope ::
  "Envelope marshal \<Rightarrow> 'w writer \<Rightarrow> 'w \<Rightarrow> Envelope \<Rightarrow> 'w \<times> wire_error option" where
  "WriteEnvelope marshal write w msg = WriteTyped marshal write w WireEnvelope msg"

section \<open>Reading\<close>

text \<open>\<open>io.ReadFull\<close> of \<open>n\<close> bytes: \<open>EOF\<close> if there are none, \<open>UnexpectedEOF\<close> if too few.\<close>

definition ReadFull :: "nat \<Rightarrow> bytes \<Rightarrow> wire_error + bytes \<times> bytes" where
  "ReadFull n r =
     (if n \<le> length r then Inr (take n r, drop n r)
      else Inl (if r = [] then EOF else UnexpectedEOF))"

text \<open>The length loop of \<open>readDelimitedInto\<close>.\<close>

fun read_length :: "u64 \<Rightarrow> nat \<Rightarrow> bytes \<Rightarrow> wire_error + u64 \<times> bytes" where
  "read_length len shift [] = Inl EOF"
| "read_length len shift (b # r) =
     (let len = len OR push_bit shift (ucast (b AND 0x7f)) in
      if b AND 0x80 = 0 then Inr (len, r)
      else if 64 \<le> shift + 7 then Inl VarintOverflow
      else read_length len (shift + 7) r)"

definition readDelimited :: "bytes \<Rightarrow> wire_error + bytes \<times> bytes" where
  "readDelimited r =
     (case read_length 0 0 r of
        Inl err \<Rightarrow> Inl err
      | Inr (len, r) \<Rightarrow>
          if len > of_nat MaxMessageSize then Inl (MessageTooLarge len)
          else ReadFull (unat len) r)"

definition readDelimitedInto :: "'m unmarshal \<Rightarrow> bytes \<Rightarrow> wire_error + 'm \<times> bytes" where
  "readDelimitedInto unmarshal r =
     (case readDelimited r of
        Inl err \<Rightarrow> Inl err
      | Inr (data, r) \<Rightarrow>
          (case unmarshal data of Inl err \<Rightarrow> Inl err | Inr msg \<Rightarrow> Inr (msg, r)))"

definition ReadTyped :: "'m unmarshal \<Rightarrow> bytes \<Rightarrow> u8 \<Rightarrow> wire_error + 'm \<times> bytes" where
  "ReadTyped unmarshal r expectedType =
     (case ReadFull 1 r of
        Inl err \<Rightarrow> Inl err
      | Inr (typBuf, r) \<Rightarrow>
          if typBuf \<noteq> [expectedType] then Inl (UnexpectedType (hd typBuf) expectedType)
          else readDelimitedInto unmarshal r)"

definition ReadClientHello :: "ClientHello unmarshal \<Rightarrow> bytes \<Rightarrow> wire_error + ClientHello \<times> bytes" where
  "ReadClientHello unmarshal r = ReadTyped unmarshal r WireClientHello"

definition ReadServerHello :: "ServerHello unmarshal \<Rightarrow> bytes \<Rightarrow> wire_error + ServerHello \<times> bytes" where
  "ReadServerHello unmarshal r = ReadTyped unmarshal r WireServerHello"

definition ReadEnvelope :: "Envelope unmarshal \<Rightarrow> bytes \<Rightarrow> wire_error + Envelope \<times> bytes" where
  "ReadEnvelope unmarshal r = ReadTyped unmarshal r WireEnvelope"

fun InferNetwork :: "string \<Rightarrow> string" where
  "InferNetwork [] = ''tcp''"
| "InferNetwork (c # cs) = (if c = CHR ''/'' then ''unix'' else InferNetwork cs)"

section \<open>Framing\<close>

text \<open>The bytes of one typed frame, and a writer that accepts everything.\<close>

definition frame :: "u8 \<Rightarrow> bytes \<Rightarrow> bytes" where
  "frame typ data = typ # PutUvarint (of_nat (length data)) @ data"

definition append_writer :: "bytes writer" where
  "append_writer w bs = (w @ bs, None)"

definition wire_fits :: "bytes \<Rightarrow> bool" where
  "wire_fits d \<longleftrightarrow> length d \<le> MaxMessageSize"

lemma high_bit_clear: "b AND 0x80 = 0 \<longleftrightarrow> b < 0x80" for b :: u8
proof -
  have "b AND 0x80 = 0 \<longleftrightarrow> \<not> bit b 7"
    using and_exp_eq_0_iff_not_bit [of b 7] by simp
  also have "bit b 7 \<longleftrightarrow> bit (unat b) 7"
    by (simp add: bit_unsigned_iff)
  also have "\<dots> \<longleftrightarrow> odd (unat b div 2 ^ 7)"
    by (rule bit_iff_odd)
  also have "\<dots> \<longleftrightarrow> \<not> unat b < 128"
  proof -
    have "unat b < 256" using unsigned_less [of b] by simp
    then have "unat b div 128 = 0 \<or> unat b div 128 = 1" by auto
    then show ?thesis by auto
  qed
  finally show ?thesis by (simp add: word_less_nat_alt)
qed

lemma low7_small: "b < 0x80 \<Longrightarrow> b AND 0x7f = b" for b :: u8
  unfolding low7 by (simp add: word_unat_eq_iff unsigned_take_bit_eq take_bit_nat_eq_self word_less_nat_alt)

text \<open>The reader's length loop agrees with \<open>binary.Uvarint\<close> on every value that does not overflow.\<close>

lemma read_length_loop:
  "uvarint_loop i s x bs = (v, n) \<Longrightarrow> 0 < n \<Longrightarrow> s = 7 * i \<Longrightarrow> i \<le> 10 \<Longrightarrow>
   read_length x s bs = Inr (v, drop (nat n - i) bs)"
proof (induction i s x bs rule: uvarint_loop.induct)
  case (1 i s x)
  then show ?case by simp
next
  case (2 i s x b bs)
  show ?case
  proof (cases "b < 0x80")
    case True
    with "2.prems" have "v = x OR push_bit s (ucast b)" and "n = int i + 1"
      by (auto split: if_splits)
    with True show ?thesis by (simp add: high_bit_clear low7_small nat_add_distrib)
  next
    case False
    with "2.prems" have i: "i \<noteq> 10"
      and loop: "uvarint_loop (Suc i) (s + 7) (x OR push_bit s (ucast (b AND 0x7f))) bs = (v, n)"
      by (auto split: if_splits)
    from loop "2.prems"(2,4) i have "i < 9"
      by (cases "i = 9"; cases bs) auto
    from "2.IH" [OF i False loop "2.prems"(2)] "2.prems"(3,4) i
    have "read_length (x OR push_bit s (ucast (b AND 0x7f))) (s + 7) bs = Inr (v, drop (nat n - Suc i) bs)"
      by simp
    moreover have "Suc i < nat n"
      using uvarint_loop_len [OF loop "2.prems"(2)] \<open>i < 9\<close> by (simp add: zless_nat_eq_int_zless)
    then have "drop (nat n - i) (b # bs) = drop (nat n - Suc i) bs"
      by (simp add: drop_Cons')
    ultimately show ?thesis
      using False \<open>i < 9\<close> "2.prems"(3) by (simp add: high_bit_clear)
  qed
qed

lemma read_length_Uvarint:
  "Uvarint bs = (v, n) \<Longrightarrow> 0 < n \<Longrightarrow> read_length 0 0 bs = Inr (v, drop (nat n) bs)"
  using read_length_loop [of 0 0 0 bs v n] by (simp add: Uvarint_def)

lemma read_length_put: "read_length 0 0 (PutUvarint x @ rest) = Inr (x, rest)"
  using read_length_Uvarint [OF Uvarint_PutUvarint [of x rest]] PutUvarint_length [of x] by auto

lemma of_nat_u64_le: "n \<le> MaxMessageSize \<Longrightarrow> (of_nat n :: u64) \<le> of_nat MaxMessageSize"
  by (simp add: word_le_nat_alt unsigned_of_nat take_bit_nat_eq_self MaxMessageSize_def)

lemma readDelimited_frame:
  "wire_fits d \<Longrightarrow> readDelimited (PutUvarint (of_nat (length d)) @ d @ rest) = Inr (d, rest)"
  using of_nat_u64_le [of "length d"]
  by (simp add: readDelimited_def read_length_put ReadFull_def wire_fits_def MaxMessageSize_def
      unsigned_of_nat take_bit_nat_eq_self)

interpretation delimited: framing "\<lambda>d. PutUvarint (of_nat (length d)) @ d" readDelimited wire_fits
  by unfold_locales (simp add: readDelimited_frame)

text \<open>A decision of the length loop does not change when more bytes arrive.\<close>

lemma read_length_append:
  "read_length x s bs = Inr (v, r) \<Longrightarrow> read_length x s (bs @ cs) = Inr (v, r @ cs)"
  "read_length x s bs = Inl VarintOverflow \<Longrightarrow> read_length x s (bs @ cs) = Inl VarintOverflow"
  by (induction x s bs rule: read_length.induct) (auto simp: Let_def split: if_splits)

lemma read_length_error: "read_length x s bs = Inl e \<Longrightarrow> e = EOF \<or> e = VarintOverflow"
  by (induction x s bs rule: read_length.induct) (auto simp: Let_def split: if_splits)

lemma readDelimited_prefix:
  assumes "wire_fits d" and "PutUvarint (of_nat (length d)) @ d = p @ q" and "q \<noteq> []"
  shows "readDelimited p = Inl EOF \<or> readDelimited p = Inl UnexpectedEOF"
proof (cases "read_length 0 0 p")
  case (Inl e)
  have "e \<noteq> VarintOverflow"
    using read_length_append(2) [of 0 0 p q] Inl read_length_put [of "of_nat (length d)" d] assms(2)
    by auto
  with read_length_error [OF Inl] Inl show ?thesis by (simp add: readDelimited_def)
next
  case (Inr vr)
  obtain v r where vr: "vr = (v, r)" by (cases vr)
  from read_length_append(1) [of 0 0 p v r q] Inr vr read_length_put [of "of_nat (length d)" d] assms(2)
  have v: "v = of_nat (length d)" and d: "d = r @ q" by auto
  from d assms(3) have "length r < length d" by simp
  with assms(1) v vr Inr of_nat_u64_le [of "length d"] show ?thesis
    by (auto simp: readDelimited_def ReadFull_def wire_fits_def MaxMessageSize_def
        unsigned_of_nat take_bit_nat_eq_self)
qed

section \<open>Typed frames\<close>

lemma WriteTyped_append:
  "marshal msg = Inr d \<Longrightarrow> WriteTyped marshal append_writer w typ msg = (w @ frame typ d, None)"
  by (simp add: WriteTyped_def append_writer_def frame_def)

lemma ReadTyped_frame:
  "wire_fits d \<Longrightarrow> unmarshal d = Inr msg \<Longrightarrow> ReadTyped unmarshal (frame typ d @ rest) typ = Inr (msg, rest)"
  by (simp add: ReadTyped_def ReadFull_def frame_def readDelimitedInto_def readDelimited_frame)

text \<open>The probe's writes of a sequence of envelopes, and the reads of the receive loop.\<close>

primrec write_envelopes :: "Envelope marshal \<Rightarrow> bytes \<Rightarrow> Envelope list \<Rightarrow> bytes" where
  "write_envelopes marshal w [] = w"
| "write_envelopes marshal w (e # es) =
     write_envelopes marshal (fst (WriteEnvelope marshal append_writer w e)) es"

primrec read_envelopes ::
  "Envelope unmarshal \<Rightarrow> nat \<Rightarrow> bytes \<Rightarrow> wire_error + Envelope list \<times> bytes" where
  "read_envelopes unmarshal 0 r = Inr ([], r)"
| "read_envelopes unmarshal (Suc n) r =
     (case ReadEnvelope unmarshal r of
        Inl e \<Rightarrow> Inl e
      | Inr (env, r') \<Rightarrow>
          (case read_envelopes unmarshal n r' of
             Inl e \<Rightarrow> Inl e
           | Inr (envs, r'') \<Rightarrow> Inr (env # envs, r'')))"

definition sendable :: "'m marshal \<Rightarrow> 'm \<Rightarrow> bool" where
  "sendable marshal m \<longleftrightarrow> (case marshal m of Inl _ \<Rightarrow> False | Inr d \<Rightarrow> length d \<le> MaxMessageSize)"

lemma sendableE:
  assumes "sendable marshal m"
  obtains d where "marshal m = Inr d" and "wire_fits d"
  using assms by (auto simp: sendable_def wire_fits_def split: sum.splits)

lemma write_envelopes_frames:
  "list_all (sendable marshal) es \<Longrightarrow>
   write_envelopes marshal w es = w @ concat (map (\<lambda>e. frame WireEnvelope (projr (marshal e))) es)"
proof (induction es arbitrary: w)
  case Nil
  then show ?case by simp
next
  case (Cons e es)
  then obtain d where "marshal e = Inr d" by (auto elim: sendableE)
  with Cons show ?case by (simp add: WriteEnvelope_def WriteTyped_append)
qed

lemma read_frames:
  assumes "\<And>m d. marshal m = Inr d \<Longrightarrow> unmarshal d = Inr m" and "list_all (sendable marshal) es"
  shows "read_envelopes unmarshal (length es)
    (concat (map (\<lambda>e. frame WireEnvelope (projr (marshal e))) es) @ rest) = Inr (es, rest)"
  using assms(2)
proof (induction es)
  case Nil
  then show ?case by simp
next
  case (Cons e es)
  then obtain d where "marshal e = Inr d" and "wire_fits d" by (auto elim: sendableE)
  with Cons assms(1) show ?case by (simp add: ReadEnvelope_def ReadTyped_frame)
qed


definition demo_env :: Envelope where
  "demo_env = \<lparr>env_Seq = 7, env_ObservedAtNs = 1000, env_Payload = Some Envelope_SnapshotEnd\<rparr>"

text \<open>A codec for one envelope, to show that the hypotheses on the codec can hold.\<close>

definition demo_marshal :: "Envelope marshal" where
  "demo_marshal m = (if m = demo_env then Inr [8, 7, 16, 232, 7, 98, 0] else Inl (CodecError ''demo''))"

definition demo_unmarshal :: "Envelope unmarshal" where
  "demo_unmarshal d = (if d = [8, 7, 16, 232, 7, 98, 0] then Inr demo_env else Inl (CodecError ''demo''))"


text \<open>
  a connection that breaks in the middle of a frame never delivers a message: every proper
  prefix of a frame is reported as an end of file.
\<close>

lemma truncated_frame_is_eof:
  assumes "length d \<le> MaxMessageSize" and "frame typ d = p @ q" and "q \<noteq> []"
  shows "ReadTyped unmarshal p typ = Inl EOF \<or> ReadTyped unmarshal p typ = Inl UnexpectedEOF"
proof (cases p)
  case Nil
  then show ?thesis by (simp add: ReadTyped_def ReadFull_def)
next
  case (Cons t p')
  with assms(2) have t: "t = typ" and eq: "PutUvarint (of_nat (length d)) @ d = p' @ q"
    by (simp_all add: frame_def)
  from readDelimited_prefix [OF _ eq assms(3)] assms(1) Cons t show ?thesis
    by (auto simp: ReadTyped_def ReadFull_def readDelimitedInto_def wire_fits_def)
qed

text \<open>
  \<open>WriteTyped\<close> does not check the size the reader enforces: a message that marshals to more
  than 4 MiB is written without an error and then refused by the reader as too large.
\<close>

lemma oversized_frame_written_but_refused:
  assumes "marshal msg = Inr d" and "MaxMessageSize < length d" and "length d < 2 ^ 64"
  shows "snd (WriteTyped marshal append_writer w typ msg) = None
    \<and> fst (WriteTyped marshal append_writer w typ msg) = w @ frame typ d
    \<and> ReadTyped unmarshal (frame typ d @ rest) typ = Inl (MessageTooLarge (of_nat (length d)))"
proof -
  have "(of_nat (length d) :: u64) > of_nat MaxMessageSize"
    using assms(2,3)
    by (simp add: word_less_nat_alt unsigned_of_nat take_bit_nat_eq_self MaxMessageSize_def)
  with assms(1) show ?thesis
    by (simp add: WriteTyped_append ReadTyped_def ReadFull_def frame_def readDelimitedInto_def
        readDelimited_def read_length_put)
qed

text \<open>
  The length loop of the reader has no check on the tenth byte: an encoding that
  \<open>binary.Uvarint\<close> rejects as an overflow is read as a length whose high bits are lost.
\<close>

theorem reader_accepts_overflowing_length:
  "snd (Uvarint [0x80, 0x80, 0x80, 0x80, 0x80, 0x80, 0x80, 0x80, 0x80, 0x02]) < 0
    \<and> readDelimited [0x80, 0x80, 0x80, 0x80, 0x80, 0x80, 0x80, 0x80, 0x80, 0x02] = Inr ([], [])"
  by (simp add: Uvarint_def readDelimited_def ReadFull_def MaxMessageSize_def)

lemma InferNetwork_unix: "InferNetwork addr = (if CHR ''/'' \<in> set addr then ''unix'' else ''tcp'')"
  by (induction addr) auto

end
