(* ===== verification/Sinks.thy ===== *)
theory Sinks
  imports Probe_Network Wire
begin

text \<open>
  \<open>probe/sink_file.go\<close> and \<open>probe/sink_ingest.go\<close>: the two sinks of a probe.  A file and a network
  connection are writers in the sense of \<open>Wire\<close>: a state and a \<open>write\<close> function that may fail.
  Channels are lists with a capacity; goroutines are the operations that they run, one turn at a time.
  The random boot id, dialling, creating the file and protobuf are arguments.
\<close>

section \<open>Snapshots as envelopes\<close>

definition bare :: "Payload \<Rightarrow> Envelope" where
  "bare pl = \<lparr>env_Seq = 0, env_ObservedAtNs = 0, env_Payload = Some pl\<rparr>"

definition snapshotEnvelopes :: "snapshot \<Rightarrow> Envelope list" where
  "snapshotEnvelopes snap =
     [bare Envelope_SnapshotStart]
     @ map (\<lambda>(ident, v). bare (Envelope_StringDef \<lparr>def_Id = of_nat ident, def_Value = v\<rparr>)) (enumerate 0 (sn_strings snap))
     @ map (\<lambda>q. bare (Envelope_PeerUpsert q)) (sn_peers snap)
     @ map (\<lambda>c. bare (Envelope_ConnectionUpsert c)) (sn_connections snap)
     @ map (\<lambda>st. bare (Envelope_StreamUpsert st)) (sn_streams snap)
     @ [bare Envelope_SnapshotEnd]"

section \<open>The file sink\<close>

record 'w SinkFile =
  sf_file :: 'w
  sf_closed :: bool

definition writeEnvelopeLocked :: "Envelope marshal \<Rightarrow> 'w writer \<Rightarrow> Envelope \<Rightarrow> 'w \<Rightarrow> 'w \<times> wire_error option" where
  "writeEnvelopeLocked marshal write env w =
     (case marshal env of
        Inl err \<Rightarrow> (w, Some err)
      | Inr data \<Rightarrow>
          (case write w (PutUvarint (of_nat (length data))) of
             (w, Some err) \<Rightarrow> (w, Some err)
           | (w, None) \<Rightarrow> write w data))"

text \<open>The loop of \<open>writeSnapshotLocked\<close>, and of \<open>sendCatchup\<close>: stop at the first error.\<close>

fun write_each :: "(Envelope \<Rightarrow> 'w \<Rightarrow> 'w \<times> wire_error option) \<Rightarrow> Envelope list \<Rightarrow> 'w \<Rightarrow> 'w \<times> wire_error option" where
  "write_each put [] w = (w, None)"
| "write_each put (env # envs) w =
     (case put env w of (w, Some err) \<Rightarrow> (w, Some err) | (w, None) \<Rightarrow> write_each put envs w)"

definition writeSnapshotLocked :: "Envelope marshal \<Rightarrow> 'w writer \<Rightarrow> Probe \<Rightarrow> 'w \<Rightarrow> 'w \<times> wire_error option" where
  "writeSnapshotLocked marshal write p w =
     write_each (writeEnvelopeLocked marshal write) (snapshotEnvelopes (probe_snapshot p)) w"

definition NewSinkFile ::
  "Envelope marshal \<Rightarrow> 'w writer \<Rightarrow> wire_error + 'w \<Rightarrow> Probe \<Rightarrow> wire_error + 'w SinkFile" where
  "NewSinkFile marshal write create p =
     (case create of
        Inl err \<Rightarrow> Inl err
      | Inr w \<Rightarrow>
          (case writeSnapshotLocked marshal write p w of
             (w, Some err) \<Rightarrow> Inl err
           | (w, None) \<Rightarrow> Inr \<lparr>sf_file = w, sf_closed = False\<rparr>))"

definition Write_file :: "Envelope marshal \<Rightarrow> 'w writer \<Rightarrow> Envelope \<Rightarrow> 'w SinkFile \<Rightarrow> bool \<times> 'w SinkFile" where
  "Write_file marshal write env s =
     (if sf_closed s then (False, s)
      else case writeEnvelopeLocked marshal write env (sf_file s) of (w, err) \<Rightarrow> (err = None, s\<lparr>sf_file := w\<rparr>))"

definition Close_file :: "'w SinkFile \<Rightarrow> 'w SinkFile" where
  "Close_file s = (if sf_closed s then s else s\<lparr>sf_closed := True\<rparr>)"

text \<open>One tick of \<open>snapshotLoop\<close>.\<close>

definition snapshotLoop :: "Envelope marshal \<Rightarrow> 'w writer \<Rightarrow> Probe \<Rightarrow> 'w SinkFile \<Rightarrow> 'w SinkFile" where
  "snapshotLoop marshal write p s =
     (if \<not> sf_closed s then s\<lparr>sf_file := fst (writeSnapshotLocked marshal write p (sf_file s))\<rparr> else s)"

section \<open>The ingest sink\<close>

datatype sink_error = WireErr wire_error | NoConnection | ClosedBeforeAttach

record 'w SinkIngest =
  ig_localPeerID :: bytes
  ig_clientName :: string
  ig_bootID :: bytes
  ig_startedAtNs :: int
  ig_sourceID :: string
  ig_conn :: "'w option"
  ig_sendCh :: "Envelope list"
  ig_attached :: bool
  ig_closed :: bool

definition sendCap :: nat where "sendCap = 1024"

text \<open>\<open>randomBootID\<close>: what \<open>rand.Read\<close> returned, or the nanoseconds \<open>nano\<close> since 1970, their eight bytes twice.\<close>

definition time_bootID :: "int \<Rightarrow> bytes" where
  "time_bootID nano = map (\<lambda>i. of_int (nano div 2 ^ (i mod 8 * 8))) [0..<16]"

definition randomBootID :: "string + bytes \<Rightarrow> int \<Rightarrow> bytes" where
  "randomBootID random nano = (case random of Inl err \<Rightarrow> time_bootID nano | Inr ident \<Rightarrow> ident)"

definition NewSinkIngest :: "string \<Rightarrow> bytes \<Rightarrow> bytes \<Rightarrow> int \<Rightarrow> 'w SinkIngest" where
  "NewSinkIngest clientName localPeerID bootID startedAtNs =
     \<lparr>ig_localPeerID = localPeerID, ig_clientName = clientName, ig_bootID = bootID, ig_startedAtNs = startedAtNs,
      ig_sourceID = [], ig_conn = None, ig_sendCh = [], ig_attached = False, ig_closed = False\<rparr>"

text \<open>The outcomes that \<open>select\<close> may choose from; none means that the call blocks.\<close>

definition WaitForAttach :: "'w SinkIngest \<Rightarrow> sink_error option list" where
  "WaitForAttach s = (if ig_attached s then [None] else []) @ (if ig_closed s then [Some ClosedBeforeAttach] else [])"

definition Write_ingest :: "Envelope \<Rightarrow> 'w SinkIngest \<Rightarrow> bool \<times> 'w SinkIngest" where
  "Write_ingest env s =
     (if ig_closed s then (False, s)
      else if length (ig_sendCh s) < sendCap then (True, s\<lparr>ig_sendCh := ig_sendCh s @ [env]\<rparr>)
      else (False, s))"

text \<open>\<open>Close\<close> closes the connection under the pump and leaves the pointer to it.\<close>

definition Close_ingest :: "'w SinkIngest \<Rightarrow> 'w SinkIngest" where
  "Close_ingest s = (if ig_closed s then s else s\<lparr>ig_closed := True\<rparr>)"

definition client_hello :: "'w SinkIngest \<Rightarrow> ClientHello" where
  "client_hello s =
     \<lparr>hello_ProtocolVersion = IngestProtocolVersion, hello_PeerId = ig_localPeerID s, hello_ClientName = ig_clientName s,
      hello_BootId = ig_bootID s, hello_StartedAtNs = ig_startedAtNs s\<rparr>"

text \<open>\<open>connect\<close>: dialling fails or gives a writer and the bytes that the server will send.\<close>

definition connect ::
  "ClientHello marshal \<Rightarrow> ServerHello unmarshal \<Rightarrow> 'w writer \<Rightarrow> wire_error + 'w \<times> bytes \<Rightarrow> 'w SinkIngest
     \<Rightarrow> (wire_error + u64) \<times> 'w SinkIngest" where
  "connect marshal unmarshal write dial s =
     (case dial of
        Inl err \<Rightarrow> (Inl err, s)
      | Inr (conn, incoming) \<Rightarrow>
          (case WriteClientHello marshal write conn (client_hello s) of
             (conn, Some err) \<Rightarrow> (Inl err, s)
           | (conn, None) \<Rightarrow>
               (case ReadServerHello unmarshal incoming of
                  Inl err \<Rightarrow> (Inl err, s)
                | Inr (serverHello, _) \<Rightarrow>
                    (Inr (shello_LastAckedSeq serverHello),
                     s\<lparr>ig_conn := Some conn, ig_sourceID := shello_SourceId serverHello\<rparr>))))"

text \<open>What \<open>sendCatchup\<close> sends: the missing range, or a snapshot.  \<open>None\<close> is a panic of the ring.\<close>

definition catchup_envelopes :: "u64 \<Rightarrow> Probe \<Rightarrow> Envelope list go" where
  "catchup_envelopes lastAcked p =
     (if lastAcked > 0 then
        (case EventsFromSeq (lastAcked + 1) (pb_emitter p) of
           None \<Rightarrow> None
         | Some (replay, ok) \<Rightarrow> Some (if ok then replay else snapshotEnvelopes (probe_snapshot p)))
      else Some (snapshotEnvelopes (probe_snapshot p)))"

definition sendCatchup ::
  "Envelope marshal \<Rightarrow> 'w writer \<Rightarrow> u64 \<Rightarrow> Probe \<Rightarrow> 'w SinkIngest \<Rightarrow> (sink_error option \<times> 'w SinkIngest) go" where
  "sendCatchup marshal write lastAcked p s =
     (case ig_conn s of
        None \<Rightarrow> Some (Some NoConnection, s)
      | Some conn \<Rightarrow> do {
          envs \<leftarrow> catchup_envelopes lastAcked p;
          let (conn, err) = write_each (\<lambda>env w. WriteEnvelope marshal write w env) envs conn;
          Some (map_option WireErr err, s\<lparr>ig_conn := Some conn\<rparr>)
        })"

text \<open>
  \<open>writePump\<close> until the channel is empty, where it blocks; \<open>True\<close> when it returned because of an error or a
  missing connection.  An envelope whose write fails has left the channel.  On a closed sink the model's pump
  returns at once; the code may still take envelopes, which it writes to a closed connection.
\<close>

fun pump :: "Envelope marshal \<Rightarrow> 'w writer \<Rightarrow> Envelope list \<Rightarrow> 'w option \<Rightarrow> bool \<times> Envelope list \<times> 'w option" where
  "pump marshal write [] conn = (False, [], conn)"
| "pump marshal write (env # queue) None = (True, queue, None)"
| "pump marshal write (env # queue) (Some conn) =
     (case WriteEnvelope marshal write conn env of
        (conn, Some err) \<Rightarrow> (True, queue, Some conn)
      | (conn, None) \<Rightarrow> pump marshal write queue (Some conn))"

definition writePump :: "Envelope marshal \<Rightarrow> 'w writer \<Rightarrow> 'w SinkIngest \<Rightarrow> bool \<times> 'w SinkIngest" where
  "writePump marshal write s =
     (if ig_closed s then (True, s)
      else case pump marshal write (ig_sendCh s) (ig_conn s) of
        (stop, queue, conn) \<Rightarrow> (stop, s\<lparr>ig_sendCh := queue, ig_conn := conn\<rparr>))"

definition closeConn :: "'w SinkIngest \<Rightarrow> 'w SinkIngest" where
  "closeConn s = s\<lparr>ig_conn := None\<rparr>"

text \<open>
  One turn of \<open>connectLoop\<close>: the loop ends, starts over, or the pump waits for envelopes.
\<close>

datatype loop_outcome = LoopReturns | LoopAgain | PumpWaits

definition connectLoop ::
  "ClientHello marshal \<Rightarrow> ServerHello unmarshal \<Rightarrow> Envelope marshal \<Rightarrow> 'w writer \<Rightarrow> wire_error + 'w \<times> bytes \<Rightarrow> Probe
     \<Rightarrow> 'w SinkIngest \<Rightarrow> (loop_outcome \<times> 'w SinkIngest) go" where
  "connectLoop mh us me write dial p s =
     (if ig_closed s then Some (LoopReturns, s)
      else case connect mh us write dial s of
        (Inl err, s) \<Rightarrow> Some (LoopAgain, s)
      | (Inr lastAcked, s) \<Rightarrow> do {
          (err, s) \<leftarrow> sendCatchup me write lastAcked p s;
          if err \<noteq> None then Some (LoopAgain, closeConn s)
          else
            (case writePump me write (s\<lparr>ig_attached := True\<rparr>) of
               (stop, s) \<Rightarrow> Some (if stop then (LoopAgain, closeConn s) else (PumpWaits, s)))
        })"

section \<open>Lemmas\<close>

lemma sendCh_bounded:
  "length (ig_sendCh s) \<le> sendCap \<Longrightarrow> length (ig_sendCh (snd (Write_ingest env s))) \<le> sendCap"
  by (simp add: Write_ingest_def)

lemma write_each_append:
  "write_each put (xs @ ys) w = (case write_each put xs w of (w, Some err) \<Rightarrow> (w, Some err) | (w, None) \<Rightarrow> write_each put ys w)"
  by (induction xs arbitrary: w) (auto split: prod.split option.split)

text \<open>Without randomness two starts of a probe still have different boot ids, unless they read the same time.\<close>

lemma time_bootID_inj:
  assumes "time_bootID m = time_bootID n" and "0 \<le> m" and "m < 2 ^ 63" and "0 \<le> n" and "n < 2 ^ 63"
  shows "m = n"
proof -
  have byte: "m div 256 ^ i mod 256 = n div 256 ^ i mod 256" if "i < 8" for i
  proof -
    have "time_bootID m ! i = time_bootID n ! i" using assms(1) by simp
    then have "uint (of_int (m div 2 ^ (i * 8)) :: u8) = uint (of_int (n div 2 ^ (i * 8)) :: u8)" using that by (simp add: time_bootID_def)
    moreover have "(2 :: int) ^ (i * 8) = 256 ^ i" by (simp add: power_mult mult.commute [of i])
    ultimately show ?thesis by (simp add: uint_word_of_int)
  qed
  have "k \<le> 8 \<Longrightarrow> m mod 256 ^ k = n mod 256 ^ k" for k :: nat
  proof (induction k)
    case (Suc k)
    have "x mod 256 ^ Suc k = 256 ^ k * (x div 256 ^ k mod 256) + x mod 256 ^ k" for x :: int
      using mod_mult2_eq' [of x "256 ^ k" 256] by (simp add: mult.commute)
    with Suc byte [of k] show ?case by simp
  qed simp
  from this [of 8] assms(2-5) show ?thesis by simp
qed

end
