(* ===== verification/Linking.thy ===== *)
theory Linking
  imports Mirroring Sinks
begin

text \<open>
  A probe linked to a server: the probe works, its envelopes reach the processor in order, some late, some twice,
  connections break, and the ingest sink brings the server up to date after each handshake.  The
  snapshot sets up the mirror of the probe's state from any state of the processor, and what the ring
  replays after a break completes it.
\<close>

section \<open>Snapshots\<close>

lemma fold_upd_in:
  "x \<in> set xs \<Longrightarrow> inj_on f (set xs) \<Longrightarrow> fold (\<lambda>x T. T(f x \<mapsto> g x)) xs T (f x) = Some (g x)"
proof (induction xs rule: rev_induct)
  case (snoc y ys)
  show ?case
  proof (cases "f x = f y")
    case True
    have "x = y" by (rule inj_onD [OF snoc.prems(2) True]) (use snoc.prems(1) in simp_all)
    then show ?thesis by simp
  next
    case False
    with snoc.prems have "x \<in> set ys" by auto
    moreover have "inj_on f (set ys)" using snoc.prems(2) by (auto intro: inj_on_subset)
    ultimately show ?thesis using snoc.IH False by simp
  qed
qed simp

lemma fold_upd_notin: "a \<notin> f ` set xs \<Longrightarrow> fold (\<lambda>x T. T(f x \<mapsto> g x)) xs T a = T a"
  by (induction xs arbitrary: T) auto

text \<open>Upserts for all entries of a map, in any order, rebuild the map.\<close>

lemma fold_upserts:
  assumes "gm_ok m" and "set xs = set (gvals m)" and "\<And>k v. gget m k = Some v \<Longrightarrow> f v = (ucast (k :: u32) :: u64)"
  shows "fold (\<lambda>v T. T(f v \<mapsto> g v)) xs Map.empty = (\<lambda>a. map_option g (widen (gget m) a))"
proof
  fix a
  have vals: "v \<in> set xs \<longleftrightarrow> (\<exists>k. gget m k = Some v)" for v
    using assms(1,2) by (force simp: image_iff gget_iff [symmetric])
  have inj: "inj_on f (set xs)"
  proof (rule inj_onI)
    fix v w assume "v \<in> set xs" "w \<in> set xs" "f v = f w"
    then obtain k l where kl: "gget m k = Some v" "gget m l = Some w" "(ucast k :: u64) = ucast l"
      using vals assms(3) by metis
    then have "k = l" by (metis ucast_round)
    with kl show "v = w" by simp
  qed
  show "fold (\<lambda>v T. T(f v \<mapsto> g v)) xs Map.empty a = map_option g (widen (gget m) a)"
  proof (cases "widen (gget m) a")
    case None
    then have "a \<notin> f ` set xs" using vals assms(3) by auto
    with None show ?thesis by (simp add: fold_upd_notin)
  next
    case (Some v)
    then obtain k where "a = ucast k" "gget m k = Some v" by (auto simp: widen_Some)
    then have "v \<in> set xs" "f v = a" using vals assms(3) by auto
    with fold_upd_in [OF _ inj, of v g Map.empty] Some show ?thesis by simp
  qed
qed

lemma fold_strings:
  "length ss \<le> 2 ^ 32 \<Longrightarrow>
     fold tables_step (map (\<lambda>(ident, v). Envelope_StringDef \<lparr>def_Id = of_nat ident, def_Value = v\<rparr>) (enumerate 0 ss)) (Map.empty, T, M)
     = (string_table ss, T, M)"
proof (induction ss rule: rev_induct)
  case Nil
  then show ?case by (simp add: string_table_def fun_eq_iff)
next
  case (snoc s ss)
  then show ?case using string_table_snoc [of ss s] by (simp add: enumerate_append_eq fun_eq_iff)
qed

lemma fold_peers:
  "peers_ok M \<Longrightarrow> \<exists>M'. fold tables_step (map Envelope_PeerUpsert qs) (S, T, M) = (S, T, M') \<and> peers_ok M' \<and> open_conn M' = open_conn M
     \<and> ident_of M' = fold (\<lambda>q I. I(pu_PeerAlias q \<mapsto> pu_PeerId q)) qs (ident_of M)"
proof (induction qs arbitrary: M)
  case (Cons q qs)
  have "peers_ok (UpsertPeer (pu_PeerAlias q) (pu_PeerId q) M)" using Cons.prems by (rule peers_ok_UpsertPeer)
  from Cons.IH [OF this] show ?case by (simp add: open_conn_UpsertPeer)
qed simp

lemma fold_conns:
  "peers_ok M \<Longrightarrow> distinct (map cu_ConnAlias cs) \<Longrightarrow> \<forall>u \<in> set cs. open_conn M (cu_ConnAlias u) = None \<and> cu_PeerAlias u \<in> known M \<Longrightarrow>
     \<exists>M'. fold tables_step (map Envelope_ConnectionUpsert cs) (S, T, M) = (S, T, M') \<and> peers_ok M' \<and> ident_of M' = ident_of M
     \<and> open_conn M' = fold (\<lambda>u Q. Q(cu_ConnAlias u \<mapsto> conn_shown (look_up S) u)) cs (open_conn M)"
proof (induction cs arbitrary: M)
  case (Cons u cs)
  let ?M = "UpsertConnection (cu_ConnAlias u) (conn_shown (look_up S) u) M"
  have own: "same_owner M (cu_ConnAlias u) (conn_shown (look_up S) u)" using Cons.prems(3) by (simp add: same_owner_def)
  have kn: "cst_PeerAlias (conn_shown (look_up S) u) \<in> known M" using Cons.prems(3) by (simp add: conn_shown_def)
  note op = open_conn_UpsertConnection [OF Cons.prems(1) own kn]
  have ok: "peers_ok ?M" by (rule peers_ok_UpsertConnection [OF Cons.prems(1) own])
  have "\<forall>u' \<in> set cs. open_conn ?M (cu_ConnAlias u') = None \<and> cu_PeerAlias u' \<in> known ?M"
    using Cons.prems(2,3) unfolding op by (auto simp: known_ident image_iff)
  with Cons.IH [OF ok] Cons.prems(2) show ?case by (simp add: op del: fun_upd_apply)
qed simp

lemma fold_streams:
  "fold tables_step (map Envelope_StreamUpsert sts) (S, T, M)
     = (S, fold (\<lambda>u Q. Q(su_StreamAlias u \<mapsto> look_up S (su_ProtocolId u))) sts T, M)"
  by (induction sts arbitrary: T) simp_all

lemma snapshot_idents:
  assumes "peers_tracked peers b"
  defines "qs \<equiv> sort_slice (by_key_asc pu_PeerAlias) (map (\<lambda>q. peerUpsertFor (tp_alias q) (tp_peerID q)) (gvals peers))"
  defines "ids \<equiv> fold (\<lambda>q I. I(pu_PeerAlias q \<mapsto> pu_PeerId q)) qs Map.empty"
  shows "ids a = Some ident \<Longrightarrow> \<exists>q. gget peers ident = Some q \<and> tp_alias q = a"
    and "gget peers ident = Some q \<Longrightarrow> ids (tp_alias q) \<noteq> None"
proof -
  have ok: "gm_ok peers" using assms(1) by (simp add: peers_tracked_def)
  have mem: "x \<in> set qs \<longleftrightarrow> (\<exists>ident q. gget peers ident = Some q \<and> x = \<lparr>pu_PeerAlias = tp_alias q, pu_PeerId = ident\<rparr>)" for x
  proof -
    have "x \<in> set qs \<longleftrightarrow> (\<exists>ident q. (ident, q) \<in> set peers \<and> x = peerUpsertFor (tp_alias q) (tp_peerID q))"
      by (force simp: qs_def)
    also have "\<dots> \<longleftrightarrow> (\<exists>ident q. gget peers ident = Some q \<and> x = \<lparr>pu_PeerAlias = tp_alias q, pu_PeerId = ident\<rparr>)"
      unfolding gget_iff [OF ok] using assms(1) by (auto simp: peers_tracked_def peerUpsertFor_def)
    finally show ?thesis .
  qed
  have inj: "inj_on pu_PeerAlias (set qs)"
  proof (rule inj_onI)
    fix x y assume "x \<in> set qs" "y \<in> set qs" "pu_PeerAlias x = pu_PeerAlias y"
    obtain i q where i: "gget peers i = Some q" "x = \<lparr>pu_PeerAlias = tp_alias q, pu_PeerId = i\<rparr>" using \<open>x \<in> set qs\<close> unfolding mem by blast
    obtain j r where j: "gget peers j = Some r" "y = \<lparr>pu_PeerAlias = tp_alias r, pu_PeerId = j\<rparr>" using \<open>y \<in> set qs\<close> unfolding mem by blast
    have "tp_alias q = tp_alias r" using \<open>pu_PeerAlias x = pu_PeerAlias y\<close> i(2) j(2) by simp
    with assms(1) i(1) j(1) have "i = j" unfolding peers_tracked_def by blast
    with i j show "x = y" by simp
  qed
  have hit: "ids (pu_PeerAlias x) = Some (pu_PeerId x)" if "x \<in> set qs" for x
    unfolding ids_def by (rule fold_upd_in [OF that inj])
  show "\<exists>q. gget peers ident = Some q \<and> tp_alias q = a" if "ids a = Some ident"
  proof -
    have "a \<in> pu_PeerAlias ` set qs"
    proof (rule ccontr)
      assume "a \<notin> pu_PeerAlias ` set qs"
      then have "ids a = None" unfolding ids_def by (simp add: fold_upd_notin)
      with that show False by simp
    qed
    then obtain x where x: "x \<in> set qs" "pu_PeerAlias x = a" by blast
    obtain i q where i: "gget peers i = Some q" "x = \<lparr>pu_PeerAlias = tp_alias q, pu_PeerId = i\<rparr>" using x(1) unfolding mem by blast
    with hit [OF x(1)] x(2) that show ?thesis by simp
  qed
  show "ids (tp_alias q) \<noteq> None" if "gget peers ident = Some q"
    using that hit [of "\<lparr>pu_PeerAlias = tp_alias q, pu_PeerId = ident\<rparr>"] mem by auto
qed

lemma peers_ok_Clear: "peers_ok (Clear M)" "open_conn (Clear M) = Map.empty"
  by (simp_all add: peers_ok_def Clear_def conns_of_def open_conn_def fun_eq_iff)

text \<open>The connections and the streams of a snapshot.\<close>

definition sorted_conns :: "Probe \<Rightarrow> ConnectionUpsert list" where
  "sorted_conns p = sort_slice (by_key_asc cu_ConnAlias) (gvals (nw_connectionUpserts (pb_net p)))"

definition sorted_streams :: "Probe \<Rightarrow> StreamUpsert list" where
  "sorted_streams p = sort_slice (by_key_asc su_StreamAlias) (gvals (nw_streamUpserts (pb_net p)))"

definition sorted_peers :: "Probe \<Rightarrow> PeerUpsert list" where
  "sorted_peers p = sort_slice (by_key_asc pu_PeerAlias) (map (\<lambda>q. peerUpsertFor (tp_alias q) (tp_peerID q)) (gvals (nw_peers (pb_net p))))"

lemma snapshot_conns:
  assumes "probe_ok p"
  shows "distinct (map cu_ConnAlias (sorted_conns p))"
    and "fold (\<lambda>u Q. Q(cu_ConnAlias u \<mapsto> conn_shown (look_up (string_table (strs p))) u)) (sorted_conns p) Map.empty
      = conn_table (strs p) (pb_net p)"
proof -
  let ?m = "nw_connectionUpserts (pb_net p)"
  have gm: "gm_ok ?m" and entry: "\<And>k u. gget ?m k = Some u \<Longrightarrow> conn_entry (strs p) (nw_peers (pb_net p)) k u"
    using assms by (simp_all add: probe_ok_def)
  have "map cu_ConnAlias (gvals ?m) = map (ucast :: u32 \<Rightarrow> u64) (map fst ?m)"
    using entry gget_iff [OF gm] by (auto simp: conn_entry_def)
  moreover have "inj (ucast :: u32 \<Rightarrow> u64)" by (metis injI ucast_round)
  ultimately have "distinct (map cu_ConnAlias (gvals ?m))"
    using gm by (simp only: distinct_map gm_ok_def) (auto intro: inj_on_subset)
  moreover have "mset (map cu_ConnAlias (sorted_conns p)) = mset (map cu_ConnAlias (gvals ?m))"
    by (simp only: sorted_conns_def mset_map mset_sort_slice)
  ultimately show "distinct (map cu_ConnAlias (sorted_conns p))" by (metis mset_eq_imp_distinct_iff)
  have "fold (\<lambda>u Q. Q(cu_ConnAlias u \<mapsto> conn_shown (look_up (string_table (strs p))) u)) (sorted_conns p) Map.empty
      = (\<lambda>a. map_option (conn_shown (look_up (string_table (strs p)))) (widen (gget ?m) a))"
    by (rule fold_upserts [OF gm]) (use entry in \<open>auto simp: sorted_conns_def conn_entry_def\<close>)
  moreover have "map_option (conn_shown (look_up (string_table (strs p)))) (widen (gget ?m) a) = conn_table (strs p) (pb_net p) a" for a
    using entry by (cases "widen (gget ?m) a") (auto simp: conn_table_def widen_Some conn_entry_def conn_shown_cong)
  ultimately show "fold (\<lambda>u Q. Q(cu_ConnAlias u \<mapsto> conn_shown (look_up (string_table (strs p))) u)) (sorted_conns p) Map.empty
      = conn_table (strs p) (pb_net p)" by simp
qed

lemma snapshot_streams:
  assumes "probe_ok p"
  shows "fold (\<lambda>u Q. Q(su_StreamAlias u \<mapsto> look_up (string_table (strs p)) (su_ProtocolId u))) (sorted_streams p) Map.empty
    = stream_table (strs p) (pb_net p)"
proof -
  let ?m = "nw_streamUpserts (pb_net p)"
  have gm: "gm_ok ?m" and entry: "\<And>k u. gget ?m k = Some u \<Longrightarrow> stream_entry (strs p) k u"
    using assms by (simp_all add: probe_ok_def)
  have "fold (\<lambda>u Q. Q(su_StreamAlias u \<mapsto> look_up (string_table (strs p)) (su_ProtocolId u))) (sorted_streams p) Map.empty
      = (\<lambda>a. map_option (\<lambda>u. look_up (string_table (strs p)) (su_ProtocolId u)) (widen (gget ?m) a))"
    by (rule fold_upserts [OF gm]) (use entry in \<open>auto simp: sorted_streams_def stream_entry_def\<close>)
  moreover have "map_option (\<lambda>u. look_up (string_table (strs p)) (su_ProtocolId u)) (widen (gget ?m) a) = stream_table (strs p) (pb_net p) a" for a
    using entry by (cases "widen (gget ?m) a") (auto simp: stream_table_def widen_Some stream_entry_def look_up_string_table)
  ultimately show ?thesis by simp
qed

lemma snapshot_payloads:
  "payloads (snapshotEnvelopes (probe_snapshot p)) = [Envelope_SnapshotStart]
     @ map (\<lambda>(ident, v). Envelope_StringDef \<lparr>def_Id = of_nat ident, def_Value = v\<rparr>) (enumerate 0 (strs p))
     @ map Envelope_PeerUpsert (sorted_peers p) @ map Envelope_ConnectionUpsert (sorted_conns p)
     @ map Envelope_StreamUpsert (sorted_streams p) @ [Envelope_SnapshotEnd]"
  by (simp add: snapshotEnvelopes_def probe_snapshot_def net_snapshot_def intern_snapshot_def sorted_peers_def sorted_conns_def
      sorted_streams_def payloads_def bare_def o_def split_def)

text \<open>Whatever the tables were, the snapshot leaves the mirror of the probe.\<close>

lemma snapshot_mirrors:
  assumes "probe_ok p" and "length (strs p) \<le> 2 ^ 32"
  shows "mirrors p (fold tables_step (payloads (snapshotEnvelopes (probe_snapshot p))) tb)"
proof -
  obtain S0 T0 M0 where tb: "tb = (S0, T0, M0)" by (cases tb) auto
  let ?S = "string_table (strs p)"
  have tr: "peers_tracked (nw_peers (pb_net p)) (em_nextPeerAlias (pb_emitter p))"
    and gm: "gm_ok (nw_connectionUpserts (pb_net p))"
    and entry: "\<And>k u. gget (nw_connectionUpserts (pb_net p)) k = Some u \<Longrightarrow> conn_entry (strs p) (nw_peers (pb_net p)) k u"
    using assms(1) by (simp_all add: probe_ok_def)
  note ids = snapshot_idents [OF tr, folded sorted_peers_def]
  obtain M1 where M1: "fold tables_step (map Envelope_PeerUpsert (sorted_peers p)) (?S, Map.empty, Clear M0) = (?S, Map.empty, M1)"
    "peers_ok M1" "open_conn M1 = Map.empty" "ident_of M1 = fold (\<lambda>q I. I(pu_PeerAlias q \<mapsto> pu_PeerId q)) (sorted_peers p) Map.empty"
    using fold_peers [OF peers_ok_Clear(1), of "sorted_peers p" ?S Map.empty M0] peers_ok_Clear(2) by auto
  have "cu_PeerAlias u \<in> known M1" if u: "u \<in> set (sorted_conns p)" for u
  proof -
    obtain k where "gget (nw_connectionUpserts (pb_net p)) k = Some u"
      using u gget_iff [OF gm] by (force simp: sorted_conns_def)
    then obtain i q where i: "gget (nw_peers (pb_net p)) i = Some q" "tp_alias q = cu_PeerAlias u"
      using entry unfolding conn_entry_def by blast
    from ids(2) [OF i(1)] i(2) show ?thesis unfolding known_ident M1(4) by simp
  qed
  then obtain M2 where M2: "fold tables_step (map Envelope_ConnectionUpsert (sorted_conns p)) (?S, Map.empty, M1) = (?S, Map.empty, M2)"
    "peers_ok M2" "ident_of M2 = ident_of M1" "open_conn M2 = conn_table (strs p) (pb_net p)"
    using fold_conns [OF M1(2) snapshot_conns(1) [OF assms(1)], of ?S Map.empty] M1(3) snapshot_conns(2) [OF assms(1)] by auto
  have "fold tables_step (payloads (snapshotEnvelopes (probe_snapshot p))) tb = (?S, stream_table (strs p) (pb_net p), M2)"
    unfolding snapshot_payloads tb
    by (simp add: fold_strings [OF assms(2)] M1(1) M2(1) fold_streams snapshot_streams [OF assms(1)])
  with M2(2,4) ids(1) show ?thesis by (simp add: mirrors_def M2(3) M1(4))
qed

section \<open>A probe at work\<close>

text \<open>One operation of the probe; the history is what it hands to the sink \<open>k\<close>.\<close>

inductive probe_step :: "sink_id \<Rightarrow> Envelope list \<times> Probe \<Rightarrow> Envelope list \<times> Probe \<Rightarrow> bool" for k where
  operate: "room h p \<Longrightarrow> op_valid x \<Longrightarrow> run_op now x p = Some (p', ws) \<Longrightarrow>
    probe_step k (h, p) (h @ map snd (filter (\<lambda>w. fst w = k) ws), p')"

inductive_cases probe_stepE: "probe_step k (h, p) (h', p')"

inductive probed :: "sink_id \<Rightarrow> Envelope list \<Rightarrow> Probe \<Rightarrow> bool" for k where
  wrap: "distinct sinks \<Longrightarrow> k \<in> set sinks \<Longrightarrow> probed k [] (Wrap sz sinks)"
| step: "probed k h p \<Longrightarrow> probe_step k (h, p) (h', p') \<Longrightarrow> probed k h' p'"

definition clean :: "Envelope list \<Rightarrow> bool" where
  "clean h \<longleftrightarrow> (\<forall>env \<in> set h. env_Payload env \<notin> {None, Some Envelope_SnapshotStart, Some Envelope_SnapshotEnd})"

definition tracked :: "sink_id \<Rightarrow> Envelope list \<Rightarrow> Probe \<Rightarrow> bool" where
  "tracked k h p \<longleftrightarrow> emitter_ok h p \<and> probe_ok p \<and> distinct (em_sinks (pb_emitter p)) \<and> k \<in> set (em_sinks (pb_emitter p)) \<and> clean h"

lemma tracked_Wrap: "distinct sinks \<Longrightarrow> k \<in> set sinks \<Longrightarrow> tracked k [] (Wrap sz sinks)"
proof -
  assume "distinct sinks" "k \<in> set sinks"
  moreover have "history_ok [] ((NewEmitter sz)\<lparr>em_sinks := sinks\<rparr>)"
    using history_ok_New [of sz] by simp
  moreover have "em_sinks (NewEmitter sz) = []" "em_strings (NewEmitter sz) = newStringInterner" "\<not> em_closed (NewEmitter sz)"
    by (simp_all add: NewEmitter_def Let_def)
  ultimately show ?thesis
    by (simp add: tracked_def clean_def emitter_ok_def Wrap_def fold_AddSink intern_ok_New probe_ok_def peers_tracked_def empty_network_def)
qed

text \<open>Every step extends the history by envelopes that the mirror follows.\<close>

lemma probe_step_follows:
  assumes "probe_step k (h, p) (h', p')" and "tracked k h p"
  obtains envs where "h' = h @ envs" "tracked k h' p'" "follows p p' envs"
proof -
  from assms(1) obtain x now ws where 1: "h' = h @ map snd (filter (\<lambda>w. fst w = k) ws)" "room h p" "op_valid x" "run_op now x p = Some (p', ws)"
    by (cases rule: probe_stepE) blast
  from assms(2) have ok: "emitter_ok h p" "probe_ok p" "distinct (em_sinks (pb_emitter p))" "k \<in> set (em_sinks (pb_emitter p))" "clean h"
    by (simp_all add: tracked_def)
  obtain envs where r: "emission h p p' ws envs" "probe_ok p'" "follows p p' envs"
    using run_op_sound [OF ok(1,2) 1(2,3), of now] 1(4) by (auto simp: sound_def)
  have "map snd (filter (\<lambda>w. fst w = k) ws) = envs" by (rule emission_sink [OF r(1) ok(3,4)])
  moreover have "tracked k (h @ envs) p'"
    using emission_ok [OF r(1)] r ok(3-5) by (auto simp: tracked_def clean_def emission_def follows_def)
  ultimately show ?thesis using that r(3) 1(1) by simp
qed

lemma probed_tracked: "probed k h p \<Longrightarrow> tracked k h p"
  by (induction rule: probed.induct) (auto intro: tracked_Wrap elim: probe_step_follows)

text \<open>No operation of a probe panics as long as its numbers last.\<close>

lemma run_op_total:
  assumes "tracked k h p" and "room h p" and "op_valid x"
  shows "\<exists>p' ws. run_op now x p = Some (p', ws)"
  using run_op_sound [OF _ _ assms(2,3), of now] assms(1) unfolding tracked_def sound_def by blast

lemma probe_progress:
  assumes "tracked k h p" and "room h p" and "op_valid x"
  shows "\<exists>h' p'. probe_step k (h, p) (h', p')"
  using run_op_total [OF assms] operate [OF assms(2,3)] by blast

section \<open>The link\<close>

text \<open>How far the server has come in the history; a fresh snapshot stands for the first \<open>b\<close> envelopes.\<close>

definition position :: "string \<Rightarrow> nat \<Rightarrow> Processor \<Rightarrow> nat" where
  "position sid b P = (if LastAppliedSeq sid P = 0 then b else unat (LastAppliedSeq sid P))"

text \<open>
  A snapshot may be applied to any processor; the probe works on; the processor receives the next envelope of
  the history, an old one again, or one of another source.
\<close>

inductive linked :: "externals \<Rightarrow> string \<Rightarrow> sink_id \<Rightarrow> Envelope list \<Rightarrow> Probe \<Rightarrow> Processor \<Rightarrow> nat \<Rightarrow> bool" for ext sid k where
  attach: "probed k h p \<Longrightarrow> proc_ok ext P \<Longrightarrow> clock_ok (pr_clock P) \<Longrightarrow> map snd xs = snapshotEnvelopes (probe_snapshot p) \<Longrightarrow>
    apply_all ext (deliver sid xs) P = Some (P', effs) \<Longrightarrow> linked ext sid k h p P' (length h)"
| work: "linked ext sid k h p P b \<Longrightarrow> probe_step k (h, p) (h', p') \<Longrightarrow> linked ext sid k h' p' P b"
| receive: "linked ext sid k h p P b \<Longrightarrow> position sid b P < length h \<Longrightarrow>
    ApplyForSource ext t sid (Some (h ! position sid b P)) P = Some (P', effs) \<Longrightarrow> linked ext sid k h p P' b"
| again: "linked ext sid k h p P b \<Longrightarrow> i < length h \<Longrightarrow> i < unat (LastAppliedSeq sid P) \<Longrightarrow>
    ApplyForSource ext t sid (Some (h ! i)) P = Some (P', effs) \<Longrightarrow> linked ext sid k h p P' b"
| other: "linked ext sid k h p P b \<Longrightarrow> sid' \<noteq> sid \<Longrightarrow> ApplyForSource ext t sid' ev P = Some (P', effs) \<Longrightarrow>
    linked ext sid k h p P' b"

text \<open>The invariant: what the processor has not yet received completes the mirror.\<close>

definition lagging :: "externals \<Rightarrow> string \<Rightarrow> sink_id \<Rightarrow> Envelope list \<Rightarrow> Probe \<Rightarrow> Processor \<Rightarrow> nat \<Rightarrow> bool" where
  "lagging ext sid k h p P b \<longleftrightarrow> tracked k h p \<and> proc_ok ext P \<and> clock_ok (pr_clock P) \<and> position sid b P \<le> length h
     \<and> mirrors p (fold tables_step (payloads (drop (position sid b P) h)) (tables (source_of sid P)))"

lemma tracked_seq: "tracked k h p \<Longrightarrow> i < length h \<Longrightarrow> uint (env_Seq (h ! i)) = int i + 1"
  using history_seq by (auto simp: tracked_def emitter_ok_def)

lemma tracked_length: "tracked k h p \<Longrightarrow> int (length h) + 1 < 2 ^ 64"
  using uint_lt2p [of "em_nextSeq (pb_emitter p)"] by (simp add: tracked_def emitter_ok_def history_ok_def)

lemma tracked_strs: "tracked k h p \<Longrightarrow> length (strs p) \<le> 2 ^ 32"
  by (simp add: tracked_def emitter_ok_def intern_ok_def)

lemma tracked_payload:
  assumes "tracked k h p" and "i < length h"
  obtains pl where "env_Payload (h ! i) = Some pl" "pl \<noteq> Envelope_SnapshotStart" "pl \<noteq> Envelope_SnapshotEnd"
proof -
  have "h ! i \<in> set h" using assms(2) by simp
  with assms(1) that show thesis by (cases "env_Payload (h ! i)") (auto simp: tracked_def clean_def)
qed

text \<open>The rest of the history is accepted, and leaves the cursor at its end.\<close>

lemma accepted_rest:
  assumes "tracked k h p" and "unat c \<le> i" and "i \<le> length h"
  shows "accepted c (drop i h)"
  using assms(2,3)
proof (induction "length h - i" arbitrary: i c)
  case (Suc n)
  then have i: "i < length h" by simp
  obtain pl where pl: "env_Payload (h ! i) = Some pl" "pl \<noteq> Envelope_SnapshotStart" "pl \<noteq> Envelope_SnapshotEnd"
    by (rule tracked_payload [OF assms(1) i])
  have sq: "uint (env_Seq (h ! i)) = int i + 1" by (rule tracked_seq [OF assms(1) i])
  then have un: "unat (env_Seq (h ! i)) = Suc i" by (simp add: unat_eq_nat_uint)
  then have lt: "c < env_Seq (h ! i)" using Suc.prems(1) by (simp add: word_less_nat_alt)
  then have "cursor_after (h ! i) c = env_Seq (h ! i)" using pl by (simp add: cursor_after_def max_absorb1 less_imp_le)
  moreover have "accepted (env_Seq (h ! i)) (drop (Suc i) h)" using Suc.hyps(2) i un by (intro Suc.hyps(1)) simp_all
  ultimately show ?case using lt pl i by (simp add: Cons_nth_drop_Suc [symmetric])
qed simp

lemma accepted_zero: "\<forall>env \<in> set envs. env_Seq env = 0 \<and> env_Payload env \<noteq> None \<Longrightarrow> accepted c envs"
  by (induction envs arbitrary: c) simp_all

lemma snapshot_accepted: "accepted c (snapshotEnvelopes snap)"
  by (rule accepted_zero) (auto simp: snapshotEnvelopes_def bare_def)

lemma snapshot_cursor: "fold cursor_after (snapshotEnvelopes snap) c = 0"
proof -
  have "fold cursor_after envs 0 = 0" if "\<forall>env \<in> set envs. env_Seq env = 0" for envs
    using that by (induction envs) (simp_all add: cursor_after_def)
  moreover have "snapshotEnvelopes snap = bare Envelope_SnapshotStart # tl (snapshotEnvelopes snap)"
    and "\<forall>env \<in> set (tl (snapshotEnvelopes snap)). env_Seq env = 0"
    by (auto simp: snapshotEnvelopes_def bare_def)
  moreover have "cursor_after (bare Envelope_SnapshotStart) c = 0" by (simp add: cursor_after_def bare_def)
  ultimately show ?thesis by (metis fold_simps(2))
qed

text \<open>A snapshot brings the server up to date.\<close>

lemma snapshot_applies:
  assumes "tracked k h p" and "proc_ok ext P" and "clock_ok (pr_clock P)" and "map snd xs = snapshotEnvelopes (probe_snapshot p)"
  shows "\<exists>P' effs. apply_all ext (deliver sid xs) P = Some (P', effs) \<and> proc_ok ext P' \<and> clock_ok (pr_clock P')
    \<and> LastAppliedSeq sid P' = 0 \<and> mirrors p (tables (source_of sid P'))"
proof -
  have acc: "accepted (LastAppliedSeq sid P) (map snd xs)" unfolding assms(4) by (rule snapshot_accepted)
  have "mirrors p (fold tables_step (payloads (map snd xs)) (tables (source_of sid P)))"
    unfolding assms(4) using assms(1) tracked_strs [OF assms(1)] by (intro snapshot_mirrors) (simp_all add: tracked_def)
  with apply_all_tables [OF assms(3,2) acc] assms(3) show ?thesis by (auto simp: assms(4) snapshot_cursor)
qed

lemma fold_cursor_rest:
  assumes "tracked k h p" and "unat c = i" and "i \<le> length h"
  shows "unat (fold cursor_after (drop i h) c) = length h"
  using assms(2,3)
proof (induction "length h - i" arbitrary: i c)
  case (Suc n)
  then have i: "i < length h" by simp
  obtain pl where pl: "env_Payload (h ! i) = Some pl" "pl \<noteq> Envelope_SnapshotStart" "pl \<noteq> Envelope_SnapshotEnd"
    by (rule tracked_payload [OF assms(1) i])
  have un: "unat (env_Seq (h ! i)) = Suc i" using tracked_seq [OF assms(1) i] by (simp add: unat_eq_nat_uint)
  then have "c < env_Seq (h ! i)" using Suc.prems(1) by (simp add: word_less_nat_alt)
  then have "cursor_after (h ! i) c = env_Seq (h ! i)" using pl by (simp add: cursor_after_def max_absorb1 less_imp_le)
  moreover have "unat (fold cursor_after (drop (Suc i) h) (env_Seq (h ! i))) = length h"
    using Suc.hyps(2) i un by (intro Suc.hyps(1)) simp_all
  ultimately show ?case using i by (simp add: Cons_nth_drop_Suc [symmetric])
qed simp

lemma lagging_work:
  assumes "lagging ext sid k h p P b" and "probe_step k (h, p) (h', p')"
  shows "lagging ext sid k h' p' P b"
proof -
  have tr: "tracked k h p" and pos: "position sid b P \<le> length h" using assms(1) by (simp_all add: lagging_def)
  obtain envs where "h' = h @ envs" "tracked k h' p'" "follows p p' envs" by (rule probe_step_follows [OF assms(2) tr])
  with assms(1) pos show ?thesis by (simp add: lagging_def follows_def del: split_paired_All)
qed

lemma lagging_receive:
  assumes "lagging ext sid k h p P b" and "position sid b P < length h"
    and "ApplyForSource ext t sid (Some (h ! position sid b P)) P = Some (P', effs)"
  shows "lagging ext sid k h p P' b"
proof -
  let ?i = "position sid b P"
  have tr: "tracked k h p" and ok: "proc_ok ext P" "clock_ok (pr_clock P)"
    and mir: "mirrors p (fold tables_step (payloads (drop ?i h)) (tables (source_of sid P)))"
    using assms(1) by (simp_all add: lagging_def)
  obtain pl where pl: "env_Payload (h ! ?i) = Some pl" "pl \<noteq> Envelope_SnapshotStart" "pl \<noteq> Envelope_SnapshotEnd"
    by (rule tracked_payload [OF tr assms(2)])
  have un: "unat (env_Seq (h ! ?i)) = Suc ?i" using tracked_seq [OF tr assms(2)] by (simp add: unat_eq_nat_uint)
  have lt: "LastAppliedSeq sid P < env_Seq (h ! ?i)"
    using un by (auto simp: word_less_nat_alt position_def split: if_splits)
  then have "cursor_after (h ! ?i) (LastAppliedSeq sid P) = env_Seq (h ! ?i)"
    using pl by (simp add: cursor_after_def max_absorb1 less_imp_le)
  with apply_tables [OF ok(2,1) pl(1), of sid t] lt assms(3) have P': "proc_ok ext P'" "pr_clock P' = pr_clock P"
    "tables (source_of sid P') = tables_step pl (tables (source_of sid P))" "LastAppliedSeq sid P' = env_Seq (h ! ?i)"
    by auto
  have "env_Seq (h ! ?i) \<noteq> 0" using un by auto
  then have "position sid b P' = Suc ?i" using un by (simp add: position_def P'(4))
  with tr ok P' mir pl(1) assms(2) show ?thesis by (simp add: lagging_def Cons_nth_drop_Suc [symmetric])
qed

lemma lagging_again:
  assumes "lagging ext sid k h p P b" and "i < length h" and "i < unat (LastAppliedSeq sid P)"
    and "ApplyForSource ext t sid (Some (h ! i)) P = Some (P', effs)"
  shows "P' = P"
proof -
  have tr: "tracked k h p" using assms(1) by (simp add: lagging_def)
  have un: "unat (env_Seq (h ! i)) = Suc i" using tracked_seq [OF tr assms(2)] by (simp add: unat_eq_nat_uint)
  moreover obtain pl where "env_Payload (h ! i) = Some pl" "pl \<noteq> Envelope_SnapshotStart" "pl \<noteq> Envelope_SnapshotEnd"
    by (rule tracked_payload [OF tr assms(2)])
  ultimately have "live (h ! i)" "env_Seq (h ! i) \<le> LastAppliedSeq sid P"
    using assms(3) by (auto simp: live_def word_le_nat_alt)
  with apply_duplicate assms(4) show ?thesis by simp
qed

lemma lagging_other:
  assumes "lagging ext sid k h p P b" and "sid' \<noteq> sid" and "ApplyForSource ext t sid' ev P = Some (P', effs)"
  shows "lagging ext sid k h p P' b"
proof -
  have ok: "proc_ok ext P" "clock_ok (pr_clock P)" using assms(1) by (simp_all add: lagging_def)
  have "gget (pr_sources P') sid = gget (pr_sources P) sid" using other_source [OF assms(3), of sid] assms(2) by simp
  then have "source_of sid P' = source_of sid P" "position sid b P' = position sid b P"
    by (simp_all add: source_of_def getd_def position_def LastAppliedSeq_def)
  moreover have "proc_ok ext P'" "pr_clock P' = pr_clock P" using ApplyForSource_total [OF ok(2,1), of t sid' ev] assms(3) by simp_all
  ultimately show ?thesis using assms(1) ok by (simp add: lagging_def)
qed

lemma linked_lagging: "linked ext sid k h p P b \<Longrightarrow> lagging ext sid k h p P b"
proof (induction rule: linked.induct)
  case (attach h p P xs P' effs)
  from snapshot_applies [OF probed_tracked [OF attach(1)] attach(2,3,4), of sid] attach(5)
  show ?case using probed_tracked [OF attach(1)] by (auto simp: lagging_def position_def)
next
  case (work h p P b h' p')
  then show ?case by (blast intro: lagging_work)
next
  case (receive h p P b t P' effs)
  then show ?case by (blast intro: lagging_receive)
next
  case (again h p P b i t P' effs)
  then show ?case using lagging_again by blast
next
  case (other h p P b sid' t ev P' effs)
  then show ?case by (blast intro: lagging_other)
qed

section \<open>Catching up\<close>

text \<open>What \<open>sendCatchup\<close> sends to a server that reports its cursor.\<close>

lemma catchup_cases:
  assumes "lagging ext sid k h p P b"
  obtains (snapshot) "catchup_envelopes (LastAppliedSeq sid P) p = Some (snapshotEnvelopes (probe_snapshot p))"
  | (replay) "catchup_envelopes (LastAppliedSeq sid P) p = Some (drop (unat (LastAppliedSeq sid P)) h)"
      "position sid b P = unat (LastAppliedSeq sid P)"
proof (cases "LastAppliedSeq sid P = 0")
  case True
  then show thesis using snapshot by (simp add: catchup_envelopes_def)
next
  case False
  let ?c = "LastAppliedSeq sid P"
  have tr: "tracked k h p" and pos: "position sid b P = unat ?c" "unat ?c \<le> length h"
    using assms False by (simp_all add: lagging_def position_def)
  have hist: "history_ok h (pb_emitter p)" using tr by (simp add: tracked_def emitter_ok_def)
  have "uint ?c = int (unat ?c)" by simp
  then have "uint ?c + 1 < 2 ^ 64" using pos(2) tracked_length [OF tr] by linarith
  then have u: "uint (?c + 1) = uint ?c + 1" by (simp add: uint_word_ariths)
  then have "1 \<le> ?c + 1" by (simp add: word_le_def)
  note ev = EventsFromSeq_history [OF hist this]
  have "nat (uint (?c + 1) - 1) = unat ?c" using u by simp
  moreover have "0 < unat ?c" using False by (simp add: unat_gt_0)
  then have "h \<noteq> []" using pos(2) by auto
  ultimately have "EventsFromSeq (?c + 1) (pb_emitter p) = Some (drop (unat ?c) h, True)
      \<or> EventsFromSeq (?c + 1) (pb_emitter p) = Some ([], False)"
    using ev by simp
  then consider (kept) "EventsFromSeq (?c + 1) (pb_emitter p) = Some (drop (unat ?c) h, True)"
    | (dropped) "EventsFromSeq (?c + 1) (pb_emitter p) = Some ([], False)" by blast
  moreover have gt: "?c > 0" using False by (simp add: word_neq_0_conv)
  ultimately show thesis
  proof cases
    case kept
    show thesis by (rule replay) (simp_all add: catchup_envelopes_def gt kept pos(1))
  next
    case dropped
    show thesis by (rule snapshot) (simp add: catchup_envelopes_def gt dropped)
  qed
qed

lemma catchup_mirrors:
  assumes "lagging ext sid k h p P b"
  shows "\<exists>envs. catchup_envelopes (LastAppliedSeq sid P) p = Some envs \<and> set envs \<subseteq> set h \<union> set (snapshotEnvelopes (probe_snapshot p))
    \<and> (\<forall>xs. map snd xs = envs \<longrightarrow> (\<exists>P' effs. apply_all ext (deliver sid xs) P = Some (P', effs)
        \<and> mirrors p (tables (source_of sid P'))))"
proof -
  have tr: "tracked k h p" and ok: "proc_ok ext P" "clock_ok (pr_clock P)"
    and mir: "mirrors p (fold tables_step (payloads (drop (position sid b P) h)) (tables (source_of sid P)))"
    using assms by (simp_all add: lagging_def)
  show ?thesis
    using assms
  proof (cases rule: catchup_cases)
    case snapshot
    with snapshot_applies [OF tr ok] show ?thesis by blast
  next
    case replay
    let ?c = "LastAppliedSeq sid P"
    have "unat ?c \<le> length h" using assms replay(2) by (simp add: lagging_def)
    then have "accepted ?c (drop (unat ?c) h)" by (intro accepted_rest [OF tr]) simp_all
    then have "\<exists>P' effs. apply_all ext (deliver sid xs) P = Some (P', effs) \<and> mirrors p (tables (source_of sid P'))"
      if "map snd xs = drop (unat ?c) h" for xs
      using apply_all_tables [OF ok(2,1), of sid xs] mir replay(2) that by auto
    moreover have "set (drop (unat ?c) h) \<subseteq> set h" by (rule set_drop_subset)
    ultimately show ?thesis using replay(1) by blast
  qed
qed


definition demo_conn :: net_conn where
  "demo_conn = \<lparr>nc_ID = ''c1'', nc_RemotePeer = [1, 2], nc_RemoteAddr = ''/ip4/1.2.3.4'', nc_LocalAddr = ''/ip4/5.6.7.8'',
     nc_Direction = DirInbound, nc_Transport = ''tcp'', nc_Security = ''noise'', nc_Muxer = ''yamux''\<rparr>"

text \<open>A probe attaches before anything happened, then accepts a connection.\<close>

lemma demo_linked: "\<exists>h p P b. linked demo_ext ''s1'' 3 h p P b \<and> probed 3 h p"
proof -
  let ?p = "Wrap 4 [3]" and ?P = "NewProcessor mainnet_clock"
  have pr: "probed 3 [] ?p" by (rule probed.wrap) simp_all
  have ok: "proc_ok demo_ext ?P" "clock_ok (pr_clock ?P)"
    using proc_ok_New mainnet_clock_ok by (simp_all add: NewProcessor_def)
  let ?xs = "map (\<lambda>env. (0, env)) (snapshotEnvelopes (probe_snapshot ?p))"
  have snd: "map snd ?xs = snapshotEnvelopes (probe_snapshot ?p)" by (simp add: o_def)
  obtain P' effs where "apply_all demo_ext (deliver ''s1'' ?xs) ?P = Some (P', effs)"
    using snapshot_applies [OF probed_tracked [OF pr] ok snd] by blast
  then have l: "linked demo_ext ''s1'' 3 [] ?p P' (length ([] :: Envelope list))" by (rule linked.attach [OF pr ok snd])
  have "room [] ?p" by (simp add: room_def Wrap_def AddSink_def empty_network_def NewEmitter_def newStringInterner_def Let_def)
  then obtain h p where "probe_step 3 ([], ?p) (h, p)"
    using probe_progress [OF probed_tracked [OF pr], of "OpConnected demo_conn"] by auto
  then show ?thesis using linked.work [OF l] probed.step [OF pr] by blast
qed

text \<open>
  C35: a probe is always well formed: after any sequence of connections, disconnections, streams, reads, writes and closes,
  every tracked connection has an alias below the counter and names a peer that is tracked, peers have distinct aliases,
  connections and streams name only strings that were announced, and the next operation does not panic, as long as numbers are left.
\<close>

theorem probe_wellformed:
  assumes "probed k h p"
  shows "probe_ok p \<and> (\<forall>now x. room h p \<and> op_valid x \<longrightarrow> (\<exists>p' ws. run_op now x p = Some (p', ws)))"
  using probed_tracked [OF assms] run_op_total by (auto simp: tracked_def)

theorem probe_wellformed_witness:
  "\<exists>p' ws. probe_ok (Wrap 4 [3]) \<and> run_op (\<lambda>_. 0) (OpConnected demo_conn) (Wrap 4 [3]) = Some (p', ws)"
proof -
  have "probed 3 [] (Wrap 4 [3])" by (rule probed.wrap) simp_all
  moreover have "room [] (Wrap 4 [3])" by (simp add: room_def Wrap_def AddSink_def empty_network_def NewEmitter_def newStringInterner_def Let_def)
  moreover have "op_valid (OpConnected demo_conn)" by simp
  ultimately show ?thesis using probe_wellformed [of 3 "[]" "Wrap 4 [3]"] by blast
qed



definition demo_upsert :: ConnectionUpsert where
  "demo_upsert = \<lparr>cu_ConnAlias = 0, cu_PeerAlias = 0, cu_RemoteAddr = [], cu_LocalAddr = [], cu_Direction = DIRECTION_IN,
     cu_TransportId = 0, cu_SecurityId = 0, cu_MuxerId = 0, cu_OpenedAtNs = 0\<rparr>"

text \<open>A probe whose only peer has disconnected, and the server after its snapshot.\<close>

definition demo_idle_probe :: Probe where
  "demo_idle_probe = (Wrap 4 [3])\<lparr>pb_net := empty_network\<lparr>nw_peers := [([1, 2], \<lparr>tp_alias = 0, tp_peerID = [1, 2]\<rparr>)]\<rparr>\<rparr>"

definition demo_idle_server :: Processor where
  "demo_idle_server = set_source ''s1'' (newSourceState\<lparr>src_peers := UpsertPeer 0 [1, 2] NewPeerMap\<rparr>) (NewProcessor mainnet_clock)"


end
