(* ===== verification/Probe_Host.thy ===== *)
theory Probe_Host
  imports Sinks
begin

text \<open>
  \<open>probe/options.go\<close> and \<open>probe/host.go\<close>: the options of an instrumented host, how \<open>Wrap\<close> builds it and how it is
  closed.  A sink that \<open>Wrap\<close> creates is registered under a number that is an argument; creating the file, the boot id, the
  start time and the outcome of waiting for the server are arguments too.
\<close>

section \<open>Options\<close>

record config =
  cf_ringBufferSize :: int
  cf_sinkFilePath :: string
  cf_sinkFileOpts :: "int list"
  cf_ingestAddr :: string
  cf_clientName :: string
  cf_waitForAttach :: bool
  cf_sinks :: "sink_id list"

type_synonym Option = "config \<Rightarrow> config"

definition WithRingBufferSize :: "int \<Rightarrow> Option" where
  "WithRingBufferSize n c = c\<lparr>cf_ringBufferSize := n\<rparr>"

text \<open>The only option of a file sink is the interval of its snapshots.\<close>

definition WithSinkFile :: "string \<Rightarrow> int list \<Rightarrow> Option" where
  "WithSinkFile path opts c = c\<lparr>cf_sinkFilePath := path, cf_sinkFileOpts := opts\<rparr>"

definition WithIngestAddr :: "string \<Rightarrow> Option" where
  "WithIngestAddr addr c = c\<lparr>cf_ingestAddr := addr\<rparr>"

definition WithClientName :: "string \<Rightarrow> Option" where
  "WithClientName name c = c\<lparr>cf_clientName := name\<rparr>"

definition WithWaitForAttach :: Option where
  "WithWaitForAttach c = c\<lparr>cf_waitForAttach := True\<rparr>"

definition WithSink :: "sink_id \<Rightarrow> Option" where
  "WithSink sink c = c\<lparr>cf_sinks := cf_sinks c @ [sink]\<rparr>"

definition apply_options :: "Option list \<Rightarrow> config" where
  "apply_options opts = fold (\<lambda>opt c. opt c) opts
     \<lparr>cf_ringBufferSize = DefaultRingBufferSize, cf_sinkFilePath = [], cf_sinkFileOpts = [], cf_ingestAddr = [], cf_clientName = [],
      cf_waitForAttach = False, cf_sinks = []\<rparr>"

text \<open>The interval between snapshots in nanoseconds; \<open>snapshotLoop\<close> runs when it is positive.\<close>

definition snapshot_interval :: "int list \<Rightarrow> int" where
  "snapshot_interval opts = fold (\<lambda>d _. d) opts (5 * 60 * 1000000000)"

section \<open>The host\<close>

record 'w Host =
  ho_probe :: Probe
  ho_file :: "'w SinkFile option"
  ho_ingestSink :: "'w SinkIngest option"

datatype wrap_error = FileFailed wire_error | AttachFailed sink_error

record 'w surroundings =
  su_fileID :: sink_id
  su_ingestID :: sink_id
  su_create :: "wire_error + 'w"
  su_hostID :: bytes
  su_bootID :: bytes
  su_startedAtNs :: int
  su_attach :: "sink_error option"

definition add_file_sink ::
  "Envelope marshal \<Rightarrow> 'w writer \<Rightarrow> 'w surroundings \<Rightarrow> config \<Rightarrow> 'w Host \<Rightarrow> wrap_error + 'w Host" where
  "add_file_sink marshal write su cfg h =
     (if cf_sinkFilePath cfg \<noteq> [] then
        (case NewSinkFile marshal write (su_create su) (ho_probe h) of
           Inl err \<Rightarrow> Inl (FileFailed err)
         | Inr sink \<Rightarrow> Inr (h\<lparr>ho_probe := (ho_probe h)\<lparr>pb_emitter := AddSink (su_fileID su) (pb_emitter (ho_probe h))\<rparr>, ho_file := Some sink\<rparr>))
      else Inr h)"

definition add_ingest_sink :: "'w surroundings \<Rightarrow> config \<Rightarrow> 'w Host \<Rightarrow> 'w Host" where
  "add_ingest_sink su cfg h =
     (if cf_ingestAddr cfg \<noteq> [] then
        h\<lparr>ho_probe := (ho_probe h)\<lparr>pb_emitter := AddSink (su_ingestID su) (pb_emitter (ho_probe h))\<rparr>,
          ho_ingestSink := Some (NewSinkIngest (cf_clientName cfg) (su_hostID su) (su_bootID su) (su_startedAtNs su))\<rparr>
      else h)"

text \<open>\<open>Wrap\<close>; on failure the second result is the host that is thrown away, whose file sink, if any, is still open.\<close>

definition Wrap_host ::
  "Envelope marshal \<Rightarrow> 'w writer \<Rightarrow> 'w surroundings \<Rightarrow> Option list \<Rightarrow> wrap_error option \<times> 'w Host option" where
  "Wrap_host marshal write su opts =
     (let cfg = apply_options opts;
          h = \<lparr>ho_probe = Wrap (cf_ringBufferSize cfg) (cf_sinks cfg), ho_file = None, ho_ingestSink = None\<rparr>
      in case add_file_sink marshal write su cfg h of
           Inl err \<Rightarrow> (Some err, None)
         | Inr h \<Rightarrow>
             let h = add_ingest_sink su cfg h in
             (case ho_ingestSink h of
                None \<Rightarrow> (None, Some h)
              | Some sink \<Rightarrow>
                  if cf_waitForAttach cfg then
                    (case su_attach su of
                       None \<Rightarrow> (None, Some h)
                     | Some err \<Rightarrow> (Some (AttachFailed err), Some (h\<lparr>ho_ingestSink := Some (Close_ingest sink)\<rparr>)))
                  else (None, Some h)))"

text \<open>Streams that the host opens, and streams that are handed to a handler, are wrapped first.\<close>

definition NewStream_host ::
  "(nat \<Rightarrow> int) \<Rightarrow> string + net_stream \<Rightarrow> 'w Host \<Rightarrow> ((string + wrappedStream) \<times> 'w Host \<times> sink_writes) go" where
  "NewStream_host now inner h = do {
     (r, p, ws) \<leftarrow> NewStream now inner (ho_probe h);
     Some (r, h\<lparr>ho_probe := p\<rparr>, ws)
   }"

definition SetStreamHandler :: "(wrappedStream \<Rightarrow> 'r) \<Rightarrow> (nat \<Rightarrow> int) \<Rightarrow> net_stream \<Rightarrow> 'w Host \<Rightarrow> ('r \<times> 'w Host \<times> sink_writes) go" where
  "SetStreamHandler handler now s h = do {
     (w, p, ws) \<leftarrow> wrapStream now s (ho_probe h);
     Some (handler w, h\<lparr>ho_probe := p\<rparr>, ws)
   }"

text \<open>Which protocols a handler matches is up to libp2p; the wrapping is the same.\<close>

definition SetStreamHandlerMatch :: "(wrappedStream \<Rightarrow> 'r) \<Rightarrow> (nat \<Rightarrow> int) \<Rightarrow> net_stream \<Rightarrow> 'w Host \<Rightarrow> ('r \<times> 'w Host \<times> sink_writes) go" where
  "SetStreamHandlerMatch handler now s h = do {
     (w, p, ws) \<leftarrow> wrapStream now s (ho_probe h);
     Some (handler w, h\<lparr>ho_probe := p\<rparr>, ws)
   }"

definition Close_sinks :: "'w Host \<Rightarrow> 'w Host" where
  "Close_sinks h =
     h\<lparr>ho_probe := fst (Close_host (ho_probe h)), ho_file := map_option Close_file (ho_file h),
       ho_ingestSink := map_option Close_ingest (ho_ingestSink h)\<rparr>"

section \<open>Building and closing\<close>

text \<open>The sinks are registered in the order of the options, then the file, then the connection to the server.\<close>

lemma Wrap_host_sinks:
  assumes "Wrap_host marshal write su opts = (None, Some h)"
  shows "em_sinks (pb_emitter (ho_probe h)) = cf_sinks (apply_options opts)
      @ (if cf_sinkFilePath (apply_options opts) \<noteq> [] then [su_fileID su] else [])
      @ (if cf_ingestAddr (apply_options opts) \<noteq> [] then [su_ingestID su] else [])"
  using assms
  by (auto simp: Wrap_host_def Let_def add_file_sink_def add_ingest_sink_def AddSink_def Wrap_def fold_AddSink NewEmitter_def
      split: if_splits sum.splits option.splits)

lemma closed_sinks [simp]: "sf_closed (Close_file f)" "ig_closed (Close_ingest i)"
  by (simp_all add: Close_file_def Close_ingest_def)

text \<open>A closed host emits nothing more, and both sinks refuse envelopes.\<close>

lemma closed_host_silent:
  "Emit now env (pb_emitter (ho_probe (Close_sinks h))) = Some (pb_emitter (ho_probe (Close_sinks h)), [])"
  "ho_file (Close_sinks h) = Some f \<Longrightarrow> Write_file marshal write env f = (False, f)"
  "ho_ingestSink (Close_sinks h) = Some i \<Longrightarrow> Write_ingest env i = (False, i)"
  by (auto simp: Close_sinks_def Close_host_def SetClosed_def Emit_def Let_def Write_file_def Write_ingest_def)

text \<open>When waiting for the server fails, the file sink that was opened before stays open.\<close>

lemma attach_failure_leaks_file:
  assumes "cf_sinkFilePath (apply_options opts) \<noteq> []" and "cf_ingestAddr (apply_options opts) \<noteq> []" and "cf_waitForAttach (apply_options opts)"
    and "NewSinkFile marshal write (su_create su) (Wrap (cf_ringBufferSize (apply_options opts)) (cf_sinks (apply_options opts))) = Inr f"
    and "su_attach su = Some err"
  shows "\<exists>h. Wrap_host marshal write su opts = (Some (AttachFailed err), Some h) \<and> ho_file h = Some f \<and> \<not> sf_closed f"
proof -
  have "\<not> sf_closed f" using assms(4) by (auto simp: NewSinkFile_def split: sum.splits option.splits prod.splits)
  with assms show ?thesis by (simp add: Wrap_host_def Let_def add_file_sink_def add_ingest_sink_def)
qed

text \<open>Opening a stream and receiving one are recorded alike.\<close>

lemma opened_and_received_alike:
  "NewStream_host now (Inr s) h = map_option (\<lambda>(w, h, ws). (Inr w, h, ws)) (SetStreamHandler (\<lambda>w. w) now s h)"
  by (cases "wrapStream now s (ho_probe h)") (auto simp: NewStream_host_def NewStream_def SetStreamHandler_def)

end
