(* ===== verification/Delivery.thy ===== *)
theory Delivery
  imports Linking Probe_Host
begin

text \<open>
  The two sinks end to end.  A turn of \<open>connectLoop\<close> (\<open>probe/sink_ingest.go\<close>) is followed down to the bytes on
  the connection and back through the readers of \<open>proto/xray/wire\<close>; a trace file (\<open>probe/sink_file.go\<close>) is
  followed from \<open>Wrap\<close> on, through the work of the probe and the ticks of \<open>snapshotLoop\<close>, and replayed into a
  processor.  The file system and the network accept every write here (\<open>append_writer\<close>); protobuf is an argument.
\<close>

section \<open>Writing to a connection\<close>

lemma write_each_envelopes:
  assumes "list_all (sendable marshal) envs"
  shows "write_each (\<lambda>env w. WriteEnvelope marshal append_writer w env) envs w = (write_envelopes marshal w envs, None)"
  using assms
proof (induction envs arbitrary: w)
  case (Cons env envs)
  then obtain d where "marshal env = Inr d" by (auto elim: sendableE)
  with Cons show ?case by (simp add: WriteEnvelope_def WriteTyped_append)
qed simp

lemma pump_envelopes:
  assumes "list_all (sendable marshal) envs"
  shows "pump marshal append_writer envs (Some w) = (False, [], Some (write_envelopes marshal w envs))"
  using assms
proof (induction envs arbitrary: w)
  case (Cons env envs)
  then obtain d where "marshal env = Inr d" by (auto elim: sendableE)
  with Cons show ?case by (simp add: WriteEnvelope_def WriteTyped_append)
qed simp

lemma write_envelopes_append:
  "write_envelopes marshal w (xs @ ys) = write_envelopes marshal (write_envelopes marshal w xs) ys"
  by (induction xs arbitrary: w) simp_all

section \<open>One turn of the connection loop\<close>

lemma connect_append:
  assumes "mh (client_hello s) = Inr d" and "ReadServerHello us incoming = Inr (sh, rest)"
  shows "connect mh us append_writer (Inr (w, incoming)) s =
    (Inr (shello_LastAckedSeq sh), s\<lparr>ig_conn := Some (w @ frame WireClientHello d), ig_sourceID := shello_SourceId sh\<rparr>)"
  using assms WriteTyped_append [of mh "client_hello s" d w WireClientHello]
  by (simp add: connect_def WriteClientHello_def)

lemma sendCatchup_append:
  assumes "ig_conn s = Some w" and "catchup_envelopes lastAcked p = Some envs" and "list_all (sendable me) envs"
  shows "sendCatchup me append_writer lastAcked p s = Some (None, s\<lparr>ig_conn := Some (write_envelopes me w envs)\<rparr>)"
  using assms by (simp add: sendCatchup_def write_each_envelopes)

lemma writePump_append:
  assumes "\<not> ig_closed s" and "ig_conn s = Some w" and "list_all (sendable me) (ig_sendCh s)"
  shows "writePump me append_writer s = (False, s\<lparr>ig_sendCh := [], ig_conn := Some (write_envelopes me w (ig_sendCh s))\<rparr>)"
  using assms by (simp add: writePump_def pump_envelopes)

lemma attach_turn:
  assumes "\<not> ig_closed s" and "mh (client_hello s) = Inr d" and "ReadServerHello us incoming = Inr (sh, rest)"
    and "catchup_envelopes (shello_LastAckedSeq sh) p = Some envs" and "list_all (sendable me) (envs @ ig_sendCh s)"
  shows "connectLoop mh us me append_writer (Inr ([], incoming)) p s = Some (PumpWaits,
    s\<lparr>ig_conn := Some (frame WireClientHello d @ write_envelopes me [] (envs @ ig_sendCh s)), ig_sourceID := shello_SourceId sh,
      ig_attached := True, ig_sendCh := []\<rparr>)"
proof -
  have "list_all (sendable me) envs" "list_all (sendable me) (ig_sendCh s)" using assms(5) by simp_all
  moreover have "write_envelopes me (frame WireClientHello d) (envs @ ig_sendCh s)
      = frame WireClientHello d @ write_envelopes me [] (envs @ ig_sendCh s)"
    using write_envelopes_frames [OF assms(5)] by simp
  ultimately show ?thesis
    using assms(1)
    by (simp add: connectLoop_def connect_append [where mh = mh and s = s, OF assms(2,3)] sendCatchup_append [OF _ assms(4)]
        writePump_append flip: write_envelopes_append)
qed

text \<open>
  Attaching delivers: a turn of \<open>connectLoop\<close> that reaches a server which answers the handshake leaves the pump
  waiting with an empty queue and the sink attached under the source id of the server, and what the server reads from the
  connection is the hello of this sink, then exactly the catch-up for the cursor that it reported and after it the envelopes that
  were queued, in order and with nothing behind them; provided that each message marshals to at most 4 MiB and that
  protobuf decodes what it encoded.
\<close>

lemma attach_turn_delivers:
  assumes hellos: "\<And>m d. mh m = Inr d \<Longrightarrow> uh d = Inr m" and envelopes: "\<And>m d. me m = Inr d \<Longrightarrow> ue d = Inr m"
    and "\<not> ig_closed s" and "sendable mh (client_hello s)" and "ReadServerHello us incoming = Inr (sh, rest)"
    and "catchup_envelopes (shello_LastAckedSeq sh) p = Some envs" and "list_all (sendable me) (envs @ ig_sendCh s)"
  shows "\<exists>conn s' r. connectLoop mh us me append_writer (Inr ([], incoming)) p s = Some (PumpWaits, s')
    \<and> ig_attached s' \<and> ig_sendCh s' = [] \<and> ig_sourceID s' = shello_SourceId sh \<and> ig_conn s' = Some conn
    \<and> ReadClientHello uh conn = Inr (client_hello s, r)
    \<and> read_envelopes ue (length (envs @ ig_sendCh s)) r = Inr (envs @ ig_sendCh s, [])"
proof -
  obtain d where d: "mh (client_hello s) = Inr d" "wire_fits d" using assms(4) by (rule sendableE)
  have "ReadClientHello uh (frame WireClientHello d @ write_envelopes me [] (envs @ ig_sendCh s))
      = Inr (client_hello s, write_envelopes me [] (envs @ ig_sendCh s))"
    unfolding ReadClientHello_def using d(2) hellos [OF d(1)] by (rule ReadTyped_frame)
  moreover have "read_envelopes ue (length (envs @ ig_sendCh s)) (write_envelopes me [] (envs @ ig_sendCh s)) = Inr (envs @ ig_sendCh s, [])"
    using read_frames [OF envelopes assms(7), where rest = "[]"] write_envelopes_frames [OF assms(7), of "[]"] by simp
  ultimately show ?thesis using attach_turn [where mh = mh, OF assms(3) d(1) assms(5-7)] by simp
qed

section \<open>Trace files\<close>

text \<open>Reading a file back, frame by frame.\<close>

primrec read_trace :: "Envelope unmarshal \<Rightarrow> nat \<Rightarrow> bytes \<Rightarrow> wire_error + Envelope list \<times> bytes" where
  "read_trace unmarshal 0 r = Inr ([], r)"
| "read_trace unmarshal (Suc n) r =
     (case readDelimitedInto unmarshal r of
        Inl e \<Rightarrow> Inl e
      | Inr (env, r) \<Rightarrow>
          (case read_trace unmarshal n r of Inl e \<Rightarrow> Inl e | Inr (envs, r) \<Rightarrow> Inr (env # envs, r)))"

definition trace_frame :: "Envelope marshal \<Rightarrow> Envelope \<Rightarrow> bytes" where
  "trace_frame marshal env = PutUvarint (of_nat (length (projr (marshal env)))) @ projr (marshal env)"

definition trace_bytes :: "Envelope marshal \<Rightarrow> Envelope list \<Rightarrow> bytes" where
  "trace_bytes marshal envs = concat (map (trace_frame marshal) envs)"

lemma trace_bytes_append [simp]: "trace_bytes marshal (xs @ ys) = trace_bytes marshal xs @ trace_bytes marshal ys"
  by (simp add: trace_bytes_def)

lemma read_trace_bytes:
  assumes "\<And>m d. marshal m = Inr d \<Longrightarrow> unmarshal d = Inr m" and "list_all (sendable marshal) envs"
  shows "read_trace unmarshal (length envs) (trace_bytes marshal envs @ rest) = Inr (envs, rest)"
  using assms(2)
proof (induction envs)
  case (Cons env envs)
  then obtain d where "marshal env = Inr d" "wire_fits d" by (auto elim: sendableE)
  with Cons assms(1) show ?case by (simp add: trace_bytes_def trace_frame_def readDelimitedInto_def readDelimited_frame)
qed (simp add: trace_bytes_def)

lemma writeEnvelopeLocked_append:
  "sendable marshal env \<Longrightarrow> writeEnvelopeLocked marshal append_writer env w = (w @ trace_frame marshal env, None)"
  by (auto simp: writeEnvelopeLocked_def append_writer_def trace_frame_def elim!: sendableE)

lemma writeSnapshotLocked_append:
  assumes "list_all (sendable marshal) (snapshotEnvelopes (probe_snapshot p))"
  shows "writeSnapshotLocked marshal append_writer p w = (w @ trace_bytes marshal (snapshotEnvelopes (probe_snapshot p)), None)"
proof -
  have "write_each (writeEnvelopeLocked marshal append_writer) envs w = (w @ trace_bytes marshal envs, None)"
    if "list_all (sendable marshal) envs" for envs
    using that by (induction envs arbitrary: w) (simp_all add: writeEnvelopeLocked_append trace_bytes_def)
  with assms show ?thesis by (simp add: writeSnapshotLocked_def)
qed

lemma Write_file_append:
  assumes "list_all (sendable marshal) envs" and "\<not> sf_closed s"
  shows "fold (\<lambda>env s. snd (Write_file marshal append_writer env s)) envs s = s\<lparr>sf_file := sf_file s @ trace_bytes marshal envs\<rparr>"
  using assms by (induction envs arbitrary: s) (simp_all add: Write_file_def writeEnvelopeLocked_append trace_bytes_def)

text \<open>
  A file sink from \<open>Wrap\<close> on: the probe works and the sink is handed its envelopes, and \<open>snapshotLoop\<close> ticks.  Beside
  the history \<open>h\<close> of the emitter the relation keeps \<open>tr\<close>, the envelopes the sink was asked to write.
\<close>

inductive recording :: "Envelope marshal \<Rightarrow> sink_id \<Rightarrow> Envelope list \<Rightarrow> Probe \<Rightarrow> Envelope list \<Rightarrow> bytes SinkFile \<Rightarrow> bool" for me k where
  wrap: "Wrap_host me append_writer su opts = (None, Some host) \<Longrightarrow> ho_file host = Some s \<Longrightarrow> su_create su = Inr [] \<Longrightarrow>
    su_fileID su = k \<Longrightarrow> distinct (Sinks (pb_emitter (ho_probe host))) \<Longrightarrow>
    recording me k [] (ho_probe host) (snapshotEnvelopes (probe_snapshot (ho_probe host))) s"
| work: "recording me k h p tr s \<Longrightarrow> probe_step k (h, p) (h @ envs, p') \<Longrightarrow>
    recording me k (h @ envs) p' (tr @ envs) (fold (\<lambda>env s. snd (Write_file me append_writer env s)) envs s)"
| tick: "recording me k h p tr s \<Longrightarrow>
    recording me k h p (tr @ snapshotEnvelopes (probe_snapshot p)) (snapshotLoop me append_writer p s)"

lemma Wrap_host_probe:
  assumes "Wrap_host me write su opts = (None, Some host)"
  shows "ho_probe host = Wrap (cf_ringBufferSize (apply_options opts)) (Sinks (pb_emitter (ho_probe host)))"
  using assms
  by (auto simp: Wrap_host_def Let_def add_file_sink_def add_ingest_sink_def AddSink_def Wrap_def fold_AddSink Sinks_def snapshotSinks_def
      NewEmitter_def split: if_splits sum.splits option.splits)

lemma Wrap_host_file:
  assumes "Wrap_host me write su opts = (None, Some host)" and "ho_file host = Some s"
  shows "su_fileID su \<in> set (Sinks (pb_emitter (ho_probe host)))
    \<and> NewSinkFile me write (su_create su) (Wrap (cf_ringBufferSize (apply_options opts)) (cf_sinks (apply_options opts))) = Inr s"
  using assms
  by (auto simp: Wrap_host_def Let_def add_file_sink_def add_ingest_sink_def AddSink_def Sinks_def snapshotSinks_def
      split: if_splits sum.splits option.splits)

lemma Wrap_snapshot: "probe_snapshot (Wrap sz sinks) = probe_snapshot (Wrap sz sinks')"
  by (simp add: probe_snapshot_def Wrap_def fold_AddSink)

lemma recording_bytes:
  assumes "recording me k h p tr s" and "list_all (sendable me) tr"
  shows "sf_file s = trace_bytes me tr \<and> \<not> sf_closed s"
  using assms
proof (induction rule: recording.induct)
  case (wrap su opts host s)
  let ?p = "Wrap (cf_ringBufferSize (apply_options opts)) (cf_sinks (apply_options opts))"
  have "probe_snapshot (ho_probe host) = probe_snapshot ?p"
    by (subst Wrap_host_probe [OF wrap.hyps(1)]) (rule Wrap_snapshot)
  with Wrap_host_file [OF wrap.hyps(1,2)] wrap.hyps(3) wrap.prems show ?case
    by (simp add: NewSinkFile_def writeSnapshotLocked_append) (auto)
next
  case (work h p tr s envs p')
  then show ?case by (simp add: Write_file_append)
next
  case (tick h p tr s)
  then show ?case by (simp add: snapshotLoop_def writeSnapshotLocked_append)
qed

section \<open>Replaying a trace\<close>

lemma accepted_append: "accepted c (xs @ ys) \<longleftrightarrow> accepted c xs \<and> accepted (fold cursor_after xs c) ys"
  by (induction xs arbitrary: c) auto

lemma cursor_bound:
  assumes "\<forall>env \<in> set envs. unat (env_Seq env) \<le> n" and "unat c \<le> n"
  shows "unat (fold cursor_after envs c) \<le> n"
  using assms by (induction envs arbitrary: c) (auto simp: cursor_after_def max_def)

text \<open>
  What a trace is good for: whatever the cursor of the reader, every envelope is accepted, the tables end up as the mirror of
  the probe, and the cursor does not pass the numbers that the probe has given.
\<close>

definition replayable :: "sink_id \<Rightarrow> Envelope list \<Rightarrow> Probe \<Rightarrow> Envelope list \<Rightarrow> bool" where
  "replayable k h p tr \<longleftrightarrow> tracked k h p \<and> (\<forall>c. accepted c tr \<and> unat (fold cursor_after tr c) \<le> length h)
     \<and> (\<forall>tb. mirrors p (fold tables_step (payloads tr) tb))"

lemma replayable_snapshot:
  assumes "tracked k h p" and "\<forall>c. accepted c tr"
  shows "replayable k h p (tr @ snapshotEnvelopes (probe_snapshot p))"
proof -
  have "mirrors p (fold tables_step (payloads (snapshotEnvelopes (probe_snapshot p))) tb)" for tb
    using assms(1) tracked_strs [OF assms(1)] by (intro snapshot_mirrors) (simp_all add: tracked_def)
  with assms show ?thesis by (simp add: replayable_def accepted_append snapshot_accepted snapshot_cursor)
qed

lemma replayable_step:
  assumes "replayable k h p tr" and "probe_step k (h, p) (h @ envs, p')"
  shows "replayable k (h @ envs) p' (tr @ envs)"
proof -
  have tr: "tracked k h p" and c: "\<forall>c. accepted c tr \<and> unat (fold cursor_after tr c) \<le> length h"
    and m: "\<forall>tb. mirrors p (fold tables_step (payloads tr) tb)" using assms(1) by (simp_all add: replayable_def)
  obtain envs' where "h @ envs = h @ envs'" and tr': "tracked k (h @ envs) p'" and f: "follows p p' envs'"
    by (rule probe_step_follows [OF assms(2) tr])
  then have f: "follows p p' envs" by simp
  have acc: "accepted (fold cursor_after tr c) envs" for c
    using accepted_rest [OF tr', of "fold cursor_after tr c" "length h"] c by simp
  have "\<forall>env \<in> set envs. unat (env_Seq env) \<le> length (h @ envs)"
  proof
    fix env assume "env \<in> set envs"
    then obtain i where i: "i < length (h @ envs)" "(h @ envs) ! i = env" by (metis UnCI in_set_conv_nth set_append)
    then show "unat (env_Seq env) \<le> length (h @ envs)"
      using tracked_seq [OF tr' i(1)] by (simp add: unat_eq_nat_uint)
  qed
  then have "unat (fold cursor_after envs (fold cursor_after tr c)) \<le> length (h @ envs)" for c
    by (rule cursor_bound) (use c in \<open>simp add: trans_le_add1\<close>)
  moreover have "mirrors p' (fold tables_step (payloads envs) (fold tables_step (payloads tr) tb))" for tb
    using f m unfolding follows_def by blast
  ultimately show ?thesis using tr' c acc by (simp add: replayable_def accepted_append)
qed

lemma recording_replayable: "recording me k h p tr s \<Longrightarrow> replayable k h p tr"
proof (induction rule: recording.induct)
  case (wrap su opts host s)
  have "tracked k [] (ho_probe host)"
    using Wrap_host_file [OF wrap(1,2)] wrap(4,5) by (subst Wrap_host_probe [OF wrap(1)]) (simp add: tracked_Wrap)
  from replayable_snapshot [OF this, of "[]"] show ?case by simp
next
  case (work h p tr s envs p')
  from replayable_step [OF work.IH work.hyps(2)] show ?case .
next
  case (tick h p tr s)
  then show ?case by (intro replayable_snapshot) (simp_all add: replayable_def)
qed

text \<open>
  C6: a trace file can be replayed on its own: at any time after \<open>Wrap\<close>, whatever the probe did and however often
  \<open>snapshotLoop\<close> ticked, the file reads back, frame by frame and to its last byte, as the envelopes that the sink was
  handed, and applying them to any processor, under any source id, is accepted without a panic and leaves exactly the strings, open
  streams and open connections of the probe; provided that each envelope marshals to at most 4 MiB and that protobuf
  decodes what it encoded.
\<close>

theorem trace_file_replays:
  assumes codec: "\<And>m d. me m = Inr d \<Longrightarrow> ue d = Inr m"
    and "recording me k h p tr s" and "list_all (sendable me) tr"
    and "proc_ok ext P" and "clock_ok (pr_clock P)" and "map snd xs = tr"
  shows "read_trace ue (length tr) (sf_file s) = Inr (tr, [])
    \<and> (\<exists>P' effs. apply_all ext (deliver sid xs) P = Some (P', effs) \<and> mirrors p (tables (source_of sid P')))"
proof
  show "read_trace ue (length tr) (sf_file s) = Inr (tr, [])"
    using read_trace_bytes [OF codec assms(3), where rest = "[]"] recording_bytes [OF assms(2,3)] by simp
  have rep: "replayable k h p tr" by (rule recording_replayable [OF assms(2)])
  then have "accepted (LastAppliedSeq sid P) (map snd xs)" by (simp add: replayable_def assms(6))
  from apply_all_tables [OF assms(5,4) this] obtain P' effs where P': "apply_all ext (deliver sid xs) P = Some (P', effs)"
    "tables (source_of sid P') = fold tables_step (payloads tr) (tables (source_of sid P))" by (auto simp: assms(6))
  moreover have "mirrors p (tables (source_of sid P'))" unfolding P'(2) using rep by (simp add: replayable_def del: split_paired_All)
  ultimately show "\<exists>P' effs. apply_all ext (deliver sid xs) P = Some (P', effs) \<and> mirrors p (tables (source_of sid P'))"
    by blast
qed

section \<open>Examples\<close>

text \<open>A codec for the messages of a list, to show that the hypotheses on the codec can hold: a message is its first position.\<close>

definition list_marshal :: "'m list \<Rightarrow> 'm marshal" where
  "list_marshal L m = (if m \<in> set L then Inr (replicate (length (takeWhile (\<lambda>x. x \<noteq> m) L)) 0) else Inl (CodecError ''list''))"

definition list_unmarshal :: "'m list \<Rightarrow> 'm unmarshal" where
  "list_unmarshal L d = (if length d < length L then Inr (L ! length d) else Inl (CodecError ''list''))"

lemma takeWhile_pos:
  "m \<in> set L \<Longrightarrow> length (takeWhile (\<lambda>x. x \<noteq> m) L) < length L \<and> L ! length (takeWhile (\<lambda>x. x \<noteq> m) L) = m"
  by (induction L) auto

lemma list_codec: "list_marshal L m = Inr d \<Longrightarrow> list_unmarshal L d = Inr m"
  using takeWhile_pos [of m L] by (auto simp: list_marshal_def list_unmarshal_def split: if_splits)

lemma list_sendable:
  assumes "m \<in> set L" and "length L \<le> MaxMessageSize"
  shows "sendable (list_marshal L) m"
  using takeWhile_pos [OF assms(1)] assms by (simp add: list_marshal_def sendable_def)

lemma list_sendable_all: "set envs \<subseteq> set L \<Longrightarrow> length L \<le> MaxMessageSize \<Longrightarrow> list_all (sendable (list_marshal L)) envs"
  by (auto simp: list_all_iff intro: list_sendable)

text \<open>A probe that has accepted one connection, and what it wrote to its only sink.\<close>

definition demo_probe :: Probe where
  "demo_probe = fst (the (run_op (\<lambda>_. 0) (OpConnected demo_conn) (Wrap 4 [3])))"

definition demo_sink_writes :: sink_writes where
  "demo_sink_writes = snd (the (run_op (\<lambda>_. 0) (OpConnected demo_conn) (Wrap 4 [3])))"

lemma demo_run: "run_op (\<lambda>_. 0) (OpConnected demo_conn) (Wrap 4 [3]) = Some (demo_probe, demo_sink_writes)"
proof -
  have "run_op (\<lambda>_. 0) (OpConnected demo_conn) (Wrap 4 [3]) \<noteq> None" by code_simp
  then show ?thesis by (auto simp: demo_probe_def demo_sink_writes_def)
qed

lemma demo_lengths: "length demo_sink_writes = 5" "length (snapshotEnvelopes (probe_snapshot demo_probe)) = 7"
  by code_simp+

lemma demo_step: "probe_step 3 ([], Wrap 4 [3]) (map snd (filter (\<lambda>w. fst w = 3) demo_sink_writes), demo_probe)"
proof -
  have "room [] (Wrap 4 [3])" by (simp add: room_def Wrap_def AddSink_def empty_network_def NewEmitter_def newStringInterner_def Let_def)
  from operate [OF this _ demo_run, of 3] show ?thesis by simp
qed

definition demo_opts :: "Option list" where
  "demo_opts = [WithRingBufferSize 4, WithSinkFile ''trace.pb'' []]"

definition demo_surroundings :: "bytes surroundings" where
  "demo_surroundings = \<lparr>su_fileID = 3, su_ingestID = 4, su_create = Inr [], su_hostID = [], su_bootID = [], su_startedAtNs = 0, su_attach = None\<rparr>"

lemma demo_wrapped:
  assumes "list_all (sendable me) (snapshotEnvelopes (probe_snapshot (Wrap 4 [])))"
  shows "\<exists>s. Wrap_host me append_writer demo_surroundings demo_opts
    = (None, Some \<lparr>ho_probe = Wrap 4 [3], ho_file = Some s, ho_ingestSink = None\<rparr>)"
  using writeSnapshotLocked_append [OF assms, of "[]"]
  by (simp add: Wrap_host_def demo_opts_def demo_surroundings_def apply_options_def WithRingBufferSize_def WithSinkFile_def Let_def
      add_file_sink_def add_ingest_sink_def NewSinkFile_def Wrap_def)

theorem trace_file_replays_witness:
  "\<exists>me ue h p tr s P' effs. recording me 3 h p tr s \<and> length h = 5 \<and> read_trace ue (length tr) (sf_file s) = Inr (tr, [])
    \<and> apply_all demo_ext (deliver ''s1'' (map (\<lambda>env. (0, env)) tr)) (NewProcessor mainnet_clock) = Some (P', effs)
    \<and> mirrors p (tables (source_of ''s1'' P'))"
proof -
  let ?h = "map snd (filter (\<lambda>w. fst w = 3) demo_sink_writes)"
  let ?tr = "(snapshotEnvelopes (probe_snapshot (Wrap 4 [3])) @ ?h) @ snapshotEnvelopes (probe_snapshot demo_probe)"
  let ?me = "list_marshal ?tr"
  have len: "length ?h = 5" "length (snapshotEnvelopes (probe_snapshot (Wrap 4 [3]))) = 2" by code_simp+
  then have "length ?tr \<le> MaxMessageSize" by (simp add: demo_lengths MaxMessageSize_def)
  then have snd: "list_all (sendable ?me) ?tr" by (intro list_sendable_all) simp_all
  moreover have "probe_snapshot (Wrap 4 []) = probe_snapshot (Wrap 4 [3])" by (rule Wrap_snapshot)
  ultimately obtain s where "Wrap_host ?me append_writer demo_surroundings demo_opts
    = (None, Some \<lparr>ho_probe = Wrap 4 [3], ho_file = Some s, ho_ingestSink = None\<rparr>)" using demo_wrapped [of ?me] by auto
  from recording.wrap [OF this, of s 3]
  have "recording ?me 3 [] (Wrap 4 [3]) (snapshotEnvelopes (probe_snapshot (Wrap 4 [3]))) s"
    by (simp add: demo_surroundings_def Wrap_def AddSink_def NewEmitter_def Sinks_def snapshotSinks_def Let_def)
  from recording.tick [OF recording.work [OF this, of ?h demo_probe]] demo_step
  obtain s' where rec: "recording ?me 3 ?h demo_probe ?tr s'" by auto
  have ok: "proc_ok demo_ext (NewProcessor mainnet_clock)" "clock_ok (pr_clock (NewProcessor mainnet_clock))"
    using proc_ok_New mainnet_clock_ok by (simp_all add: NewProcessor_def)
  have "map snd (map (\<lambda>env. (0, env)) ?tr) = ?tr" by (simp add: o_def)
  from trace_file_replays [where ue = "list_unmarshal ?tr" and sid = "''s1''", OF list_codec rec snd ok this] rec len(1) show ?thesis by blast
qed

end
