(* ===== verification/Source_Registry.thy ===== *)
theory Source_Registry
  imports Messages Go_Lib
begin

text \<open>
  \<open>internal/sources/sources.go\<close>: the registry of probes that have ever attached.  The textual
  form of a libp2p peer id is the parameter \<open>idString\<close>; a \<open>time.Time\<close> is its Unix nanoseconds.
\<close>

record SourceInfo =
  inf_SourceID :: string
  inf_PeerID :: bytes
  inf_ClientName :: string
  inf_BootID :: bytes
  inf_StartedAtNs :: int
  inf_ConnectedAt :: int
  inf_Connected :: bool

type_synonym Registry = "(string, SourceInfo) gomap"

datatype registry_error = NoSources | MultipleSources

definition DeriveSourceID :: "(bytes \<Rightarrow> string) \<Rightarrow> bytes \<Rightarrow> string" where
  "DeriveSourceID idString peerID = idString peerID"

definition NewSourceRegistry :: Registry where
  "NewSourceRegistry = []"

definition Register :: "SourceInfo \<Rightarrow> Registry \<Rightarrow> Registry" where
  "Register info r = gput (inf_SourceID info) info r"

definition Get :: "string \<Rightarrow> Registry \<Rightarrow> SourceInfo option" where
  "Get sourceID r = gget r sourceID"

definition SetConnected :: "string \<Rightarrow> bool \<Rightarrow> Registry \<Rightarrow> Registry" where
  "SetConnected sourceID connected r =
     (case gget r sourceID of
        None \<Rightarrow> r
      | Some s \<Rightarrow> gput sourceID (s\<lparr>inf_Connected := connected\<rparr>) r)"

definition List_sources :: "Registry \<Rightarrow> SourceInfo list" where
  "List_sources r = gvals r"

definition DefaultSourceID :: "Registry \<Rightarrow> registry_error + string" where
  "DefaultSourceID r =
     (if length r = 0 then Inl NoSources
      else if length r = 1 then Inr (fst (hd r))
      else Inl MultipleSources)"

section \<open>Lemmas\<close>

definition registry_ok :: "Registry \<Rightarrow> bool" where
  "registry_ok r \<longleftrightarrow> gm_ok r \<and> (\<forall>sid info. gget r sid = Some info \<longrightarrow> inf_SourceID info = sid)"

lemma registry_ok_simps [simp]:
  "registry_ok NewSourceRegistry"
  "registry_ok r \<Longrightarrow> registry_ok (Register info r)"
  "registry_ok r \<Longrightarrow> registry_ok (SetConnected sid c r)"
  by (auto simp: registry_ok_def NewSourceRegistry_def Register_def SetConnected_def split: option.split)

lemma Get_Register [simp]: "Get sid (Register info r) = (if sid = inf_SourceID info then Some info else Get sid r)"
  by (simp add: Get_def Register_def)

lemma Get_SetConnected [simp]:
  "Get sid (SetConnected sid' c r) =
     (if sid = sid' then map_option (\<lambda>s. s\<lparr>inf_Connected := c\<rparr>) (Get sid r) else Get sid r)"
  by (auto simp: Get_def SetConnected_def split: option.split)

text \<open>A default source is returned exactly when there is one source only.\<close>

lemma DefaultSourceID_unique:
  assumes "gm_ok r"
  shows "DefaultSourceID r = Inr sid \<longleftrightarrow> gkeys r = {sid}"
proof -
  have "length r = card (gkeys r)" using assms distinct_card [of "map fst r"] by (simp add: gm_ok_def)
  moreover have "gkeys r = {fst (hd r)}" if "length r = 1" using that by (cases r) auto
  ultimately show ?thesis by (auto simp: DefaultSourceID_def)
qed

end
