(* ===== verification/Slot_Storage.thy ===== *)
theory Slot_Storage
  imports Source_Registry Slots
begin

text \<open>
  \<open>internal/storage/storage.go\<close>: finalized slots and source metadata in SQLite.

  The two tables are lists of rows in the order of their rowid.  A statement does what SQL says:
  the primary keys, \<open>INSERT OR IGNORE\<close>, the upsert of a source, \<open>ORDER BY\<close> and \<open>LIMIT\<close>.
  Every statement may fail; the argument \<open>fault\<close> of an operation is the error that the driver
  returns for it.  \<open>encoding/json\<close> and SQLite's \<open>jsonb\<close>/\<open>json\<close> are fields of \<open>json_ops\<close>: what
  a marshalled value reads back as.  Opening the storage and the migration of the files of an older version are in
  \<open>Legacy_Migration\<close>.
\<close>

section \<open>State\<close>

datatype storage_error =
    SlotRange u64 | MarshalError string | SqlError string | DecodeError string | ErrSlotNotFound

record slot_row =
  row_source :: string
  row_slot :: int
  row_summary :: string
  row_detail :: string

record Storage =
  db_slots :: "slot_row list"
  db_sources :: "(string, string) gomap"

record json_ops =
  js_summary :: "SlotSummary \<Rightarrow> string + string"
  js_detail :: "SlotDetail \<Rightarrow> string + string"
  js_info :: "SourceInfo \<Rightarrow> string + string"
  un_summary :: "string \<Rightarrow> string + SlotSummary"
  un_info :: "string \<Rightarrow> string + SourceInfo"
  sql_json :: "string \<Rightarrow> string"

text \<open>The database that \<open>initSchema\<close> leaves in a new file.\<close>

definition fresh_db :: Storage where
  "fresh_db = \<lparr>db_slots = [], db_sources = []\<rparr>"

section \<open>Slots\<close>

definition int64Slot :: "u64 \<Rightarrow> storage_error + int" where
  "int64Slot w = (if uint w > max_i64 then Inl (SlotRange w) else Inr (uint w))"

definition writeSlot ::
  "json_ops \<Rightarrow> string option \<Rightarrow> string \<Rightarrow> SlotDetail \<Rightarrow> Storage \<Rightarrow> Storage \<times> storage_error option" where
  "writeSlot js fault sourceID detail db =
     (case int64Slot (ss_Slot (sd_Summary detail)) of
        Inl e \<Rightarrow> (db, Some e)
      | Inr slot \<Rightarrow>
        (case js_summary js (sd_Summary detail) of
           Inl e \<Rightarrow> (db, Some (MarshalError e))
         | Inr summaryJSON \<Rightarrow>
           (case js_detail js detail of
              Inl e \<Rightarrow> (db, Some (MarshalError e))
            | Inr detailJSON \<Rightarrow>
              (case fault of
                 Some e \<Rightarrow> (db, Some (SqlError e))
               | None \<Rightarrow>
                   if \<exists>r \<in> set (db_slots db). row_source r = sourceID \<and> row_slot r = slot then (db, None)
                   else (db\<lparr>db_slots := db_slots db @
                     [\<lparr>row_source = sourceID, row_slot = slot, row_summary = summaryJSON, row_detail = detailJSON\<rparr>]\<rparr>, None)))))"

definition WriteSlot ::
  "json_ops \<Rightarrow> string option \<Rightarrow> string \<Rightarrow> SlotDetail \<Rightarrow> Storage \<Rightarrow> Storage \<times> storage_error option" where
  "WriteSlot js fault sourceID detail db = writeSlot js fault sourceID detail db"

definition ReadSlot :: "json_ops \<Rightarrow> string option \<Rightarrow> string \<Rightarrow> u64 \<Rightarrow> Storage \<Rightarrow> storage_error + string" where
  "ReadSlot js fault sourceID slot db =
     (case int64Slot slot of
        Inl e \<Rightarrow> Inl e
      | Inr v \<Rightarrow>
        (case fault of
           Some e \<Rightarrow> Inl (SqlError e)
         | None \<Rightarrow>
           (case find (\<lambda>r. row_source r = sourceID \<and> row_slot r = v) (db_slots db) of
              None \<Rightarrow> Inl ErrSlotNotFound
            | Some r \<Rightarrow> Inr (sql_json js (row_detail r)))))"

fun scanSummaries :: "json_ops \<Rightarrow> string list \<Rightarrow> storage_error + SlotSummary list" where
  "scanSummaries js [] = Inr []"
| "scanSummaries js (text # rest) =
     (case un_summary js text of
        Inl e \<Rightarrow> Inl (DecodeError e)
      | Inr s \<Rightarrow> (case scanSummaries js rest of Inl e \<Rightarrow> Inl e | Inr out \<Rightarrow> Inr (s # out)))"

text \<open>\<open>SELECT json(summary) ... ORDER BY slot DESC LIMIT ?\<close>.\<close>

definition select_desc :: "json_ops \<Rightarrow> (slot_row \<Rightarrow> bool) \<Rightarrow> int \<Rightarrow> Storage \<Rightarrow> string list" where
  "select_desc js cond limit db =
     map (\<lambda>r. sql_json js (row_summary r))
       (take (nat limit) (sort_slice (by_key_desc row_slot) (filter cond (db_slots db))))"

definition ListSummaries ::
  "json_ops \<Rightarrow> string option \<Rightarrow> string \<Rightarrow> int \<Rightarrow> Storage \<Rightarrow> storage_error + SlotSummary list" where
  "ListSummaries js fault sourceID limit db =
     (if limit \<le> 0 then Inr []
      else case fault of
        Some e \<Rightarrow> Inl (SqlError e)
      | None \<Rightarrow> scanSummaries js (select_desc js (\<lambda>r. row_source r = sourceID) limit db))"

definition SearchSlots ::
  "json_ops \<Rightarrow> string option \<Rightarrow> string \<Rightarrow> u64 \<Rightarrow> u64 \<Rightarrow> int \<Rightarrow> Storage \<Rightarrow> storage_error + SlotSummary list" where
  "SearchSlots js fault sourceID fromSlot toSlot limit db =
     (if limit \<le> 0 then Inr []
      else case int64Slot fromSlot of
        Inl e \<Rightarrow> Inl e
      | Inr lo \<Rightarrow>
        (case int64Slot toSlot of
           Inl e \<Rightarrow> Inl e
         | Inr hi \<Rightarrow>
           (case fault of
              Some e \<Rightarrow> Inl (SqlError e)
            | None \<Rightarrow> scanSummaries js
                (select_desc js (\<lambda>r. row_source r = sourceID \<and> row_slot r \<ge> lo \<and> row_slot r \<le> hi) limit db))))"

section \<open>Sources\<close>

definition writeSourceMeta ::
  "json_ops \<Rightarrow> string option \<Rightarrow> SourceInfo \<Rightarrow> Storage \<Rightarrow> Storage \<times> storage_error option" where
  "writeSourceMeta js fault info db =
     (case js_info js info of
        Inl e \<Rightarrow> (db, Some (MarshalError e))
      | Inr text \<Rightarrow>
        (case fault of
           Some e \<Rightarrow> (db, Some (SqlError e))
         | None \<Rightarrow> (db\<lparr>db_sources := gput (inf_SourceID info) text (db_sources db)\<rparr>, None)))"

definition WriteSourceMeta ::
  "json_ops \<Rightarrow> string option \<Rightarrow> SourceInfo \<Rightarrow> Storage \<Rightarrow> Storage \<times> storage_error option" where
  "WriteSourceMeta js fault info db = writeSourceMeta js fault info db"

fun scan_infos :: "json_ops \<Rightarrow> string list \<Rightarrow> storage_error + SourceInfo list" where
  "scan_infos js [] = Inr []"
| "scan_infos js (text # rest) =
     (case un_info js text of
        Inl e \<Rightarrow> Inl (DecodeError e)
      | Inr i \<Rightarrow> (case scan_infos js rest of Inl e \<Rightarrow> Inl e | Inr out \<Rightarrow> Inr (i # out)))"

definition LoadSourceMetas :: "json_ops \<Rightarrow> string option \<Rightarrow> Storage \<Rightarrow> storage_error + SourceInfo list" where
  "LoadSourceMetas js fault db =
     (case fault of
        Some e \<Rightarrow> Inl (SqlError e)
      | None \<Rightarrow> scan_infos js (map (\<lambda>kv. sql_json js (snd kv)) (sort_slice (by_key_asc fst) (db_sources db))))"

section \<open>Retention\<close>

text \<open>
  \<open>DELETE ... WHERE rowid IN (SELECT rowid ... WHERE slot < ? LIMIT 1000)\<close>: the rows left and the number
  of rows deleted.  SQLite may choose any 1000 of the rows; the model takes the first ones.
\<close>

fun delete_some :: "nat \<Rightarrow> int \<Rightarrow> slot_row list \<Rightarrow> slot_row list \<times> nat" where
  "delete_some 0 cutoff rows = (rows, 0)"
| "delete_some (Suc n) cutoff [] = ([], 0)"
| "delete_some (Suc n) cutoff (r # rows) =
     (if row_slot r < cutoff then (case delete_some n cutoff rows of (left, k) \<Rightarrow> (left, Suc k))
      else (case delete_some (Suc n) cutoff rows of (left, k) \<Rightarrow> (r # left, k)))"

lemma delete_some_length: "delete_some n cutoff rows = (left, k) \<Longrightarrow> length left + k = length rows"
  by (induction n cutoff rows arbitrary: left k rule: delete_some.induct) (auto split: if_splits prod.splits)

text \<open>The loop; \<open>faults i\<close> is the error of the \<open>i\<close>-th statement.\<close>

function prune_loop :: "(nat \<Rightarrow> string option) \<Rightarrow> nat \<Rightarrow> int \<Rightarrow> slot_row list \<Rightarrow> slot_row list \<times> storage_error option" where
  "prune_loop faults i cutoff rows =
     (case faults i of
        Some e \<Rightarrow> (rows, Some (SqlError e))
      | None \<Rightarrow>
          (case delete_some 1000 cutoff rows of (left, deleted) \<Rightarrow>
             if deleted = 0 then (left, None) else prune_loop faults (Suc i) cutoff left))"
  by pat_completeness auto
termination
  by (relation "measure (\<lambda>(faults, i, cutoff, rows). length rows)") (auto dest: delete_some_length [OF sym])

declare prune_loop.simps [simp del]

definition cutoff_slot :: "int \<Rightarrow> int \<Rightarrow> u64 \<Rightarrow> int \<Rightarrow> u64 go" where
  "cutoff_slot nowUnix retentionDays secondsPerSlot genesisUnix =
     (let retentionSeconds = to_u64 retentionDays * 24 * 3600 in
      if secondsPerSlot = 0 then None
      else
        let retentionSlots = retentionSeconds div secondsPerSlot;
            elapsed = to_u64 nowUnix - to_u64 genesisUnix;
            currentSlot = elapsed div secondsPerSlot
        in Some (if currentSlot > retentionSlots then currentSlot - retentionSlots else 0))"

text \<open>\<open>Prune\<close>: \<open>None\<close> is the panic of the division by zero.  \<open>slotsPerEpoch\<close> is not used.\<close>

definition Prune ::
  "(nat \<Rightarrow> string option) \<Rightarrow> int \<Rightarrow> int \<Rightarrow> u64 \<Rightarrow> u64 \<Rightarrow> int \<Rightarrow> Storage \<Rightarrow> (Storage \<times> storage_error option) go" where
  "Prune faults nowUnix retentionDays slotsPerEpoch secondsPerSlot genesisUnix db =
     (if retentionDays \<le> 0 then Some (db, None)
      else
        (case cutoff_slot nowUnix retentionDays secondsPerSlot genesisUnix of
           None \<Rightarrow> None
         | Some cutoff \<Rightarrow>
           (case int64Slot cutoff of
              Inl e \<Rightarrow> Some (db, Some e)
            | Inr v \<Rightarrow>
                (case prune_loop faults 0 v (db_slots db) of
                   (rows, err) \<Rightarrow> Some (db\<lparr>db_slots := rows\<rparr>, err)))))"

section \<open>The tables\<close>

text \<open>What the code relies on: JSON text written by \<open>encoding/json\<close> and kept by SQLite reads back as the value written.\<close>

definition json_law :: "json_ops \<Rightarrow> bool" where
  "json_law js \<longleftrightarrow> (\<forall>s t. js_summary js s = Inr t \<longrightarrow> un_summary js (sql_json js t) = Inr s)"

definition row_key :: "slot_row \<Rightarrow> string \<times> int" where
  "row_key r = (row_source r, row_slot r)"

definition row_value :: "json_ops \<Rightarrow> slot_row \<Rightarrow> storage_error + SlotSummary" where
  "row_value js r = (case un_summary js (sql_json js (row_summary r)) of Inl e \<Rightarrow> Inl (DecodeError e) | Inr s \<Rightarrow> Inr s)"

definition storage_ok :: "json_ops \<Rightarrow> Storage \<Rightarrow> bool" where
  "storage_ok js db \<longleftrightarrow> distinct (map row_key (db_slots db))
     \<and> (\<forall>r \<in> set (db_slots db). \<exists>s. row_value js r = Inr s \<and> uint (ss_Slot s) = row_slot r)"

lemma storage_ok_fresh: "storage_ok js fresh_db"
  by (simp add: storage_ok_def fresh_db_def)

lemma int64Slot_Inr: "int64Slot w = Inr v \<Longrightarrow> v = uint w"
  by (simp add: int64Slot_def split: if_splits)

text \<open>A write changes nothing, or appends one row with a new key.\<close>

lemma WriteSlot_cases:
  obtains (unchanged) err where "WriteSlot js fault sid d db = (db, err)"
  | (added) t u where "WriteSlot js fault sid d db = (db\<lparr>db_slots := db_slots db @
        [\<lparr>row_source = sid, row_slot = uint (ss_Slot (sd_Summary d)), row_summary = t, row_detail = u\<rparr>]\<rparr>, None)"
      "(sid, uint (ss_Slot (sd_Summary d))) \<notin> row_key ` set (db_slots db)"
      "js_summary js (sd_Summary d) = Inr t" "js_detail js d = Inr u"
      "uint (ss_Slot (sd_Summary d)) \<le> max_i64" "fault = None"
proof (cases "\<exists>err. WriteSlot js fault sid d db = (db, err)")
  case True
  then show thesis using unchanged by blast
next
  case False
  then obtain t u where "int64Slot (ss_Slot (sd_Summary d)) = Inr (uint (ss_Slot (sd_Summary d)))" "fault = None"
      "js_summary js (sd_Summary d) = Inr t" "js_detail js d = Inr u"
      "\<not> (\<exists>r \<in> set (db_slots db). row_source r = sid \<and> row_slot r = uint (ss_Slot (sd_Summary d)))"
    by (auto simp: WriteSlot_def writeSlot_def dest!: int64Slot_Inr split: sum.splits option.splits if_splits)
  then show thesis
    by (intro added [of t u])
      (auto simp: WriteSlot_def writeSlot_def row_key_def int64Slot_def split: if_splits)
qed

lemma storage_ok_WriteSlot:
  assumes "json_law js" and "storage_ok js db"
  shows "storage_ok js (fst (WriteSlot js fault sid d db))"
proof (cases rule: WriteSlot_cases [of js fault sid d db])
  case (added t u)
  then have "un_summary js (sql_json js t) = Inr (sd_Summary d)" using assms(1) by (simp add: json_law_def)
  with added assms(2) show ?thesis by (auto simp: storage_ok_def row_value_def row_key_def)
qed (use assms(2) in simp)

text \<open>A run of writes, each with the fault the driver may report for it.\<close>

type_synonym slot_write = "string option \<times> string \<times> SlotDetail"

fun write_all :: "json_ops \<Rightarrow> slot_write list \<Rightarrow> Storage \<Rightarrow> Storage" where
  "write_all js [] db = db"
| "write_all js ((fault, sid, d) # ws) db = write_all js ws (fst (WriteSlot js fault sid d db))"

lemma storage_ok_write_all: "json_law js \<Longrightarrow> storage_ok js db \<Longrightarrow> storage_ok js (write_all js ws db)"
  by (induction js ws db rule: write_all.induct) (simp_all add: storage_ok_WriteSlot)

text \<open>The text that a write stores for a slot of a source, unless it fails.\<close>

fun lands :: "json_ops \<Rightarrow> string \<Rightarrow> u64 \<Rightarrow> slot_write \<Rightarrow> string option" where
  "lands js sid slot (fault, sid', d) =
     (if fault = None \<and> sid' = sid \<and> ss_Slot (sd_Summary d) = slot \<and> (\<exists>t. js_summary js (sd_Summary d) = Inr t)
      then (case js_detail js d of Inl _ \<Rightarrow> None | Inr u \<Rightarrow> Some u) else None)"

fun first_landing :: "json_ops \<Rightarrow> string \<Rightarrow> u64 \<Rightarrow> slot_write list \<Rightarrow> string option" where
  "first_landing js sid slot [] = None"
| "first_landing js sid slot (w # ws) =
     (case lands js sid slot w of None \<Rightarrow> first_landing js sid slot ws | Some u \<Rightarrow> Some u)"

definition stored_text :: "string \<Rightarrow> u64 \<Rightarrow> Storage \<Rightarrow> string option" where
  "stored_text sid slot db = map_option row_detail (find (\<lambda>r. row_source r = sid \<and> row_slot r = uint slot) (db_slots db))"

lemma find_append: "find P (xs @ ys) = (case find P xs of None \<Rightarrow> find P ys | Some x \<Rightarrow> Some x)"
  by (induction xs) auto

lemma stored_text_absent: "stored_text sid slot db = None \<longleftrightarrow> (sid, uint slot) \<notin> row_key ` set (db_slots db)"
  by (auto simp: stored_text_def find_None_iff row_key_def)

lemma stored_text_WriteSlot:
  assumes "uint slot \<le> max_i64"
  shows "stored_text sid slot (fst (WriteSlot js fault sid' d db)) =
    (case stored_text sid slot db of Some u \<Rightarrow> Some u | None \<Rightarrow> lands js sid slot (fault, sid', d))"
proof (cases rule: WriteSlot_cases [of js fault sid' d db])
  case (unchanged err)
  have "lands js sid slot (fault, sid', d) = None" if "stored_text sid slot db = None"
  proof (rule ccontr)
    assume "lands js sid slot (fault, sid', d) \<noteq> None"
    then obtain t u where "fault = None" "sid' = sid" "ss_Slot (sd_Summary d) = slot"
        "js_summary js (sd_Summary d) = Inr t" "js_detail js d = Inr u"
      by (auto split: if_splits sum.splits)
    moreover have "int64Slot slot = Inr (uint slot)" using assms by (simp add: int64Slot_def)
    moreover have "\<not> (\<exists>r \<in> set (db_slots db). row_source r = sid \<and> row_slot r = uint slot)"
      using that by (auto simp: stored_text_absent row_key_def)
    ultimately have "db_slots (fst (WriteSlot js fault sid' d db)) \<noteq> db_slots db"
      by (simp add: WriteSlot_def writeSlot_def)
    with unchanged show False by simp
  qed
  with unchanged show ?thesis by (simp split: option.split)
next
  case (added t u)
  then show ?thesis
    by (auto simp: stored_text_def find_append word_uint_eq_iff split: option.split)
qed

lemma stored_text_write_all:
  "uint slot \<le> max_i64 \<Longrightarrow> stored_text sid slot (write_all js ws db) =
     (case stored_text sid slot db of Some u \<Rightarrow> Some u | None \<Rightarrow> first_landing js sid slot ws)"
proof (induction js ws db rule: write_all.induct)
  case (2 js fault sid' d ws db)
  then show ?case by (simp add: stored_text_WriteSlot del: lands.simps split: option.split)
qed (simp split: option.split)

section \<open>Listing\<close>

lemma row_value_Inr: "row_value js r = Inr s \<longleftrightarrow> un_summary js (sql_json js (row_summary r)) = Inr s"
  by (simp add: row_value_def split: sum.split)

lemma scanSummaries_map:
  "(\<And>r. r \<in> set rows \<Longrightarrow> row_value js r = Inr (f r)) \<Longrightarrow>
     scanSummaries js (map (\<lambda>r. sql_json js (row_summary r)) rows) = Inr (map f rows)"
  by (induction rows) (simp_all add: row_value_Inr)

definition stored_slots :: "json_ops \<Rightarrow> (slot_row \<Rightarrow> bool) \<Rightarrow> Storage \<Rightarrow> SlotSummary set" where
  "stored_slots js cond db = {s. \<exists>r \<in> set (db_slots db). cond r \<and> row_value js r = Inr s}"

text \<open>Rows of one source have different slots, and decode to summaries with the slot of their key.\<close>

lemma select_desc_newest:
  assumes ok: "storage_ok js db" and pos: "0 < n" and one: "\<And>r. cond r \<Longrightarrow> row_source r = sid"
  shows "\<exists>xs. scanSummaries js (select_desc js cond n db) = Inr xs \<and> newest ss_Slot n (stored_slots js cond db) xs"
proof -
  define f where "f r = (case row_value js r of Inl _ \<Rightarrow> undefined | Inr s \<Rightarrow> s)" for r
  define hit where "hit = filter cond (db_slots db)"
  define rows where "rows = sort_slice (by_key_desc row_slot) hit"
  have val: "row_value js r = Inr (f r)" "uint (ss_Slot (f r)) = row_slot r" if "r \<in> set (db_slots db)" for r
    using ok that by (auto simp: storage_ok_def f_def)
  have "distinct (map row_key hit)" using ok by (simp add: storage_ok_def hit_def distinct_map_filter)
  moreover have "\<forall>r \<in> set hit. row_key r = (sid, row_slot r)" using one by (simp add: hit_def row_key_def)
  ultimately have dist: "distinct (map row_slot hit)"
    by (auto simp: distinct_map inj_on_def)
  from sort_strict(1) [OF this] have "sorted_wrt (\<lambda>a b. row_slot b < row_slot a) rows" by (simp add: rows_def)
  moreover have sub: "set rows \<subseteq> set (db_slots db)" by (auto simp: rows_def hit_def)
  ultimately have "sorted_wrt (\<lambda>a b. ss_Slot b < ss_Slot a) (map f rows)"
    using val(2) by (auto simp: sorted_wrt_map word_less_def subset_iff elim: sorted_wrt_mono_rel [rotated])
  from newest_prefix [OF this, of n] have "newest ss_Slot n (f ` set rows) (map f (take (nat n) rows))"
    using newest_limit [OF pos, of "map f rows"] by (simp add: take_map)
  moreover have "f ` set rows = stored_slots js cond db"
    using val(1) by (force simp: stored_slots_def rows_def hit_def)
  moreover have "scanSummaries js (select_desc js cond n db) = Inr (map f (take (nat n) rows))"
    unfolding select_desc_def hit_def [symmetric] rows_def [symmetric]
    by (rule scanSummaries_map) (use sub val(1) in_set_takeD in fastforce)
  ultimately show ?thesis by simp
qed

definition listed_summaries :: "json_ops \<Rightarrow> string \<Rightarrow> int \<Rightarrow> Storage \<Rightarrow> SlotSummary list option" where
  "listed_summaries js sid n db = (case ListSummaries js None sid n db of Inl _ \<Rightarrow> None | Inr xs \<Rightarrow> Some xs)"

interpretation stored_list: newest_listing ss_Slot "storage_ok js" "stored_slots js (\<lambda>r. row_source r = sid)"
    "listed_summaries js sid" for js sid
proof
  fix db :: Storage and n :: int
  assume "storage_ok js db" "0 < n"
  with select_desc_newest [of js db n "\<lambda>r. row_source r = sid" sid]
  show "\<exists>xs. listed_summaries js sid n db = Some xs \<and> newest ss_Slot n (stored_slots js (\<lambda>r. row_source r = sid) db) xs"
    by (auto simp: listed_summaries_def ListSummaries_def)
qed

section \<open>Pruning\<close>

lemma delete_some_spec:
  assumes "delete_some n cutoff rows = (left, k)"
  shows "filter (\<lambda>r. cutoff \<le> row_slot r) left = filter (\<lambda>r. cutoff \<le> row_slot r) rows"
    and "set left \<subseteq> set rows" and "0 < n \<Longrightarrow> k = 0 \<Longrightarrow> left = filter (\<lambda>r. cutoff \<le> row_slot r) rows"
  using assms by (induction n cutoff rows arbitrary: left k rule: delete_some.induct) (auto split: if_splits prod.splits)

text \<open>Whatever statements fail, no row at or after the cutoff is lost; without a failure no older row is left.\<close>

lemma prune_loop_spec:
  assumes "prune_loop faults i cutoff rows = (left, err)"
  shows "filter (\<lambda>r. cutoff \<le> row_slot r) left = filter (\<lambda>r. cutoff \<le> row_slot r) rows \<and> set left \<subseteq> set rows
    \<and> ((\<forall>j. faults j = None) \<longrightarrow> err = None) \<and> (err = None \<longrightarrow> left = filter (\<lambda>r. cutoff \<le> row_slot r) rows)"
  using assms
proof (induction faults i cutoff rows arbitrary: left err rule: prune_loop.induct)
  case (1 faults i cutoff rows)
  obtain mid k where d: "delete_some 1000 cutoff rows = (mid, k)" by (cases "delete_some 1000 cutoff rows")
  note spec = delete_some_spec [OF d]
  show ?case
  proof (cases "faults i = None \<and> k \<noteq> 0")
    case True
    with "1.prems" d have rec: "prune_loop faults (Suc i) cutoff mid = (left, err)" by (subst (asm) prune_loop.simps) simp
    with True "1.IH" [OF _ d [symmetric] _ rec] spec(1,2) show ?thesis by auto
  next
    case False
    with "1.prems" d spec(1,3) show ?thesis by (subst (asm) prune_loop.simps) (auto split: option.splits)
  qed
qed

lemma cutoff_slot_value:
  assumes "0 < days" and "days * 86400 < 2 ^ 64" and "0 \<le> genesis" and "genesis \<le> now" and "now < 2 ^ 63"
    and "0 < sps" and "sps < 2 ^ 64"
  shows "\<exists>c. cutoff_slot now days (to_u64 sps) genesis = Some c
    \<and> uint c = max 0 ((now - genesis) div sps - days * 86400 div sps) \<and> uint c \<le> max_i64"
proof -
  let ?cur = "(now - genesis) div sps" and ?ret = "days * 86400 div sps"
  have ret: "uint (to_u64 days * 24 * 3600) = days * 86400"
  proof -
    have "to_u64 days * 24 * 3600 = to_u64 (days * 86400)" by (simp add: to_u64_def)
    then show ?thesis using assms(1,2) by simp
  qed
  have ela: "uint (to_u64 now - to_u64 genesis) = now - genesis"
  proof -
    have "to_u64 now - to_u64 genesis = to_u64 (now - genesis)" by (simp add: to_u64_def)
    then show ?thesis using assms(3,4,5) by simp
  qed
  have sps: "uint (to_u64 sps) = sps" "to_u64 sps \<noteq> 0" using assms(6,7) by (auto simp: word_uint_eq_iff)
  have r: "uint ((to_u64 days * 24 * 3600) div to_u64 sps) = ?ret" unfolding uint_div ret sps ..
  have c: "uint ((to_u64 now - to_u64 genesis) div to_u64 sps) = ?cur" unfolding uint_div ela sps ..
  have "0 \<le> ?ret" "?cur \<le> now - genesis" using assms zdiv_mono2 [of "now - genesis" 1 sps] by (simp_all add: pos_imp_zdiv_nonneg_iff)
  then have "?cur \<le> max_i64" using assms(3,5) by (simp add: max_i64_def)
  with r c sps(2) \<open>0 \<le> ?ret\<close> show ?thesis
    by (auto simp: cutoff_slot_def Let_def word_less_def uint_sub_if' max_i64_def)
qed

text \<open>
  C12: a finalized slot is stored once and read back: after any run of writes of any sources, some of which
  may fail, reading a slot returns the detail of the first write of that slot that did not fail, and
  reports that there is none when there was no such write.
\<close>

theorem slot_first_write_wins:
  assumes "uint slot \<le> max_i64"
  shows "ReadSlot js None sid slot (write_all js ws fresh_db) =
    (case first_landing js sid slot ws of None \<Rightarrow> Inl ErrSlotNotFound | Some u \<Rightarrow> Inr (sql_json js u))"
proof -
  have "stored_text sid slot fresh_db = None" by (simp add: stored_text_def fresh_db_def)
  then have "stored_text sid slot (write_all js ws fresh_db) = first_landing js sid slot ws"
    using stored_text_write_all [OF assms] by simp
  with assms show ?thesis
    by (cases "find (\<lambda>r. row_source r = sid \<and> row_slot r = uint slot) (db_slots (write_all js ws fresh_db))")
      (auto simp: ReadSlot_def int64Slot_def stored_text_def dest: sym)
qed

text \<open>JSON as a pair of tables for two concrete summaries.\<close>

definition demo_summary :: "u64 \<Rightarrow> SlotSummary" where
  "demo_summary slot = \<lparr>ss_Slot = slot, ss_Epoch = 0, ss_SlotStartNs = 0, ss_SlotEndNs = 0, ss_BytesIn = 0, ss_BytesOut = 0,
     ss_Finalized = True, ss_LastUpdatedNs = 0, ss_Meta = no_meta\<rparr>"

definition demo_detail :: "u64 \<Rightarrow> SlotBucketPoint list \<Rightarrow> SlotDetail" where
  "demo_detail slot bs = \<lparr>sd_Summary = demo_summary slot, sd_Buckets = bs, sd_Breakdown = []\<rparr>"

definition demo_json :: json_ops where
  "demo_json = \<lparr>js_summary = (\<lambda>s. if s = demo_summary (ss_Slot s) then Inr (FormatUint (ss_Slot s)) else Inl ''unsupported''),
     js_detail = (\<lambda>d. Inr (FormatUint (ss_Slot (sd_Summary d)) @ replicate (length (sd_Buckets d)) CHR ''b'')),
     js_info = (\<lambda>i. Inr (inf_SourceID i)),
     un_summary = (\<lambda>t. case ParseUint t of (w, None) \<Rightarrow> Inr (demo_summary w) | _ \<Rightarrow> Inl ''syntax''),
     un_info = (\<lambda>t. Inl ''unsupported''), sql_json = (\<lambda>t. t)\<rparr>"

lemma json_law_demo: "json_law demo_json"
  by (auto simp: json_law_def demo_json_def split: if_splits)

definition demo_writes :: "slot_write list" where
  "demo_writes = [(Some ''busy'', ''s1'', demo_detail 5 []),
     (None, ''s1'', demo_detail 5 [\<lparr>bp_OffsetMs = 0, bp_BytesIn = 1, bp_BytesOut = 0, bp_Breakdown = []\<rparr>]),
     (None, ''s2'', demo_detail 7 []), (None, ''s1'', demo_detail 5 []), (None, ''s1'', demo_detail 6 [])]"

theorem slot_first_write_wins_witness:
  "uint (5 :: u64) \<le> max_i64
    \<and> ReadSlot demo_json None ''s1'' 5 (write_all demo_json demo_writes fresh_db) = Inr (FormatUint 5 @ ''b'')
    \<and> ReadSlot demo_json None ''s1'' 7 (write_all demo_json demo_writes fresh_db) = Inl ErrSlotNotFound"
proof -
  have "uint (5 :: u64) \<le> max_i64" "uint (7 :: u64) \<le> max_i64" by (simp_all add: max_i64_def)
  then show ?thesis
    unfolding slot_first_write_wins [OF \<open>uint (5 :: u64) \<le> max_i64\<close>] slot_first_write_wins [OF \<open>uint (7 :: u64) \<le> max_i64\<close>]
    by (simp add: demo_writes_def demo_json_def demo_detail_def demo_summary_def)
qed

text \<open>
  C27: a search returns the newest stored slots of the range: whatever was written before, the summaries of the
  source in the closed range are listed newest first, none of them twice, at most as many as asked for,
  and only older ones are left out.
\<close>

theorem search_slots_newest:
  assumes "json_law js" and "0 < n" and "uint lo \<le> max_i64" and "uint hi \<le> max_i64"
  shows "\<exists>xs. SearchSlots js None sid lo hi n (write_all js ws fresh_db) = Inr xs
    \<and> newest ss_Slot n {s \<in> stored_slots js (\<lambda>r. row_source r = sid) (write_all js ws fresh_db). lo \<le> ss_Slot s \<and> ss_Slot s \<le> hi} xs"
proof -
  let ?db = "write_all js ws fresh_db" and ?c = "\<lambda>r. row_source r = sid \<and> row_slot r \<ge> uint lo \<and> row_slot r \<le> uint hi"
  have ok: "storage_ok js ?db" by (rule storage_ok_write_all [OF assms(1) storage_ok_fresh])
  then have "stored_slots js ?c ?db = {s \<in> stored_slots js (\<lambda>r. row_source r = sid) ?db. lo \<le> ss_Slot s \<and> ss_Slot s \<le> hi}"
    by (fastforce simp: stored_slots_def storage_ok_def word_le_def)
  moreover have "SearchSlots js None sid lo hi n ?db = scanSummaries js (select_desc js ?c n ?db)"
    using assms(2-4) by (simp add: SearchSlots_def int64Slot_def)
  ultimately show ?thesis using select_desc_newest [OF ok assms(2), of ?c sid] by simp
qed

theorem search_slots_newest_witness:
  "json_law demo_json \<and> (\<exists>xs. SearchSlots demo_json None ''s1'' 0 5 10 (write_all demo_json demo_writes fresh_db) = Inr xs
    \<and> newest ss_Slot 10 {s \<in> stored_slots demo_json (\<lambda>r. row_source r = ''s1'') (write_all demo_json demo_writes fresh_db).
        0 \<le> ss_Slot s \<and> ss_Slot s \<le> 5} xs)"
  using search_slots_newest [OF json_law_demo, of 10 0 5 "''s1''" demo_writes] json_law_demo by (simp add: max_i64_def)

text \<open>
  C26: retention: with a clock past genesis, \<open>Prune\<close> ends, and when no statement fails exactly the rows
  older than the retention window are gone, of all sources and however many batches they take; a failing
  statement may leave old rows, but never costs a row inside the window.
\<close>

theorem prune_exact:
  assumes "0 < days" and "days * 86400 < 2 ^ 64" and "0 \<le> genesis" and "genesis \<le> now" and "now < 2 ^ 63"
    and "0 < sps" and "sps < 2 ^ 64"
  defines "cutoff \<equiv> max 0 ((now - genesis) div sps - days * 86400 div sps)"
  shows "\<exists>db' err. Prune faults now days spe (to_u64 sps) genesis db = Some (db', err)
    \<and> db_sources db' = db_sources db \<and> set (db_slots db') \<subseteq> set (db_slots db)
    \<and> filter (\<lambda>r. cutoff \<le> row_slot r) (db_slots db') = filter (\<lambda>r. cutoff \<le> row_slot r) (db_slots db)
    \<and> ((\<forall>j. faults j = None) \<longrightarrow> err = None)
    \<and> (err = None \<longrightarrow> db_slots db' = filter (\<lambda>r. cutoff \<le> row_slot r) (db_slots db))"
proof -
  obtain c where c: "cutoff_slot now days (to_u64 sps) genesis = Some c" "uint c = cutoff" "uint c \<le> max_i64"
    using cutoff_slot_value [OF assms(1-7)] by (auto simp: cutoff_def)
  obtain rows err where run: "prune_loop faults 0 cutoff (db_slots db) = (rows, err)"
    by (cases "prune_loop faults 0 cutoff (db_slots db)")
  have "Prune faults now days spe (to_u64 sps) genesis db = Some (db\<lparr>db_slots := rows\<rparr>, err)"
    using c run assms(1) by (simp add: Prune_def int64Slot_def)
  with prune_loop_spec [OF run] show ?thesis by simp
qed

definition demo_rows :: Storage where
  "demo_rows = write_all demo_json [(None, ''s1'', demo_detail 5 []), (None, ''s1'', demo_detail 6 []),
     (None, ''s2'', demo_detail 5 []), (None, ''s2'', demo_detail 7200 [])] fresh_db"

theorem prune_exact_witness:
  "\<exists>db'. Prune (\<lambda>_. None) (1606824023 + 86472) 1 32 12 1606824023 demo_rows = Some (db', None)
    \<and> db_slots db' = filter (\<lambda>r. 6 \<le> row_slot r) (db_slots demo_rows) \<and> length (db_slots db') = 2"
proof -
  have "to_u64 12 = 12" by (simp add: to_u64_def)
  moreover have "length (filter (\<lambda>r. 6 \<le> row_slot r) (db_slots demo_rows)) = 2"
    by (simp add: demo_rows_def WriteSlot_def writeSlot_def int64Slot_def demo_json_def demo_detail_def demo_summary_def
        fresh_db_def max_i64_def)
  ultimately show ?thesis
    using prune_exact [of 1 1606824023 "1606824023 + 86472" 12 "\<lambda>_. None" 32 demo_rows] by auto
qed

text \<open>A slot length of zero seconds makes \<open>Prune\<close> divide by zero.\<close>

lemma prune_panics_on_zero_slot: "0 < days \<Longrightarrow> Prune faults now days spe 0 genesis db = None"
  by (simp add: Prune_def cutoff_slot_def)

end
