(* ===== verification/Ingest.thy ===== *)
theory Ingest
  imports Processing Slot_Storage Wire
begin

text \<open>
  \<open>internal/ingest/ingest.go\<close>: the listener that probes connect to.  Each connection is served by a
  goroutine that runs \<open>handleConnection\<close>; the goroutines share the session table, the registry of sources, the
  processor and the storage, each behind its own mutex.

  A goroutine is a phase, the point in \<open>handleConnection\<close> it has reached, with the values it holds.
  \<open>handle_step\<close> runs one goroutine up to the next point: one critical section, or one read or write on the
  connection, whose outcome is an event.  A system is the shared state and the phases of all connections, which
  are numbered; \<open>ingest_step\<close> lets any goroutine take any step.  A connection that was closed cannot be read
  or written any more.  \<open>ListenAndServe\<close> only starts goroutines: connection \<open>c\<close> is accepted when it takes its
  first step.
\<close>

section \<open>State\<close>

record Listener =
  ln_processor :: Processor
  ln_registry :: Registry
  ln_storage :: "Storage option"
  ln_sessions :: "(string, nat) gomap"
  ln_cancelled :: "nat set"
  ln_closed :: "nat set"

definition NewListener :: "Processor \<Rightarrow> Registry \<Rightarrow> Storage option \<Rightarrow> Listener" where
  "NewListener p registry store =
     \<lparr>ln_processor = p, ln_registry = registry, ln_storage = store, ln_sessions = [], ln_cancelled = {}, ln_closed = {}\<rparr>"

text \<open>An active session is its connection; its cancel function is known by the same number.\<close>

definition close_conn :: "nat \<Rightarrow> Listener \<Rightarrow> Listener" where
  "close_conn c l = l\<lparr>ln_closed := insert c (ln_closed l)\<rparr>"

definition cancel :: "nat \<Rightarrow> Listener \<Rightarrow> Listener" where
  "cancel c l = l\<lparr>ln_cancelled := insert c (ln_cancelled l)\<rparr>"

definition CloseSession :: "string \<Rightarrow> Listener \<Rightarrow> bool \<times> Listener" where
  "CloseSession sourceID l =
     (case gget (ln_sessions l) sourceID of None \<Rightarrow> (False, l) | Some c \<Rightarrow> (True, close_conn c l))"

section \<open>The critical sections of a handler\<close>

definition claim_session :: "nat \<Rightarrow> string \<Rightarrow> Listener \<Rightarrow> Listener" where
  "claim_session c sourceID l =
     (let l = (case gget (ln_sessions l) sourceID of None \<Rightarrow> l | Some old \<Rightarrow> close_conn old (cancel old l))
      in l\<lparr>ln_sessions := gput sourceID c (ln_sessions l)\<rparr>)"

definition release_session :: "nat \<Rightarrow> string \<Rightarrow> Listener \<Rightarrow> bool \<times> Listener" where
  "release_session c sourceID l =
     (if gget (ln_sessions l) sourceID = Some c then (True, l\<lparr>ln_sessions := gdel sourceID (ln_sessions l)\<rparr>)
      else (False, l))"

definition must_reset :: "string \<Rightarrow> bytes \<Rightarrow> Listener \<Rightarrow> bool" where
  "must_reset sourceID bootID l =
     (case Get sourceID (ln_registry l) of None \<Rightarrow> True | Some prior \<Rightarrow> inf_BootID prior \<noteq> bootID)"

definition source_info :: "int \<Rightarrow> string \<Rightarrow> ClientHello \<Rightarrow> SourceInfo" where
  "source_info now sourceID hello =
     \<lparr>inf_SourceID = sourceID, inf_PeerID = hello_PeerId hello, inf_ClientName = hello_ClientName hello,
      inf_BootID = hello_BootId hello, inf_StartedAtNs = hello_StartedAtNs hello, inf_ConnectedAt = now, inf_Connected = True\<rparr>"

definition persist_info :: "json_ops \<Rightarrow> string option \<Rightarrow> SourceInfo \<Rightarrow> Listener \<Rightarrow> Listener" where
  "persist_info js fault info l =
     (case ln_storage l of None \<Rightarrow> l | Some db \<Rightarrow> l\<lparr>ln_storage := Some (fst (WriteSourceMeta js fault info db))\<rparr>)"

section \<open>A handler\<close>

datatype phase =
    Accepted
  | Greeted ClientHello
  | Claimed ClientHello
  | Resetting ClientHello
  | Asking ClientHello
  | Answering ClientHello u64
  | Answered ClientHello
  | Persisting SourceInfo
  | Polling string
  | Reading string
  | Applying string Envelope
  | Leaving string
  | Unmarking string bool
  | Closing
  | Finished

text \<open>What the connection does in a step: nothing, deliver a message, take one, or fail.\<close>

datatype conn_event = Silent | GotHello ClientHello | GotEnvelope Envelope | Sent | Failed

definition usable :: "nat \<Rightarrow> Listener \<Rightarrow> bool" where
  "usable c l \<longleftrightarrow> c \<notin> ln_closed l"

record ingest_params =
  ip_ext :: externals
  ip_idString :: "bytes \<Rightarrow> string"
  ip_json :: json_ops

definition source_id :: "ingest_params \<Rightarrow> ClientHello \<Rightarrow> string" where
  "source_id ip hello = DeriveSourceID (ip_idString ip) (hello_PeerId hello)"

text \<open>Most points of the handler wait for nothing: they react to \<open>Silent\<close> only.\<close>

definition silently :: "conn_event \<Rightarrow> 'a \<Rightarrow> 'a option" where
  "silently ev r = (if ev = Silent then Some r else None)"

fun handle_step ::
  "ingest_params \<Rightarrow> nat \<Rightarrow> int \<Rightarrow> string option \<Rightarrow> conn_event \<Rightarrow> phase \<Rightarrow> Listener \<Rightarrow> (phase \<times> Listener) option" where
  "handle_step ip c now fault ev Accepted l =
     (case ev of
        GotHello hello \<Rightarrow>
          if \<not> usable c l then None
          else if hello_ProtocolVersion hello \<noteq> IngestProtocolVersion then Some (Finished, close_conn c l)
          else Some (Greeted hello, l)
      | Failed \<Rightarrow> Some (Finished, close_conn c l)
      | _ \<Rightarrow> None)"
| "handle_step ip c now fault ev (Greeted hello) l = silently ev (Claimed hello, claim_session c (source_id ip hello) l)"
| "handle_step ip c now fault ev (Claimed hello) l =
     silently ev (if must_reset (source_id ip hello) (hello_BootId hello) l then Resetting hello else Asking hello, l)"
| "handle_step ip c now fault ev (Resetting hello) l =
     silently ev (Asking hello, l\<lparr>ln_processor := ResetSource (source_id ip hello) (ln_processor l)\<rparr>)"
| "handle_step ip c now fault ev (Asking hello) l =
     silently ev (Answering hello (LastAppliedSeq (source_id ip hello) (ln_processor l)), l)"
| "handle_step ip c now fault ev (Answering hello lastAcked) l =
     (case ev of
        Sent \<Rightarrow> if usable c l then Some (Answered hello, l) else None
      | Failed \<Rightarrow> Some (Leaving (source_id ip hello), l)
      | _ \<Rightarrow> None)"
| "handle_step ip c now fault ev (Answered hello) l =
     (let info = source_info now (source_id ip hello) hello
      in silently ev (Persisting info, l\<lparr>ln_registry := Register info (ln_registry l)\<rparr>))"
| "handle_step ip c now fault ev (Persisting info) l =
     silently ev (Polling (inf_SourceID info), persist_info (ip_json ip) fault info l)"
| "handle_step ip c now fault ev (Polling sid) l =
     silently ev (if c \<in> ln_cancelled l then Leaving sid else Reading sid, l)"
| "handle_step ip c now fault ev (Reading sid) l =
     (case ev of
        GotEnvelope env \<Rightarrow> if usable c l then Some (Applying sid env, l) else None
      | Failed \<Rightarrow> Some (Leaving sid, l)
      | _ \<Rightarrow> None)"
| "handle_step ip c now fault ev (Applying sid env) l =
     (if ev = Silent then
        (case ApplyForSource (ip_ext ip) now sid (Some env) (ln_processor l) of
           None \<Rightarrow> None
         | Some (p, effs) \<Rightarrow> Some (Polling sid, l\<lparr>ln_processor := p\<rparr>))
      else None)"
| "handle_step ip c now fault ev (Leaving sid) l =
     (case release_session c sid l of (owns, l) \<Rightarrow> silently ev (Unmarking sid owns, l))"
| "handle_step ip c now fault ev (Unmarking sid owns) l =
     silently ev (Closing, if owns then l\<lparr>ln_registry := SetConnected sid False (ln_registry l)\<rparr> else l)"
| "handle_step ip c now fault ev Closing l = silently ev (Finished, cancel c (close_conn c l))"
| "handle_step ip c now fault ev Finished l = None"

section \<open>The listener\<close>

type_synonym system = "Listener \<times> (nat \<Rightarrow> phase)"

inductive ingest_step :: "ingest_params \<Rightarrow> system \<Rightarrow> system \<Rightarrow> bool" for ip where
  thread: "handle_step ip c now fault ev (T c) l = Some (ph, l') \<Longrightarrow> ingest_step ip (l, T) (l', T(c := ph))"
| close: "CloseSession sid l = (b, l') \<Longrightarrow> ingest_step ip (l, T) (l', T)"

inductive serving :: "ingest_params \<Rightarrow> Listener \<Rightarrow> system \<Rightarrow> bool" for ip l0 where
  start: "serving ip l0 (l0, \<lambda>_. Accepted)"
| step: "serving ip l0 s \<Longrightarrow> ingest_step ip s s' \<Longrightarrow> serving ip l0 s'"

inductive_simps ingest_step_simps: "ingest_step ip (l, T) s'"

text \<open>
  \<open>ListenAndServe\<close>: a stale socket is removed, the address is bound, and connections are accepted until \<open>Accept\<close>
  fails, each with whether the context is done by then.  The result is the files removed, the handlers started and the error,
  none while the loop waits.
\<close>

datatype accept_result = NewConn nat | AcceptError string

datatype listen_error = ListenFailed string | AcceptFailed string | ContextDone

fun accept_loop :: "(accept_result \<times> bool) list \<Rightarrow> nat list \<times> listen_error option" where
  "accept_loop [] = ([], None)"
| "accept_loop ((NewConn c, stopped) # rest) = (case accept_loop rest of (started, err) \<Rightarrow> (c # started, err))"
| "accept_loop ((AcceptError err, stopped) # rest) = ([], Some (if stopped then ContextDone else AcceptFailed err))"

definition ListenAndServe ::
  "string \<Rightarrow> (string \<Rightarrow> string \<Rightarrow> string option) \<Rightarrow> (accept_result \<times> bool) list \<Rightarrow> string list \<times> nat list \<times> listen_error option" where
  "ListenAndServe address listen accepts =
     (let network = InferNetwork address;
          removed = (if network = ''unix'' then [address] else [])
      in case listen network address of
           Some err \<Rightarrow> (removed, [], Some (ListenFailed err))
         | None \<Rightarrow> (case accept_loop accepts of (started, err) \<Rightarrow> (removed, started, err)))"

text \<open>A handler is started for every connection before the first failure; only the path of a socket is ever removed.\<close>

lemma ListenAndServe_starts:
  assumes "ListenAndServe address listen accepts = (removed, started, err)" and "listen (InferNetwork address) address = None"
  shows "map NewConn started = takeWhile (\<lambda>a. \<forall>e. a \<noteq> AcceptError e) (map fst accepts) \<and> (err = None \<longleftrightarrow> length started = length accepts)
    \<and> (removed \<noteq> [] \<longleftrightarrow> CHR ''/'' \<in> set address)"
proof -
  have "map NewConn (fst (accept_loop xs)) = takeWhile (\<lambda>a. \<forall>e. a \<noteq> AcceptError e) (map fst xs)
      \<and> (snd (accept_loop xs) = None \<longleftrightarrow> length (fst (accept_loop xs)) = length xs)" for xs
    by (induction xs rule: accept_loop.induct) (auto split: prod.split)
  from this [of accepts] assms show ?thesis by (auto simp: ListenAndServe_def InferNetwork_unix Let_def split: prod.splits if_splits)
qed

section \<open>Sessions\<close>

text \<open>The source that a goroutine serves, from claiming the session up to releasing it.\<close>

fun serves :: "ingest_params \<Rightarrow> phase \<Rightarrow> string option" where
  "serves ip (Claimed hello) = Some (source_id ip hello)"
| "serves ip (Resetting hello) = Some (source_id ip hello)"
| "serves ip (Asking hello) = Some (source_id ip hello)"
| "serves ip (Answering hello n) = Some (source_id ip hello)"
| "serves ip (Answered hello) = Some (source_id ip hello)"
| "serves ip (Persisting info) = Some (inf_SourceID info)"
| "serves ip (Polling sid) = Some sid"
| "serves ip (Reading sid) = Some sid"
| "serves ip (Applying sid env) = Some sid"
| "serves ip (Leaving sid) = Some sid"
| "serves ip _ = None"

definition sessions_ok :: "ingest_params \<Rightarrow> system \<Rightarrow> bool" where
  "sessions_ok ip s \<longleftrightarrow> gm_ok (ln_sessions (fst s))
     \<and> (\<forall>c sid. serves ip (snd s c) = Some sid \<longrightarrow> c \<notin> ln_closed (fst s) \<longrightarrow> gget (ln_sessions (fst s)) sid = Some c)
     \<and> (\<forall>sid c. gget (ln_sessions (fst s)) sid = Some c \<longrightarrow> serves ip (snd s c) = Some sid)"

lemma sessions_okI:
  "gm_ok (ln_sessions l) \<Longrightarrow> (\<And>c sid. serves ip (T c) = Some sid \<Longrightarrow> c \<notin> ln_closed l \<Longrightarrow> gget (ln_sessions l) sid = Some c) \<Longrightarrow>
     (\<And>sid c. gget (ln_sessions l) sid = Some c \<Longrightarrow> serves ip (T c) = Some sid) \<Longrightarrow> sessions_ok ip (l, T)"
  unfolding sessions_ok_def fst_conv snd_conv by blast

lemma sessions_okD:
  assumes "sessions_ok ip (l, T)"
  shows "gm_ok (ln_sessions l)" "serves ip (T c) = Some sid \<Longrightarrow> c \<notin> ln_closed l \<Longrightarrow> gget (ln_sessions l) sid = Some c"
    "gget (ln_sessions l) sid = Some c \<Longrightarrow> serves ip (T c) = Some sid"
  using assms unfolding sessions_ok_def fst_conv snd_conv by blast+

text \<open>What a step does to the session table: nothing, claim a session, or release one.\<close>

lemma handle_step_sessions:
  assumes "handle_step ip c now fault ev ph l = Some (ph', l')"
  shows "serves ip ph' = serves ip ph \<and> ln_sessions l' = ln_sessions l \<and> ln_closed l \<subseteq> ln_closed l'
    \<or> (\<exists>sid. serves ip ph = None \<and> serves ip ph' = Some sid \<and> l' = claim_session c sid l)
    \<or> (\<exists>sid owns. serves ip ph = Some sid \<and> serves ip ph' = None \<and> release_session c sid l = (owns, l'))"
  using assms
  by (cases ph; cases ev)
    (auto simp: silently_def close_conn_def cancel_def persist_info_def source_info_def Let_def split: if_splits option.splits prod.splits)

lemma claim_session_simps [simp]:
  "ln_sessions (claim_session c sid l) = gput sid c (ln_sessions l)"
  "ln_closed (claim_session c sid l) = ln_closed l \<union> set_option (gget (ln_sessions l) sid)"
  by (cases "gget (ln_sessions l) sid"; simp add: claim_session_def close_conn_def cancel_def)+

lemma sessions_ok_claim:
  assumes "sessions_ok ip (l, T)" and "serves ip (T c) = None" and "serves ip ph = Some sid"
  shows "sessions_ok ip (claim_session c sid l, T(c := ph))"
proof (rule sessions_okI)
  note D = sessions_okD [OF assms(1)]
  show "gm_ok (ln_sessions (claim_session c sid l))" using D(1) by simp
  fix d s
  assume s: "serves ip ((T(c := ph)) d) = Some s" and d: "d \<notin> ln_closed (claim_session c sid l)"
  show "gget (ln_sessions (claim_session c sid l)) s = Some d"
  proof (cases "d = c")
    case True
    with s assms(3) show ?thesis by simp
  next
    case False
    with s d D(2) [of d s] have "gget (ln_sessions l) s = Some d" by simp
    with d show ?thesis by auto
  qed
next
  note D = sessions_okD [OF assms(1)]
  fix s d
  assume "gget (ln_sessions (claim_session c sid l)) s = Some d"
  then have "s = sid \<and> d = c \<or> s \<noteq> sid \<and> gget (ln_sessions l) s = Some d" by (simp split: if_splits)
  then show "serves ip ((T(c := ph)) d) = Some s" using D(3) [of s d] assms(2,3) by auto
qed

lemma sessions_ok_release:
  assumes "sessions_ok ip (l, T)" and "serves ip (T c) = Some sid" and "serves ip ph = None" and "release_session c sid l = (owns, l')"
  shows "sessions_ok ip (l', T(c := ph))"
proof (rule sessions_okI)
  note D = sessions_okD [OF assms(1)]
  have cl: "ln_closed l' = ln_closed l" using assms(4) by (auto simp: release_session_def split: if_splits)
  have se: "gget (ln_sessions l') s = (if gget (ln_sessions l) s = Some c then None else gget (ln_sessions l) s)" for s
    using assms(2,4) D(3) [of s c] by (auto simp: release_session_def split: if_splits)
  show "gm_ok (ln_sessions l')" using D(1) assms(4) by (auto simp: release_session_def split: if_splits)
  show "gget (ln_sessions l') s = Some d" if "serves ip ((T(c := ph)) d) = Some s" "d \<notin> ln_closed l'" for d s
    using that D(2) [of d s] assms(3) by (simp add: cl se split: if_splits)
  show "serves ip ((T(c := ph)) d) = Some s" if "gget (ln_sessions l') s = Some d" for s d
    using that D(3) [of s d] by (auto simp: se split: if_splits)
qed

lemma sessions_ok_keep:
  assumes "sessions_ok ip (l, T)" and "serves ip ph = serves ip (T c)" and "ln_sessions l' = ln_sessions l" and "ln_closed l \<subseteq> ln_closed l'"
  shows "sessions_ok ip (l', T(c := ph))"
proof (rule sessions_okI)
  note D = sessions_okD [OF assms(1)]
  show "gm_ok (ln_sessions l')" using D(1) by (simp add: assms(3))
  show "gget (ln_sessions l') s = Some d" if "serves ip ((T(c := ph)) d) = Some s" "d \<notin> ln_closed l'" for d s
    using that D(2) [of d s] assms(2,4) by (auto simp: assms(3) split: if_splits)
  show "serves ip ((T(c := ph)) d) = Some s" if "gget (ln_sessions l') s = Some d" for s d
    using that D(3) [of s d] assms(2) by (auto simp: assms(3))
qed

lemma sessions_ok_step: "ingest_step ip s s' \<Longrightarrow> sessions_ok ip s \<Longrightarrow> sessions_ok ip s'"
proof (induction rule: ingest_step.induct)
  case (thread c now fault ev T l ph l')
  from handle_step_sessions [OF thread(1)] consider
      (keep) "serves ip ph = serves ip (T c)" "ln_sessions l' = ln_sessions l" "ln_closed l \<subseteq> ln_closed l'"
    | (claim) sid where "serves ip (T c) = None" "serves ip ph = Some sid" "l' = claim_session c sid l"
    | (release) sid owns where "serves ip (T c) = Some sid" "serves ip ph = None" "release_session c sid l = (owns, l')"
    by blast
  then show ?case
    by cases (use thread(2) in \<open>auto intro: sessions_ok_keep sessions_ok_claim sessions_ok_release\<close>)
next
  case (close sid l b l' T)
  then have "ln_sessions l' = ln_sessions l" "ln_closed l \<subseteq> ln_closed l'"
    by (auto simp: CloseSession_def close_conn_def split: option.splits)
  with sessions_ok_keep [OF close(2), of "T 0" 0 l'] show ?case by simp
qed

lemma serving_sessions_ok: "serving ip (NewListener p r st) s \<Longrightarrow> sessions_ok ip s"
proof (induction rule: serving.induct)
  case start
  show ?case by (rule sessions_okI) (simp_all add: NewListener_def)
next
  case (step s s')
  then show ?case by (blast intro: sessions_ok_step)
qed

text \<open>
  C14: at most one connection serves a source: in whatever order the handlers of all connections run, two handlers
  that serve the same source and whose connections are both open are the same one, and it is the one
  in the session table; a newer connection has closed the older one.
\<close>

theorem one_session_per_source:
  assumes "serving ip (NewListener p r st) (l, T)" and "serves ip (T c) = Some sid" and "serves ip (T d) = Some sid"
    and "c \<notin> ln_closed l" and "d \<notin> ln_closed l"
  shows "c = d \<and> gget (ln_sessions l) sid = Some c"
proof -
  note D = sessions_okD(2) [OF serving_sessions_ok [OF assms(1)]]
  from D [OF assms(2,4)] D [OF assms(3,5)] show ?thesis by simp
qed

section \<open>Schedules\<close>

text \<open>Goroutines taking turns, each with the event of its connection; \<open>None\<close> where one cannot go on.\<close>

fun run_sched :: "ingest_params \<Rightarrow> (nat \<times> conn_event) list \<Rightarrow> system \<Rightarrow> system option" where
  "run_sched ip [] s = Some s"
| "run_sched ip ((c, ev) # rest) (l, T) =
     (case handle_step ip c 0 None ev (T c) l of
        None \<Rightarrow> None
      | Some (ph, l') \<Rightarrow> run_sched ip rest (l', T(c := ph)))"

lemma serving_sched: "run_sched ip sched s = Some s' \<Longrightarrow> serving ip l0 s \<Longrightarrow> serving ip l0 s'"
proof (induction ip sched s rule: run_sched.induct)
  case (2 ip c ev rest l T)
  then obtain ph l' where h: "handle_step ip c 0 None ev (T c) l = Some (ph, l')" "run_sched ip rest (l', T(c := ph)) = Some s'"
    by (auto split: option.splits)
  have "serving ip l0 (l', T(c := ph))" using 2(3) ingest_step.thread [where T = T, OF h(1)] by (rule serving.step)
  with 2(1) [OF h(1) refl] h(2) show ?case by simp
qed simp

lemma run_sched_append:
  "run_sched ip (xs @ ys) s = (case run_sched ip xs s of None \<Rightarrow> None | Some s' \<Rightarrow> run_sched ip ys s')"
  by (induction ip xs s rule: run_sched.induct) (auto split: option.split)

definition demo_params :: ingest_params where
  "demo_params = \<lparr>ip_ext = demo_ext, ip_idString = (\<lambda>_. ''s1''), ip_json = demo_json\<rparr>"

definition demo_hello :: "u8 \<Rightarrow> ClientHello" where
  "demo_hello boot = \<lparr>hello_ProtocolVersion = 3, hello_PeerId = [1], hello_ClientName = [], hello_BootId = [boot], hello_StartedAtNs = 0\<rparr>"

definition demo_listener :: Listener where
  "demo_listener = NewListener (NewProcessor mainnet_clock) [] None"

text \<open>A handler from accepting the connection to its receive loop.\<close>

definition attach_events :: "u8 \<Rightarrow> conn_event list" where
  "attach_events boot = [GotHello (demo_hello boot), Silent, Silent, Silent, Silent, Sent, Silent, Silent, Silent]"

lemmas sched_simps = attach_events_def demo_hello_def demo_listener_def NewListener_def demo_params_def usable_def silently_def source_id_def
  DeriveSourceID_def IngestProtocolVersion_def claim_session_def must_reset_def Get_def Register_def source_info_def
  persist_info_def close_conn_def cancel_def release_session_def SetConnected_def ResetSource_def LastAppliedSeq_def NewProcessor_def Let_def

definition first_attached :: "(nat \<times> conn_event) list" where
  "first_attached = map (\<lambda>ev. (0, ev)) (attach_events 1)"

definition demo_envelope :: Envelope where
  "demo_envelope = \<lparr>env_Seq = 5, env_ObservedAtNs = 0, env_Payload = Some (Envelope_StringDef \<lparr>def_Id = 0, def_Value = ''a''\<rparr>)\<rparr>"

text \<open>
  C33: a restarted probe may be told to continue where its predecessor stopped: the handler of the new boot
  closes the old connection and resets the source, but an envelope that the old handler has already read
  is applied after the reset, and the cursor that the new handler then reports is the old probe's; the
  probe takes it for its own and sends no snapshot.
\<close>

theorem restart_race_keeps_stale_cursor:
  "\<exists>l T hello n prior. serving demo_params demo_listener (l, T) \<and> T 1 = Answering hello n \<and> n \<noteq> 0
    \<and> Get (source_id demo_params hello) (ln_registry l) = Some prior \<and> inf_BootID prior \<noteq> hello_BootId hello
    \<and> n = env_Seq demo_envelope"
proof -
  let ?sched = "first_attached @ [(0, GotEnvelope demo_envelope), (1, GotHello (demo_hello 2)), (1, Silent), (1, Silent), (1, Silent),
    (0, Silent), (1, Silent)]"
  obtain l T where run: "run_sched demo_params ?sched (demo_listener, \<lambda>_. Accepted) = Some (l, T)"
    and st: "T 1 = Answering (demo_hello 2) 5" "Get ''s1'' (ln_registry l) = Some (source_info 0 ''s1'' (demo_hello 1))"
    by (simp add: first_attached_def sched_simps demo_envelope_def ApplyForSource_def ensureSourceLocked_def set_source_def source_of_def
        getd_def newSourceState_def advance_cursor_def)
  have "serving demo_params demo_listener (l, T)" by (rule serving_sched [OF run serving.start])
  with st show ?thesis
    by (intro exI [of _ l] exI [of _ T] exI [of _ "demo_hello 2"]) (simp add: source_id_def demo_params_def DeriveSourceID_def
        demo_hello_def source_info_def demo_envelope_def)
qed

text \<open>
  A live probe may be listed as disconnected: the old handler releases its session, a new connection attaches
  and registers, and only then the old handler clears the flag.
\<close>

lemma live_source_marked_disconnected:
  "\<exists>l T info. serving demo_params demo_listener (l, T) \<and> T 1 = Reading ''s1'' \<and> 1 \<notin> ln_closed l
    \<and> gget (ln_sessions l) ''s1'' = Some 1 \<and> Get ''s1'' (ln_registry l) = Some info \<and> \<not> inf_Connected info"
proof -
  let ?sched = "first_attached @ [(0, Failed), (0, Silent)] @ map (\<lambda>ev. (1, ev))
      [GotHello (demo_hello 1), Silent, Silent, Silent, Sent, Silent, Silent, Silent] @ [(0, Silent)]"
  obtain l T info where run: "run_sched demo_params ?sched (demo_listener, \<lambda>_. Accepted) = Some (l, T)"
    and st: "T 1 = Reading ''s1''" "1 \<notin> ln_closed l" "gget (ln_sessions l) ''s1'' = Some 1"
      "Get ''s1'' (ln_registry l) = Some info" "\<not> inf_Connected info"
    by (simp add: first_attached_def sched_simps)
  have "serving demo_params demo_listener (l, T)" by (rule serving_sched [OF run serving.start])
  with st show ?thesis by blast
qed

text \<open>
  a probe may stay listed as connected although no connection is left: a handler that has answered but not yet
  registered is preempted by a second connection that ends at once and clears the flag; the first
  handler then registers the source as connected, and on leaving does not clear the flag, since it no longer owns the session.
\<close>

lemma dead_source_stays_connected:
  "\<exists>l T info. serving demo_params demo_listener (l, T) \<and> T 0 = Finished \<and> T 1 = Finished \<and> ln_sessions l = []
    \<and> Get ''s1'' (ln_registry l) = Some info \<and> inf_Connected info"
proof -
  let ?sched = "map (\<lambda>ev. (0, ev)) [GotHello (demo_hello 1), Silent, Silent, Silent, Silent, Sent]
    @ map (\<lambda>ev. (1, ev)) [GotHello (demo_hello 1), Silent, Silent, Silent, Silent, Failed, Silent, Silent, Silent]
    @ map (\<lambda>ev. (0, ev)) [Silent, Silent, Silent, Silent, Silent, Silent]"
  obtain l T info where run: "run_sched demo_params ?sched (demo_listener, \<lambda>_. Accepted) = Some (l, T)"
    and st: "T 0 = Finished" "T 1 = Finished" "ln_sessions l = []"
      "Get ''s1'' (ln_registry l) = Some info" "inf_Connected info"
    by (simp add: sched_simps)
  have "serving demo_params demo_listener (l, T)" by (rule serving_sched [OF run serving.start])
  with st show ?thesis by blast
qed

theorem one_session_per_source_witness:
  "\<exists>l T. serving demo_params demo_listener (l, T) \<and> serves demo_params (T 1) = Some ''s1'' \<and> 1 \<notin> ln_closed l
    \<and> serves demo_params (T 0) = Some ''s1'' \<and> gget (ln_sessions l) ''s1'' = Some 1 \<and> 0 \<in> ln_closed l"
proof -
  let ?sched = "first_attached @ [(1, GotHello (demo_hello 1)), (1, Silent)]"
  obtain l T where run: "run_sched demo_params ?sched (demo_listener, \<lambda>_. Accepted) = Some (l, T)"
    and st: "serves demo_params (T 0) = Some ''s1''" "serves demo_params (T 1) = Some ''s1''" "1 \<notin> ln_closed l"
    by (simp add: first_attached_def sched_simps)
  have sv: "serving demo_params demo_listener (l, T)" by (rule serving_sched [OF run serving.start])
  have one: "1 = (1 :: nat) \<and> gget (ln_sessions l) ''s1'' = Some 1"
    by (rule one_session_per_source [OF sv [unfolded demo_listener_def] st(2,2,3,3)])
  have "0 \<in> ln_closed l"
  proof (rule ccontr)
    assume "0 \<notin> ln_closed l"
    from one_session_per_source [OF sv [unfolded demo_listener_def] st(1,2) this st(3)] show False by simp
  qed
  with sv st one show ?thesis by blast
qed

section \<open>Ending\<close>

text \<open>How many points of the handler are left once its connection is closed.\<close>

fun steps_left :: "phase \<Rightarrow> nat" where
  "steps_left Finished = 0"
| "steps_left Closing = 1"
| "steps_left (Unmarking sid owns) = 2"
| "steps_left (Leaving sid) = 3"
| "steps_left (Reading sid) = 4"
| "steps_left (Polling sid) = 5"
| "steps_left (Applying sid env) = 6"
| "steps_left (Persisting info) = 6"
| "steps_left (Answered hello) = 7"
| "steps_left (Answering hello n) = 8"
| "steps_left (Asking hello) = 9"
| "steps_left (Resetting hello) = 10"
| "steps_left (Claimed hello) = 11"
| "steps_left (Greeted hello) = 12"
| "steps_left Accepted = 13"

lemma closed_grows:
  assumes "ingest_step ip s s'"
  shows "ln_closed (fst s) \<subseteq> ln_closed (fst s')"
  using assms
proof (induction rule: ingest_step.induct)
  case (thread c now fault ev T l ph l')
  from handle_step_sessions [OF thread] show ?case by (auto simp: release_session_def split: if_splits)
next
  case (close sid l b l' T)
  then show ?case by (auto simp: CloseSession_def close_conn_def split: option.splits)
qed

text \<open>The processor behind the listener keeps its invariant and never panics.\<close>

definition processor_fine :: "ingest_params \<Rightarrow> Listener \<Rightarrow> bool" where
  "processor_fine ip l \<longleftrightarrow> proc_ok (ip_ext ip) (ln_processor l) \<and> clock_ok (pr_clock (ln_processor l))"

lemma handle_step_processor:
  assumes "handle_step ip c now fault ev ph l = Some (ph', l')" and "processor_fine ip l"
  shows "processor_fine ip l'"
proof -
  consider (same) "ln_processor l' = ln_processor l" | (reset) sid where "ln_processor l' = ResetSource sid (ln_processor l)"
    | (applied) sid env effs where "ApplyForSource (ip_ext ip) now sid (Some env) (ln_processor l) = Some (ln_processor l', effs)"
    using assms(1) by (cases ph; cases ev) (auto simp: silently_def close_conn_def cancel_def persist_info_def claim_session_def
        release_session_def Let_def split: if_splits option.splits prod.splits)
  then show ?thesis
  proof cases
    case (reset sid)
    moreover have "pr_clock (ResetSource sid (ln_processor l)) = pr_clock (ln_processor l)"
      by (simp add: ResetSource_def set_source_def split: option.split)
    ultimately show ?thesis using assms(2) by (simp add: processor_fine_def proc_ok_ResetSource)
  next
    case (applied sid env effs)
    with ApplyForSource_total [of "ln_processor l" "ip_ext ip" now sid "Some env"] assms(2) show ?thesis by (auto simp: processor_fine_def)
  qed (use assms(2) in \<open>simp add: processor_fine_def\<close>)
qed

lemma serving_proc_ok:
  assumes "serving ip l0 s" and "processor_fine ip l0"
  shows "processor_fine ip (fst s)"
  using assms(1)
proof (induction rule: serving.induct)
  case (step s s')
  from step(2,3) show ?case
  proof (induction rule: ingest_step.induct)
    case (thread c now fault ev T l ph l')
    then show ?case using handle_step_processor by simp
  next
    case (close sid l b l' T)
    then show ?case by (auto simp: CloseSession_def close_conn_def processor_fine_def split: option.splits)
  qed
qed (simp add: assms(2))

text \<open>
  C34: a handler whose connection was closed, by a newer connection or by \<open>CloseSession\<close>, ends: it is never stuck,
  each of its steps brings it nearer to the end, of which it is at most 13 steps away, and no step of any
  other handler opens its connection again.
\<close>

theorem closed_handler_ends:
  assumes "c \<in> ln_closed l" and "proc_ok (ip_ext ip) (ln_processor l)" and "clock_ok (pr_clock (ln_processor l))"
  shows "(T c \<noteq> Finished \<longrightarrow> (\<exists>ev ph l'. handle_step ip c now fault ev (T c) l = Some (ph, l')))
    \<and> (\<forall>now fault ev ph l'. handle_step ip c now fault ev (T c) l = Some (ph, l') \<longrightarrow> steps_left ph < steps_left (T c))
    \<and> steps_left (T c) \<le> 13
    \<and> (\<forall>s'. ingest_step ip (l, T) s' \<longrightarrow> c \<in> ln_closed (fst s'))"
proof (intro conjI allI impI)
  assume "T c \<noteq> Finished"
  have failing: "\<exists>ph l'. handle_step ip c now fault Failed (T c) l = Some (ph, l')" if "T c = Accepted \<or> (\<exists>h n. T c = Answering h n) \<or> (\<exists>s. T c = Reading s)"
    using that by auto
  have silent: "\<exists>ph l'. handle_step ip c now fault Silent (T c) l = Some (ph, l')"
    if "T c \<noteq> Accepted" "\<And>h n. T c \<noteq> Answering h n" "\<And>s. T c \<noteq> Reading s"
    using that \<open>T c \<noteq> Finished\<close> ApplyForSource_total [OF assms(3,2)]
    by (cases "T c") (auto simp: silently_def Let_def split: prod.split option.split, fastforce+)
  show "\<exists>ev ph l'. handle_step ip c now fault ev (T c) l = Some (ph, l')" using failing silent by blast
next
  fix now fault ev ph l'
  assume "handle_step ip c now fault ev (T c) l = Some (ph, l')"
  then show "steps_left ph < steps_left (T c)"
    using assms(1) by (cases "T c"; cases ev) (auto simp: silently_def usable_def Let_def split: if_splits option.splits prod.splits)
next
  show "steps_left (T c) \<le> 13" by (cases "T c") simp_all
next
  fix s' assume "ingest_step ip (l, T) s'"
  from closed_grows [OF this] assms(1) show "c \<in> ln_closed (fst s')" by auto
qed

theorem closed_handler_ends_witness:
  "\<exists>l T ev ph l'. serving demo_params demo_listener (l, T) \<and> 0 \<in> ln_closed l \<and> T 0 \<noteq> Finished
    \<and> handle_step demo_params 0 7 None ev (T 0) l = Some (ph, l') \<and> steps_left ph < steps_left (T 0) \<and> steps_left (T 0) \<le> 13"
proof -
  let ?sched = "first_attached @ [(1, GotHello (demo_hello 1)), (1, Silent)]"
  obtain l T where run: "run_sched demo_params ?sched (demo_listener, \<lambda>_. Accepted) = Some (l, T)"
    and st: "T 0 \<noteq> Finished" "0 \<in> ln_closed l"
    by (simp add: first_attached_def sched_simps)
  have sv: "serving demo_params demo_listener (l, T)" by (rule serving_sched [OF run serving.start])
  have "proc_ok (ip_ext demo_params) (ln_processor l) \<and> clock_ok (pr_clock (ln_processor l))"
    using serving_proc_ok [OF sv] proc_ok_New [of demo_ext mainnet_clock] mainnet_clock_ok
    by (simp add: processor_fine_def demo_listener_def NewListener_def demo_params_def) (simp add: NewProcessor_def)
  with closed_handler_ends [OF st(2), of demo_params T 7 None] st(1) obtain ev ph l' where
    "handle_step demo_params 0 7 None ev (T 0) l = Some (ph, l')" "steps_left ph < steps_left (T 0)" "steps_left (T 0) \<le> 13"
    by blast
  with sv st show ?thesis by blast
qed

end
