(* ===== verification/Sessions.thy ===== *)
theory Sessions
  imports Delivery Ingest
begin

text \<open>
  A probe attaches to the server: the goroutine of \<open>SinkIngest\<close> on one end of a connection and \<open>handleConnection\<close>
  on the other, joined by the bytes that each writes and the other reads.
\<close>

section \<open>A handler on a stream of bytes\<close>

text \<open>The codecs of the messages that a handler reads and writes.\<close>

record codecs =
  cd_hello :: "ClientHello unmarshal"
  cd_answer :: "ServerHello marshal"
  cd_envelope :: "Envelope unmarshal"

record served =
  sd_phase :: phase
  sd_listener :: Listener
  sd_input :: bytes
  sd_output :: bytes

definition server_hello :: "string \<Rightarrow> u64 \<Rightarrow> ServerHello" where
  "server_hello sid lastAcked =
     \<lparr>shello_ProtocolVersion = IngestProtocolVersion, shello_SourceId = sid, shello_LastAckedSeq = lastAcked\<rparr>"

text \<open>
  What the connection does at a point of the handler: the next message of the input or a failure, with the rest of the input
  and of the output.  The client reads whatever is written.
\<close>

fun conn_does :: "codecs \<Rightarrow> ingest_params \<Rightarrow> phase \<Rightarrow> bytes \<Rightarrow> bytes \<Rightarrow> conn_event \<times> bytes \<times> bytes" where
  "conn_does cd ip Accepted r w =
     (case ReadClientHello (cd_hello cd) r of Inl err \<Rightarrow> (Failed, r, w) | Inr (hello, r) \<Rightarrow> (GotHello hello, r, w))"
| "conn_does cd ip (Reading sid) r w =
     (case ReadEnvelope (cd_envelope cd) r of Inl err \<Rightarrow> (Failed, r, w) | Inr (env, r) \<Rightarrow> (GotEnvelope env, r, w))"
| "conn_does cd ip (Answering hello lastAcked) r w =
     (case WriteServerHello (cd_answer cd) append_writer w (server_hello (source_id ip hello) lastAcked) of
        (w, Some err) \<Rightarrow> (Failed, r, w)
      | (w, None) \<Rightarrow> (Sent, r, w))"
| "conn_does cd ip ph r w = (Silent, r, w)"

definition serve_step :: "codecs \<Rightarrow> ingest_params \<Rightarrow> nat \<Rightarrow> int \<times> string option \<Rightarrow> served \<Rightarrow> served option" where
  "serve_step cd ip c tick s =
     (case conn_does cd ip (sd_phase s) (sd_input s) (sd_output s) of (ev, r, w) \<Rightarrow>
        (case handle_step ip c (fst tick) (snd tick) ev (sd_phase s) (sd_listener s) of
           None \<Rightarrow> None
         | Some (ph, l) \<Rightarrow> Some \<lparr>sd_phase = ph, sd_listener = l, sd_input = r, sd_output = w\<rparr>))"

text \<open>The steps of a handler, each with the time and the fault of the storage that it meets.\<close>

fun serve :: "codecs \<Rightarrow> ingest_params \<Rightarrow> nat \<Rightarrow> (int \<times> string option) list \<Rightarrow> served \<Rightarrow> served option" where
  "serve cd ip c [] s = Some s"
| "serve cd ip c (tick # ticks) s = (case serve_step cd ip c tick s of None \<Rightarrow> None | Some s \<Rightarrow> serve cd ip c ticks s)"

lemma serve_append: "serve cd ip c (xs @ ys) s = (case serve cd ip c xs s of None \<Rightarrow> None | Some s \<Rightarrow> serve cd ip c ys s)"
  by (induction xs arbitrary: s) (auto split: option.split)

section \<open>Receiving\<close>

lemma serve_receives:
  assumes "\<And>m d. me m = Inr d \<Longrightarrow> cd_envelope cd d = Inr m" and "list_all (sendable me) envs" and "length ticks = 3 * length envs"
    and "c \<notin> ln_closed l" and "c \<notin> ln_cancelled l" and "processor_fine ip l"
  shows "\<exists>xs P effs. map snd xs = envs \<and> apply_all (ip_ext ip) (deliver sid xs) (ln_processor l) = Some (P, effs)
    \<and> serve cd ip c ticks \<lparr>sd_phase = Reading sid, sd_listener = l, sd_input = write_envelopes me [] envs, sd_output = w\<rparr>
      = Some \<lparr>sd_phase = Reading sid, sd_listener = l\<lparr>ln_processor := P\<rparr>, sd_input = [], sd_output = w\<rparr>"
  using assms(2-6)
proof (induction envs arbitrary: ticks l)
  case Nil
  then show ?case by (intro exI [of _ "[]"]) (simp add: deliver_def)
next
  case (Cons env envs)
  obtain t1 t2 t3 ts where ticks: "ticks = t1 # t2 # t3 # ts" and ts: "length ts = 3 * length envs"
    using Cons.prems(2) by (auto simp: length_Suc_conv numeral_3_eq_3)
  obtain d where d: "me env = Inr d" "wire_fits d" using Cons.prems(1) by (auto elim: sendableE)
  have rd: "ReadEnvelope (cd_envelope cd) (write_envelopes me [] (env # envs)) = Inr (env, write_envelopes me [] envs)"
    using Cons.prems(1) d assms(1) [OF d(1)]
    by (simp add: write_envelopes_frames ReadEnvelope_def ReadTyped_frame del: write_envelopes.simps)
  obtain P1 effs1 where P1: "ApplyForSource (ip_ext ip) (fst t2) sid (Some env) (ln_processor l) = Some (P1, effs1)"
    using ApplyForSource_total Cons.prems(5) unfolding processor_fine_def by blast
  have "processor_fine ip (l\<lparr>ln_processor := P1\<rparr>)"
    using handle_step_processor [of ip c "fst t2" None Silent "Applying sid env" l "Polling sid" "l\<lparr>ln_processor := P1\<rparr>"] P1 Cons.prems(5)
    by simp
  with Cons.IH [of ts "l\<lparr>ln_processor := P1\<rparr>"] Cons.prems ts obtain xs P effs where
    IH: "map snd xs = envs" "apply_all (ip_ext ip) (deliver sid xs) P1 = Some (P, effs)"
      "serve cd ip c ts \<lparr>sd_phase = Reading sid, sd_listener = l\<lparr>ln_processor := P1\<rparr>, sd_input = write_envelopes me [] envs, sd_output = w\<rparr>
      = Some \<lparr>sd_phase = Reading sid, sd_listener = l\<lparr>ln_processor := P\<rparr>, sd_input = [], sd_output = w\<rparr>" by auto
  have "apply_all (ip_ext ip) (deliver sid ((fst t2, env) # xs)) (ln_processor l) = Some (P, effs1 @ effs)"
    using P1 IH(2) by (simp add: deliver_def)
  moreover have "serve cd ip c ticks \<lparr>sd_phase = Reading sid, sd_listener = l, sd_input = write_envelopes me [] (env # envs), sd_output = w\<rparr>
      = Some \<lparr>sd_phase = Reading sid, sd_listener = l\<lparr>ln_processor := P\<rparr>, sd_input = [], sd_output = w\<rparr>"
    using rd P1 IH(3) Cons.prems(3,4) by (simp add: ticks serve_step_def usable_def silently_def del: write_envelopes.simps)
  ultimately show ?case using IH(1) by (intro exI [of _ "(fst t2, env) # xs"]) simp
qed

section \<open>The handshake\<close>

text \<open>A connection that the listener has not seen.\<close>

definition fresh_conn :: "nat \<Rightarrow> Listener \<Rightarrow> bool" where
  "fresh_conn c l \<longleftrightarrow> c \<notin> ln_closed l \<and> c \<notin> ln_cancelled l \<and> (\<forall>sid. gget (ln_sessions l) sid \<noteq> Some c)"

text \<open>The processor that answers the handshake: without the source if the registry does not know this boot of the probe.\<close>

definition greeting_processor :: "string \<Rightarrow> bytes \<Rightarrow> Listener \<Rightarrow> Processor" where
  "greeting_processor sid bootID l = (if must_reset sid bootID l then ResetSource sid (ln_processor l) else ln_processor l)"

lemma claim_session_frame [simp]:
  "ln_processor (claim_session c sid l) = ln_processor l" "ln_registry (claim_session c sid l) = ln_registry l"
  "ln_cancelled (claim_session c sid l) = ln_cancelled l \<union> set_option (gget (ln_sessions l) sid)"
  by (cases "gget (ln_sessions l) sid"; simp add: claim_session_def close_conn_def cancel_def)+

lemma persist_info_frame [simp]:
  "ln_processor (persist_info js f i l) = ln_processor l" "ln_sessions (persist_info js f i l) = ln_sessions l"
  "ln_closed (persist_info js f i l) = ln_closed l" "ln_cancelled (persist_info js f i l) = ln_cancelled l"
  by (cases "ln_storage l"; simp add: persist_info_def)+

lemma serve_attaches:
  assumes "cd_hello cd d = Inr hello" and "wire_fits d" and "hello_ProtocolVersion hello = IngestProtocolVersion" and "fresh_conn c l"
    and "cd_answer cd (server_hello (source_id ip hello)
      (LastAppliedSeq (source_id ip hello) (greeting_processor (source_id ip hello) (hello_BootId hello) l))) = Inr a"
    and "length ticks = (if must_reset (source_id ip hello) (hello_BootId hello) l then 9 else 8)"
  shows "\<exists>l'. serve cd ip c ticks \<lparr>sd_phase = Accepted, sd_listener = l, sd_input = frame WireClientHello d @ r, sd_output = []\<rparr>
      = Some \<lparr>sd_phase = Reading (source_id ip hello), sd_listener = l', sd_input = r, sd_output = frame WireServerHello a\<rparr>
    \<and> ln_processor l' = greeting_processor (source_id ip hello) (hello_BootId hello) l
    \<and> gget (ln_sessions l') (source_id ip hello) = Some c \<and> c \<notin> ln_closed l' \<and> c \<notin> ln_cancelled l'"
proof -
  let ?sid = "source_id ip hello" and ?l1 = "claim_session c (source_id ip hello) l"
  have rd: "ReadClientHello (cd_hello cd) (frame WireClientHello d @ r) = Inr (hello, r)"
    unfolding ReadClientHello_def using assms(2,1) by (rule ReadTyped_frame)
  have reset: "must_reset ?sid (hello_BootId hello) ?l1 = must_reset ?sid (hello_BootId hello) l" by (simp add: must_reset_def)
  have c: "c \<notin> ln_closed ?l1" "c \<notin> ln_cancelled ?l1" "usable c l"
    using assms(4) by (auto simp: fresh_conn_def usable_def elem_set)
  note wr = WriteTyped_append [of "cd_answer cd" _ a "[]" WireServerHello]
  show ?thesis
  proof (cases "must_reset ?sid (hello_BootId hello) l")
    case True
    obtain t0 t1 t2 t3 t4 t5 t6 t7 t8 where "ticks = [t0, t1, t2, t3, t4, t5, t6, t7, t8]"
      using assms(6) True by (auto simp: length_Suc_conv eval_nat_numeral)
    with True c assms(3,5) rd reset show ?thesis
      by (simp add: serve_step_def silently_def greeting_processor_def WriteServerHello_def wr usable_def source_info_def Let_def)
  next
    case False
    obtain t0 t1 t2 t3 t4 t5 t6 t7 where "ticks = [t0, t1, t2, t3, t4, t5, t6, t7]"
      using assms(6) False by (auto simp: length_Suc_conv eval_nat_numeral)
    with False c assms(3,5) rd reset show ?thesis
      by (simp add: serve_step_def silently_def greeting_processor_def WriteServerHello_def wr usable_def source_info_def Let_def)
  qed
qed

section \<open>A session\<close>

lemma processor_fine_greeting:
  "processor_fine ip l \<Longrightarrow> proc_ok (ip_ext ip) (greeting_processor sid b l) \<and> clock_ok (pr_clock (greeting_processor sid b l))"
  by (simp add: processor_fine_def greeting_processor_def proc_ok_ResetSource)

text \<open>The handler on the bytes of a hello and some envelopes: the number of its steps and what it applies.\<close>

definition attach_steps :: "string \<Rightarrow> bytes \<Rightarrow> Listener \<Rightarrow> nat" where
  "attach_steps sid bootID l = (if must_reset sid bootID l then 9 else 8)"

lemma serve_session:
  assumes "cd_hello cd d = Inr hello" and "wire_fits d" and "hello_ProtocolVersion hello = IngestProtocolVersion" and "fresh_conn c l"
    and "sid = source_id ip hello" and "bootID = hello_BootId hello" and "P = greeting_processor sid bootID l"
    and "cd_answer cd (server_hello sid (LastAppliedSeq sid P)) = Inr a"
    and "\<And>m d. me m = Inr d \<Longrightarrow> cd_envelope cd d = Inr m" and "list_all (sendable me) envs" and "processor_fine ip l"
    and "length ticks = attach_steps sid bootID l + 3 * length envs"
  shows "\<exists>l' xs effs. serve cd ip c ticks \<lparr>sd_phase = Accepted, sd_listener = l, sd_input = frame WireClientHello d @ write_envelopes me [] envs, sd_output = []\<rparr>
      = Some \<lparr>sd_phase = Reading sid, sd_listener = l', sd_input = [], sd_output = frame WireServerHello a\<rparr>
    \<and> gget (ln_sessions l') sid = Some c \<and> map snd xs = envs \<and> apply_all (ip_ext ip) (deliver sid xs) P = Some (ln_processor l', effs)"
proof -
  let ?m = "attach_steps sid bootID l"
  have n: "length (take ?m ticks) = (if must_reset (source_id ip hello) (hello_BootId hello) l then 9 else 8)"
    "length (drop ?m ticks) = 3 * length envs"
    using assms(5,6,12) by (simp_all add: attach_steps_def)
  obtain l1 where l1: "serve cd ip c (take ?m ticks)
      \<lparr>sd_phase = Accepted, sd_listener = l, sd_input = frame WireClientHello d @ write_envelopes me [] envs, sd_output = []\<rparr>
      = Some \<lparr>sd_phase = Reading sid, sd_listener = l1, sd_input = write_envelopes me [] envs, sd_output = frame WireServerHello a\<rparr>"
    "ln_processor l1 = P" "gget (ln_sessions l1) sid = Some c" "c \<notin> ln_closed l1" "c \<notin> ln_cancelled l1"
    using serve_attaches [where cd = cd and ip = ip, OF assms(1-4) assms(8) [unfolded assms(5-7)] n(1)] unfolding assms(5-7) by blast
  have "processor_fine ip l1" using processor_fine_greeting [OF assms(11)] by (simp add: processor_fine_def l1(2) assms(7))
  from serve_receives [where me = me and cd = cd, OF assms(9,10) n(2) l1(4,5) this] obtain xs P' effs where
    r: "map snd xs = envs" "apply_all (ip_ext ip) (deliver sid xs) P = Some (P', effs)"
      "serve cd ip c (drop ?m ticks) \<lparr>sd_phase = Reading sid, sd_listener = l1, sd_input = write_envelopes me [] envs, sd_output = frame WireServerHello a\<rparr>
      = Some \<lparr>sd_phase = Reading sid, sd_listener = l1\<lparr>ln_processor := P'\<rparr>, sd_input = [], sd_output = frame WireServerHello a\<rparr>"
    unfolding l1(2) by metis
  have "serve cd ip c (take ?m ticks @ drop ?m ticks)
      \<lparr>sd_phase = Accepted, sd_listener = l, sd_input = frame WireClientHello d @ write_envelopes me [] envs, sd_output = []\<rparr>
      = Some \<lparr>sd_phase = Reading sid, sd_listener = l1\<lparr>ln_processor := P'\<rparr>, sd_input = [], sd_output = frame WireServerHello a\<rparr>"
    unfolding serve_append using l1(1) r(3) by simp
  with l1(3) r show ?thesis by (intro exI [of _ "l1\<lparr>ln_processor := P'\<rparr>"]) auto
qed

text \<open>What the probe sends for the answer of the server brings the server up to date.\<close>

lemma greeting_catchup:
  assumes "probed k h p" and "processor_fine ip l" and "must_reset sid bootID l \<or> linked (ip_ext ip) sid k h p (ln_processor l) b"
  defines "P \<equiv> greeting_processor sid bootID l"
  shows "\<exists>envs. catchup_envelopes (LastAppliedSeq sid P) p = Some envs \<and> set envs \<subseteq> set h \<union> set (snapshotEnvelopes (probe_snapshot p))
    \<and> (\<forall>xs. map snd xs = envs \<longrightarrow> (\<exists>P' effs. apply_all (ip_ext ip) (deliver sid xs) P = Some (P', effs)
        \<and> mirrors p (tables (source_of sid P'))))"
proof (cases "must_reset sid bootID l")
  case True
  have ok: "proc_ok (ip_ext ip) P" "clock_ok (pr_clock P)" using processor_fine_greeting [OF assms(2)] by (simp_all add: P_def)
  have "LastAppliedSeq sid P = 0" using True by (simp add: P_def greeting_processor_def LastAppliedSeq_def ResetSource_def split: option.split)
  then have "catchup_envelopes (LastAppliedSeq sid P) p = Some (snapshotEnvelopes (probe_snapshot p))" by (simp add: catchup_envelopes_def)
  with snapshot_applies [OF probed_tracked [OF assms(1)] ok] show ?thesis by blast
next
  case False
  then have "P = ln_processor l" "linked (ip_ext ip) sid k h p (ln_processor l) b" using assms(3) by (simp_all add: P_def greeting_processor_def)
  then show ?thesis using catchup_mirrors [OF linked_lagging] by simp
qed


section \<open>Example\<close>

definition demo_client :: "bytes SinkIngest" where
  "demo_client = NewSinkIngest ''node'' [1, 2] [7] 0"


end
