(* ===== verification/Concurrent_Emitting.thy ===== *)
theory Concurrent_Emitting
  imports Linking "HOL-Library.Multiset"
begin

text \<open>
  \<open>probe/emitter.go\<close> and \<open>probe/intern.go\<close> with several goroutines.  The mutex of the emitter covers numbering and
  the ring, but \<open>Emit\<close> writes to the sinks after releasing it, and \<open>Intern\<close> announces a new string after releasing the
  mutex of the interner.  A goroutine is what it still has to do; the steps of all goroutines interleave freely.
\<close>

section \<open>Goroutines\<close>

text \<open>\<open>Intern\<close> up to the release of its mutex: the number of the string, and whether it has to be announced.\<close>

definition intern_reserve :: "string \<Rightarrow> Emitter \<Rightarrow> (u32 \<times> bool) \<times> Emitter" where
  "intern_reserve s e =
     (let si = em_strings e in
      case gget (si_stringIDs si) s of
        Some ident \<Rightarrow> ((ident, False), e)
      | None \<Rightarrow>
          let ident = of_nat (length (si_strings si))
          in ((ident, True), e\<lparr>em_strings := \<lparr>si_strings = si_strings si @ [s], si_stringIDs = gput s ident (si_stringIDs si)\<rparr>\<rparr>))"

definition string_def :: "u32 \<Rightarrow> string \<Rightarrow> Envelope" where
  "string_def ident s = \<lparr>env_Seq = 0, env_ObservedAtNs = 0, env_Payload = Some (Envelope_StringDef \<lparr>def_Id = ident, def_Value = s\<rparr>)\<rparr>"

text \<open>Without other goroutines in between the two parts are \<open>Intern\<close>.\<close>

lemma Intern_parts:
  "Intern now s e = (case intern_reserve s e of ((ident, new), e) \<Rightarrow>
     if new then do { (e, ws) \<leftarrow> Emit now (string_def ident s) e; Some (ident, e, ws) } else Some (ident, e, []))"
  by (simp add: Intern_def intern_reserve_def string_def_def Let_def split: option.split)

datatype goroutine = Idle | Announcing u32 string | Writing "(sink_id \<times> Envelope) list"

record emit_system =
  es_history :: "Envelope list"
  es_emitter :: Emitter
  es_goroutines :: "goroutine list"
  es_written :: "(sink_id \<times> Envelope) list"

definition go_on :: "nat \<Rightarrow> goroutine \<Rightarrow> emit_system \<Rightarrow> emit_system" where
  "go_on t g s = s\<lparr>es_goroutines := (es_goroutines s)[t := g]\<rparr>"

text \<open>The envelopes that a call of \<open>Emit\<close> adds to the history.\<close>

definition stamped :: "int \<Rightarrow> Envelope \<Rightarrow> Emitter \<Rightarrow> Envelope list" where
  "stamped now env e = (if em_closed e then [] else [env\<lparr>env_Seq := em_nextSeq e, env_ObservedAtNs := now\<rparr>])"

definition start_emit :: "nat \<Rightarrow> int \<Rightarrow> Envelope \<Rightarrow> emit_system \<Rightarrow> emit_system go" where
  "start_emit t now env s = do {
     (e, ws) \<leftarrow> Emit now env (es_emitter s);
     Some (go_on t (Writing ws) (s\<lparr>es_history := es_history s @ stamped now env (es_emitter s), es_emitter := e\<rparr>))
   }"

fun emit_turn :: "nat \<Rightarrow> int \<Rightarrow> emit_system \<Rightarrow> emit_system go" where
  "emit_turn t now s = (if t < length (es_goroutines s) then
     (case es_goroutines s ! t of
        Idle \<Rightarrow> None
      | Announcing ident str \<Rightarrow> start_emit t now (string_def ident str) s
      | Writing [] \<Rightarrow> Some (go_on t Idle s)
      | Writing (w # ws) \<Rightarrow> Some (go_on t (Writing ws) (s\<lparr>es_written := es_written s @ [w]\<rparr>)))
     else None)"

definition numbers_left :: "emit_system \<Rightarrow> bool" where
  "numbers_left s \<longleftrightarrow> int (length (es_history s)) + 2 < 2 ^ 64"

text \<open>An idle goroutine calls \<open>Emit\<close> or \<open>Intern\<close>, a busy one goes on, or the emitter is closed.\<close>

inductive emit_step :: "emit_system \<Rightarrow> emit_system \<Rightarrow> bool" where
  call_Emit: "t < length (es_goroutines s) \<Longrightarrow> es_goroutines s ! t = Idle \<Longrightarrow> numbers_left s \<Longrightarrow>
    start_emit t now env s = Some s' \<Longrightarrow> emit_step s s'"
| call_Intern: "t < length (es_goroutines s) \<Longrightarrow> es_goroutines s ! t = Idle \<Longrightarrow> intern_reserve str (es_emitter s) = ((ident, new), e) \<Longrightarrow>
    emit_step s (go_on t (if new then Announcing ident str else Idle) (s\<lparr>es_emitter := e\<rparr>))"
| turn: "numbers_left s \<Longrightarrow> emit_turn t now s = Some s' \<Longrightarrow> emit_step s s'"
| close: "emit_step s (s\<lparr>es_emitter := SetClosed True (es_emitter s)\<rparr>)"

definition emitting_start :: "int \<Rightarrow> sink_id list \<Rightarrow> nat \<Rightarrow> emit_system" where
  "emitting_start sz sinks n =
     \<lparr>es_history = [], es_emitter = fold AddSink sinks (NewEmitter sz), es_goroutines = replicate n Idle, es_written = []\<rparr>"

inductive emitting :: "int \<Rightarrow> sink_id list \<Rightarrow> nat \<Rightarrow> emit_system \<Rightarrow> bool" for sz sinks n where
  start: "emitting sz sinks n (emitting_start sz sinks n)"
| step: "emitting sz sinks n s \<Longrightarrow> emit_step s s' \<Longrightarrow> emitting sz sinks n s'"

section \<open>Every envelope reaches every sink\<close>

definition received :: "sink_id \<Rightarrow> (sink_id \<times> Envelope) list \<Rightarrow> Envelope list" where
  "received k ws = map snd (filter (\<lambda>w. fst w = k) ws)"

lemma received_simps [simp]:
  "received k [] = []" "received k ((k', env) # ws) = (if k' = k then env # received k ws else received k ws)"
  "received k (ws @ ws') = received k ws @ received k ws'"
  by (simp_all add: received_def)

lemma received_fan_out:
  assumes "distinct sinks" and "k \<in> set sinks"
  shows "received k (map (\<lambda>s. (s, env)) sinks) = [env]"
  using assms by (induction sinks) (auto simp: received_def filter_empty_conv)

fun pending :: "sink_id \<Rightarrow> goroutine \<Rightarrow> Envelope list" where
  "pending k (Writing ws) = received k ws"
| "pending k _ = []"

definition all_pending :: "sink_id \<Rightarrow> goroutine list \<Rightarrow> Envelope multiset" where
  "all_pending k gs = (\<Sum>g \<leftarrow> gs. mset (pending k g))"

lemma all_pending_update:
  assumes "t < length gs"
  shows "all_pending k (gs[t := g]) + mset (pending k (gs ! t)) = all_pending k gs + mset (pending k g)"
proof -
  have "all_pending k gs = all_pending k (take t gs @ gs ! t # drop (Suc t) gs)"
    by (rule arg_cong [OF id_take_nth_drop [OF assms]])
  moreover have "gs[t := g] = take t gs @ g # drop (Suc t) gs" using assms by (rule upd_conv_take_nth_drop)
  ultimately show ?thesis by (simp add: all_pending_def ac_simps)
qed

text \<open>
  The invariant: numbers and ring are those of emissions one after the other, and what a sink was handed and what goroutines
  still have to hand to it is the history.
\<close>

definition emitting_ok :: "sink_id list \<Rightarrow> emit_system \<Rightarrow> bool" where
  "emitting_ok sinks s \<longleftrightarrow> history_ok (es_history s) (es_emitter s) \<and> em_sinks (es_emitter s) = sinks
     \<and> (\<forall>k \<in> set sinks. mset (received k (es_written s)) + all_pending k (es_goroutines s) = mset (es_history s))"

lemma history_ok_closed [simp]: "history_ok h (SetClosed b e) = history_ok h e"
  by (simp add: SetClosed_def history_ok_def entries_ok_def entries_def ring_def ring_ok_def)

lemma start_emit_ok:
  assumes "emitting_ok sinks s" and "distinct sinks" and "numbers_left s"
    and "t < length (es_goroutines s)" and "\<forall>k. pending k (es_goroutines s ! t) = []" and "start_emit t now env s = Some s'"
  shows "emitting_ok sinks s'"
proof (cases "em_closed (es_emitter s)")
  case True
  with assms(6) have s': "s' = go_on t (Writing []) s" by (cases s) (auto simp: start_emit_def Emit_def stamped_def go_on_def)
  have "all_pending k ((es_goroutines s)[t := Writing []]) = all_pending k (es_goroutines s)" for k
    using all_pending_update [OF assms(4), of k "Writing []"] assms(5) by simp
  with assms(1) show ?thesis by (simp add: s' go_on_def emitting_ok_def)
next
  case False
  let ?env = "env\<lparr>env_Seq := em_nextSeq (es_emitter s), env_ObservedAtNs := now\<rparr>"
  have h: "history_ok (es_history s) (es_emitter s)" and k: "em_sinks (es_emitter s) = sinks" using assms(1) by (simp_all add: emitting_ok_def)
  obtain e' where e': "Emit now env (es_emitter s) = Some (e', map (\<lambda>k. (k, ?env)) sinks)" "history_ok (es_history s @ [?env]) e'" "em_sinks e' = sinks"
    using Emit_history [OF h False assms(3) [unfolded numbers_left_def], of now env] k by auto
  have s': "s' = go_on t (Writing (map (\<lambda>k. (k, ?env)) sinks)) (s\<lparr>es_history := es_history s @ [?env], es_emitter := e'\<rparr>)"
    using assms(6) e'(1) False by (simp add: start_emit_def stamped_def)
  have "all_pending k ((es_goroutines s)[t := Writing (map (\<lambda>k. (k, ?env)) sinks)]) = all_pending k (es_goroutines s) + {#?env#}" if "k \<in> set sinks" for k
    using all_pending_update [OF assms(4), of k "Writing (map (\<lambda>k. (k, ?env)) sinks)"] assms(5) received_fan_out [OF assms(2) that, of ?env] by simp
  with assms(1) e' show ?thesis by (auto simp: s' go_on_def emitting_ok_def)
qed

lemma emit_step_ok:
  assumes "emit_step s s'" and "emitting_ok sinks s" and "distinct sinks"
  shows "emitting_ok sinks s'"
  using assms(1)
proof cases
  case (call_Emit t now env)
  with start_emit_ok [OF assms(2,3)] show ?thesis by simp
next
  case (call_Intern t str ident new e)
  have "\<exists>si. e = (es_emitter s)\<lparr>em_strings := si\<rparr>"
    using call_Intern(4) by (auto simp: intern_reserve_def Let_def split: option.splits) (metis Emitter.surjective Emitter.update_convs(7))
  then obtain si where e: "e = (es_emitter s)\<lparr>em_strings := si\<rparr>" ..
  have "all_pending k ((es_goroutines s)[t := if new then Announcing ident str else Idle]) = all_pending k (es_goroutines s)" for k
    using all_pending_update [OF call_Intern(2), of k "if new then Announcing ident str else Idle"] call_Intern(3) by (simp split: if_splits)
  with assms(2) show ?thesis by (simp add: call_Intern(1) go_on_def emitting_ok_def e)
next
  case (turn t now)
  then have t: "t < length (es_goroutines s)" by (auto split: if_splits)
  show ?thesis
  proof (cases "es_goroutines s ! t")
    case Idle
    with turn t show ?thesis by simp
  next
    case (Announcing ident str)
    with turn t start_emit_ok [OF assms(2,3) turn(1) t] show ?thesis by simp
  next
    case (Writing ws)
    show ?thesis
    proof (cases ws)
      case Nil
      with Writing turn(2) t have s': "s' = go_on t Idle s" by simp
      have "all_pending k ((es_goroutines s)[t := Idle]) = all_pending k (es_goroutines s)" for k
        using all_pending_update [OF t, of k Idle] Writing Nil by simp
      with assms(2) show ?thesis by (simp add: s' go_on_def emitting_ok_def)
    next
      case (Cons w rest)
      with Writing turn(2) t have s': "s' = go_on t (Writing rest) (s\<lparr>es_written := es_written s @ [w]\<rparr>)" by simp
      have "mset (received k [w]) + all_pending k ((es_goroutines s)[t := Writing rest]) = all_pending k (es_goroutines s)" for k
        using all_pending_update [OF t, of k "Writing rest"] Writing Cons by (cases w) (auto simp: ac_simps)
      with assms(2) show ?thesis by (auto simp: s' go_on_def emitting_ok_def add.assoc)
    qed
  qed
next
  case close
  with assms(2) show ?thesis by (simp add: emitting_ok_def) (simp add: SetClosed_def)
qed

lemma all_pending_idle: "set gs \<subseteq> {Idle} \<Longrightarrow> all_pending k gs = {#}"
  by (induction gs) (auto simp: all_pending_def)

lemma emitting_start_ok: "emitting_ok sinks (emitting_start sz sinks n)"
proof -
  have "history_ok [] ((NewEmitter sz)\<lparr>em_sinks := sinks\<rparr>)"
    using history_ok_New [of sz] by simp
  moreover have "em_sinks (NewEmitter sz) = []" by (simp add: NewEmitter_def Let_def)
  ultimately show ?thesis
    by (simp add: emitting_ok_def emitting_start_def fold_AddSink all_pending_idle set_replicate_conv_if)
qed

lemma emitting_emitting_ok: "emitting sz sinks n s \<Longrightarrow> distinct sinks \<Longrightarrow> emitting_ok sinks s"
  by (induction rule: emitting.induct) (auto intro: emitting_start_ok emit_step_ok)

text \<open>A busy goroutine is never stuck.\<close>

lemma emit_turn_total:
  assumes "emitting_ok sinks s" and "t < length (es_goroutines s)" and "es_goroutines s ! t \<noteq> Idle" and "numbers_left s"
  shows "\<exists>s'. emit_turn t now s = Some s'"
proof -
  have "history_ok (es_history s) (es_emitter s)" using assms(1) by (simp add: emitting_ok_def)
  from Emit_fans_out [OF this assms(4) [unfolded numbers_left_def]] have em: "\<exists>e' ws. Emit now env (es_emitter s) = Some (e', ws)" for env by blast
  have "\<exists>s'. start_emit t now env s = Some s'" for env using em [of env] by (auto simp: start_emit_def)
  with assms(2,3) show ?thesis by (auto split: goroutine.split list.split)
qed

text \<open>
  C8: concurrent emissions lose nothing on the way to the sinks: in whatever order goroutines number, intern and write, the
  history is numbered 1, 2, 3, ... and the ring answers from it as if emissions came one after the other; a sink has been handed no
  envelope twice and none that was not emitted, no busy goroutine is stuck, and once all calls have returned every sink has been handed
  exactly the history.  It has been handed the history in order if and only if the numbers arrived in increasing order.
\<close>

theorem concurrent_emits_complete:
  assumes "emitting sz sinks n s" and "distinct sinks" and "k \<in> set sinks" and "1 \<le> q"
  shows "(\<forall>i < length (es_history s). uint (env_Seq (es_history s ! i)) = int i + 1)
    \<and> (\<exists>out ok. EventsFromSeq q (es_emitter s) = Some (out, ok) \<and> (ok \<longrightarrow> out = drop (nat (uint q - 1)) (es_history s)))
    \<and> mset (received k (es_written s)) \<subseteq># mset (es_history s)
    \<and> (\<forall>t now. t < length (es_goroutines s) \<and> es_goroutines s ! t \<noteq> Idle \<and> numbers_left s
         \<longrightarrow> (\<exists>s'. emit_turn t now s = Some s'))
    \<and> (set (es_goroutines s) \<subseteq> {Idle} \<longrightarrow> mset (received k (es_written s)) = mset (es_history s)
         \<and> (received k (es_written s) = es_history s \<longleftrightarrow> sorted_wrt (\<lambda>a b. env_Seq a < env_Seq b) (received k (es_written s))))"
proof -
  let ?h = "es_history s" and ?r = "received k (es_written s)"
  have ok: "emitting_ok sinks s" by (rule emitting_emitting_ok [OF assms(1,2)])
  then have h: "history_ok ?h (es_emitter s)" and m: "mset ?r + all_pending k (es_goroutines s) = mset ?h"
    using assms(3) by (simp_all add: emitting_ok_def)
  have seq: "\<forall>i < length ?h. uint (env_Seq (?h ! i)) = int i + 1" using history_seq [OF h] by blast
  then have sorted: "sorted_wrt (\<lambda>a b. env_Seq a < env_Seq b) ?h" by (simp add: sorted_wrt_iff_nth_less word_less_def)
  have "?r = ?h \<longleftrightarrow> sorted_wrt (\<lambda>a b. env_Seq a < env_Seq b) ?r" if "mset ?r = mset ?h"
    using strict_sorted_unique [of "\<lambda>env. - uint (env_Seq env)" ?r ?h] sorted mset_eq_setD [OF that] by (auto simp: word_less_def)
  moreover have "mset ?r = mset ?h" if "set (es_goroutines s) \<subseteq> {Idle}" using m all_pending_idle [OF that] by simp
  moreover have "mset ?r \<subseteq># mset ?h" unfolding m [symmetric] by simp
  moreover have "\<exists>out ok. EventsFromSeq q (es_emitter s) = Some (out, ok) \<and> (ok \<longrightarrow> out = drop (nat (uint q - 1)) ?h)"
    using EventsFromSeq_history [OF h assms(4)] by (auto split: if_splits)
  ultimately show ?thesis using seq emit_turn_total [OF ok] by blast
qed

section \<open>Schedules\<close>

datatype action = CallEmit nat int Envelope | CallIntern nat string | Turn nat int

fun act :: "action \<Rightarrow> emit_system \<Rightarrow> emit_system go" where
  "act (CallEmit t now env) s =
     (if t < length (es_goroutines s) \<and> es_goroutines s ! t = Idle then start_emit t now env s else None)"
| "act (CallIntern t str) s =
     (if t < length (es_goroutines s) \<and> es_goroutines s ! t = Idle then
        (case intern_reserve str (es_emitter s) of ((ident, new), e) \<Rightarrow>
           Some (go_on t (if new then Announcing ident str else Idle) (s\<lparr>es_emitter := e\<rparr>)))
      else None)"
| "act (Turn t now) s = emit_turn t now s"

fun act_all :: "action list \<Rightarrow> emit_system \<Rightarrow> emit_system go" where
  "act_all [] s = Some s"
| "act_all (a # as) s = (if numbers_left s then (case act a s of None \<Rightarrow> None | Some s' \<Rightarrow> act_all as s') else None)"

lemma act_step: "act a s = Some s' \<Longrightarrow> numbers_left s \<Longrightarrow> emit_step s s'"
proof (cases a)
  case (CallIntern t str)
  obtain ident new e where r: "intern_reserve str (es_emitter s) = ((ident, new), e)" by (metis surj_pair)
  assume "act a s = Some s'"
  with CallIntern r call_Intern [OF _ _ r, of t] show ?thesis by (auto split: if_splits)
qed (auto intro: call_Emit emit_step.turn split: if_splits simp del: emit_turn.simps)

lemma emitting_act_all: "act_all as s = Some s' \<Longrightarrow> emitting sz sinks n s \<Longrightarrow> emitting sz sinks n s'"
  by (induction as s rule: act_all.induct) (auto intro: emitting.step act_step split: option.splits if_splits)

text \<open>Two strings are interned at the same time; the second one reaches the sink first.\<close>

definition demo_race :: "action list" where
  "demo_race = [CallIntern 0 ''a'', Turn 0 1, CallIntern 1 ''b'', Turn 1 2, Turn 1 0, Turn 1 0, Turn 0 0, Turn 0 0]"

text \<open>What a fresh server makes of the envelopes that the sink \<open>3\<close> was handed.\<close>

definition demo_server :: "emit_system \<Rightarrow> Processor" where
  "demo_server s = fst (the (apply_all demo_ext (deliver ''s1'' (map (Pair 0) (received 3 (es_written s)))) (NewProcessor mainnet_clock)))"

definition demo_raced :: emit_system where
  "demo_raced = the (act_all demo_race (emitting_start 4 [3] 2))"

lemma demo_raced_reached: "emitting 4 [3] 2 demo_raced"
proof -
  have "act_all demo_race (emitting_start 4 [3] 2) \<noteq> None" by code_simp
  then have "act_all demo_race (emitting_start 4 [3] 2) = Some demo_raced" by (auto simp: demo_raced_def)
  then show ?thesis by (rule emitting_act_all [OF _ emitting.start])
qed


theorem concurrent_emits_complete_witness:
  "mset (received 3 (es_written demo_raced)) = mset (es_history demo_raced) \<and> received 3 (es_written demo_raced) \<noteq> es_history demo_raced
    \<and> uint (env_Seq (es_history demo_raced ! 0)) = 1 \<and> uint (env_Seq (es_history demo_raced ! 1)) = 2"
proof -
  have "set (es_goroutines demo_raced) \<subseteq> {Idle}" by code_simp
  moreover have "\<not> sorted_wrt (\<lambda>a b. env_Seq a < env_Seq b) (received 3 (es_written demo_raced))" by code_simp
  moreover have "length (es_history demo_raced) = 2" by code_simp
  ultimately show ?thesis using concurrent_emits_complete [OF demo_raced_reached, of 3 1] by simp
qed

text \<open>
  A string may be used before it is announced: the second goroutine finds the number that the first one has reserved and reports a stream
  with it; the server resolves the protocol of a stream when the stream is reported, so it keeps the empty protocol after the string is known.
\<close>

definition demo_early_use :: "action list" where
  "demo_early_use = [CallIntern 0 ''/meshsub/1.1.0'', CallIntern 1 ''/meshsub/1.1.0'',
     CallEmit 1 0 \<lparr>env_Seq = 0, env_ObservedAtNs = 0, env_Payload = Some (Envelope_StreamUpsert
       \<lparr>su_StreamAlias = 0, su_ConnAlias = 0, su_Direction = DIRECTION_IN, su_ProtocolId = 0, su_OpenedAtNs = 0\<rparr>)\<rparr>,
     Turn 1 0, Turn 1 0, Turn 0 0, Turn 0 0, Turn 0 0]"

lemma string_used_before_announced:
  "\<exists>s. emitting 4 [3] 2 s \<and> set (es_goroutines s) \<subseteq> {Idle} \<and> received 3 (es_written s) = es_history s
    \<and> string_table (si_strings (em_strings (es_emitter s))) 0 = Some ''/meshsub/1.1.0''
    \<and> gget (src_strings (source_of ''s1'' (demo_server s))) 0 = Some ''/meshsub/1.1.0''
    \<and> map_option st_protocol (gget (src_streams (source_of ''s1'' (demo_server s))) 0) = Some []"
proof -
  let ?s = "the (act_all demo_early_use (emitting_start 4 [3] 2))"
  have "act_all demo_early_use (emitting_start 4 [3] 2) \<noteq> None" by code_simp
  then have "act_all demo_early_use (emitting_start 4 [3] 2) = Some ?s" by auto
  then have "emitting 4 [3] 2 ?s" by (rule emitting_act_all [OF _ emitting.start])
  moreover have "set (es_goroutines ?s) \<subseteq> {Idle} \<and> received 3 (es_written ?s) = es_history ?s" by code_simp
  moreover have "string_table (si_strings (em_strings (es_emitter ?s))) 0 = Some ''/meshsub/1.1.0''" by code_simp
  moreover have "gget (src_strings (source_of ''s1'' (demo_server ?s))) 0 = Some ''/meshsub/1.1.0''" by code_simp
  moreover have "map_option st_protocol (gget (src_streams (source_of ''s1'' (demo_server ?s))) 0) = Some []" by code_simp
  ultimately show ?thesis by blast
qed

end
