(* ===== verification/Http_Server.thy ===== *)
theory Http_Server
  imports Processing Slot_Storage
begin

text \<open>
  \<open>internal/server/server.go\<close>: the HTTP interface and the WebSocket updates.

  A request is its query (\<open>Get\<close> returns the empty string for a missing parameter) and its path; a response is
  its status with the value that \<open>writeJSON\<close> encodes.  The processor, the registry and the storage are
  arguments, since the handlers only read them.  The state of the server is what its mutex protects: the clients
  and the updates that wait for the next flush.  Routing is in \<open>Http_Routes\<close>; compression,
  static files and logging are left out.
\<close>

section \<open>State\<close>

type_synonym wsClient = string

type_synonym pendingKey = "string \<times> u64"

record Server =
  sv_clients :: "(nat, wsClient) gomap"
  sv_pendingUpdates :: "(pendingKey, SlotSummary) gomap"
  sv_pendingCurrent :: "(string, u64) gomap"
  sv_flushScheduled :: bool

definition NewServer :: Server where
  "NewServer = \<lparr>sv_clients = [], sv_pendingUpdates = [], sv_pendingCurrent = [], sv_flushScheduled = False\<rparr>"

type_synonym query = "string \<Rightarrow> string"

datatype http_response =
    BadRequest registry_error
  | InternalServerError string
  | HttpNotFound
  | SlotsJSON "SlotSummary list"
  | DetailJSON SlotDetail
  | RawJSON string
  | SourcesJSON "SourceInfo list"
  | PeersJSON "PeerSummary list"

section \<open>Requests\<close>

definition resolveSourceID :: "query \<Rightarrow> Registry option \<Rightarrow> registry_error + string" where
  "resolveSourceID q registry =
     (if q ''source'' \<noteq> [] then Inr (q ''source'')
      else case registry of Some r \<Rightarrow> DefaultSourceID r | None \<Rightarrow> Inl NoSources)"

definition slots_limit :: "query \<Rightarrow> int" where
  "slots_limit q =
     (if q ''limit'' \<noteq> [] then (case Atoi (q ''limit'') of (parsed, None) \<Rightarrow> if parsed > 0 then parsed else 256 | _ \<Rightarrow> 256)
      else 256)"

text \<open>The live slots, then the persisted slots that are not among them, newest first, cut at the limit.\<close>

definition merge_slots :: "int \<Rightarrow> SlotSummary list \<Rightarrow> SlotSummary list \<Rightarrow> SlotSummary list" where
  "merge_slots limit liveRows persisted =
     (let seen = map ss_Slot liveRows;
          merged = liveRows @ filter (\<lambda>s. ss_Slot s \<notin> set seen) persisted;
          merged = sort_slice (by_key_desc ss_Slot) merged
      in if int (length merged) > limit then take (nat limit) merged else merged)"

definition handleSlots ::
  "json_ops \<Rightarrow> (string \<Rightarrow> string) \<Rightarrow> time \<Rightarrow> string option \<Rightarrow> query \<Rightarrow> Registry option \<Rightarrow> Storage option \<Rightarrow> Processor
     \<Rightarrow> http_response go" where
  "handleSlots js uni now fault q registry store p =
     (let limit = slots_limit q in
      case resolveSourceID q registry of
        Inl err \<Rightarrow> Some (BadRequest err)
      | Inr sourceID \<Rightarrow> do {
          liveRows \<leftarrow> ListSlots uni now sourceID (q ''search'') limit p;
          case store of
            None \<Rightarrow> Some (SlotsJSON liveRows)
          | Some db \<Rightarrow>
              (case ListSummaries js fault sourceID limit db of
                 Inl err \<Rightarrow> Some (InternalServerError ''list persisted slots'')
               | Inr persisted \<Rightarrow> Some (SlotsJSON (merge_slots limit liveRows persisted)))
        })"

definition slots_prefix :: string where "slots_prefix = ''/api/slots/''"

definition handleSlotDetail ::
  "json_ops \<Rightarrow> time \<Rightarrow> string option \<Rightarrow> string \<Rightarrow> query \<Rightarrow> Registry option \<Rightarrow> Storage option \<Rightarrow> Processor
     \<Rightarrow> http_response go" where
  "handleSlotDetail js now fault path q registry store p =
     (case ParseUint (TrimPrefix path slots_prefix) of
        (_, Some _) \<Rightarrow> Some HttpNotFound
      | (slot, None) \<Rightarrow>
          (case resolveSourceID q registry of
             Inl err \<Rightarrow> Some (BadRequest err)
           | Inr sourceID \<Rightarrow> do {
               detail \<leftarrow> SlotDetail_of now sourceID slot p;
               case detail of
                 Some d \<Rightarrow> Some (DetailJSON d)
               | None \<Rightarrow>
                   (case store of
                      None \<Rightarrow> Some HttpNotFound
                    | Some db \<Rightarrow>
                        (case ReadSlot js fault sourceID slot db of
                           Inr raw \<Rightarrow> Some (RawJSON raw)
                         | Inl ErrSlotNotFound \<Rightarrow> Some HttpNotFound
                         | Inl _ \<Rightarrow> Some (InternalServerError ''read persisted slot'')))
             }))"

definition handleSources :: "Registry \<Rightarrow> http_response" where
  "handleSources r = SourcesJSON (List_sources r)"

definition handlePeers :: "(bytes \<Rightarrow> string) \<Rightarrow> query \<Rightarrow> Registry option \<Rightarrow> Processor \<Rightarrow> http_response" where
  "handlePeers idString q registry p =
     (case resolveSourceID q registry of
        Inl err \<Rightarrow> BadRequest err
      | Inr sourceID \<Rightarrow> PeersJSON (ListPeersFor idString sourceID p))"

definition search_limit :: "query \<Rightarrow> int" where
  "search_limit q =
     (if q ''limit'' \<noteq> [] then
        (case Atoi (q ''limit'') of (parsed, None) \<Rightarrow> if parsed > 0 \<and> parsed \<le> 1000 then parsed else 100 | _ \<Rightarrow> 100)
      else 100)"

definition query_slot :: "query \<Rightarrow> string \<Rightarrow> u64" where
  "query_slot q name = (if q name \<noteq> [] then fst (ParseUint (q name)) else 0)"

definition handleSearch :: "json_ops \<Rightarrow> string option \<Rightarrow> query \<Rightarrow> Registry option \<Rightarrow> Storage option \<Rightarrow> http_response" where
  "handleSearch js fault q registry store =
     (case resolveSourceID q registry of
        Inl err \<Rightarrow> BadRequest err
      | Inr sourceID \<Rightarrow>
          let fromSlot = query_slot q ''from_slot''; toSlot = query_slot q ''to_slot''; limit = search_limit q in
          case store of
            None \<Rightarrow> SlotsJSON []
          | Some db \<Rightarrow>
              (case SearchSlots js fault sourceID fromSlot toSlot limit db of
                 Inl err \<Rightarrow> InternalServerError ''search persisted slots''
               | Inr slots \<Rightarrow> SlotsJSON slots))"

text \<open>A search that names the first slot only looks for slots up to slot 0 and finds nothing.\<close>

lemma search_without_end_empty:
  assumes "q ''to_slot'' = []" and "0 < query_slot q ''from_slot''" and "handleSearch js None q registry (Some db) = SlotsJSON slots"
  shows "slots = []"
proof -
  have lo: "0 < uint (query_slot q ''from_slot'')" using assms(2) by (simp add: word_less_def)
  have hi: "query_slot q ''to_slot'' = 0" using assms(1) by (simp add: query_slot_def)
  have sorted: "sort_slice (by_key_desc row_slot) [] = ([] :: slot_row list)" by (simp add: sort_slice_def)
  show ?thesis
    using assms(3) lo hi
    by (auto simp: sorted handleSearch_def SearchSlots_def int64Slot_def select_desc_def Let_def split: sum.splits if_splits)
qed

section \<open>Updates\<close>

type_synonym ws_writes = "(nat \<times> WsMessage) list"

datatype ws_outcome = WsRejected registry_error | UpgradeFailed | WsRegistered

text \<open>\<open>handleWS\<close>: the upgrade gives a connection or fails; a failing write of the snapshot is ignored.\<close>

definition handleWS ::
  "time \<Rightarrow> query \<Rightarrow> Registry option \<Rightarrow> nat option \<Rightarrow> Processor \<Rightarrow> Server \<Rightarrow> (ws_outcome \<times> Server \<times> ws_writes) go" where
  "handleWS now q registry upgrade p s =
     (case resolveSourceID q registry of
        Inl err \<Rightarrow> Some (WsRejected err, s, [])
      | Inr sourceID \<Rightarrow>
          (case upgrade of
             None \<Rightarrow> Some (UpgradeFailed, s, [])
           | Some conn \<Rightarrow> do {
               current \<leftarrow> CurrentSlot now p;
               Some (WsRegistered, s\<lparr>sv_clients := gput conn sourceID (sv_clients s)\<rparr>,
                 [(conn, \<lparr>ws_Type = ''snapshot'', ws_SourceID = [], ws_Slot = None, ws_Slots = [], ws_Current = current,
                          ws_PeerCount = None\<rparr>)])
             }))"

text \<open>The read loop of a client ends: its deferred function.\<close>

definition drop_client :: "nat \<Rightarrow> Server \<Rightarrow> Server" where
  "drop_client conn s = s\<lparr>sv_clients := gdel conn (sv_clients s)\<rparr>"

text \<open>\<open>broadcastUpdate\<close>; the second result tells whether a flush was scheduled.\<close>

definition broadcastUpdate :: "string \<Rightarrow> SlotSummary \<Rightarrow> u64 \<Rightarrow> Server \<Rightarrow> Server \<times> bool" where
  "broadcastUpdate sourceID summary current s =
     (let s = s\<lparr>sv_pendingUpdates := gput (sourceID, ss_Slot summary) summary (sv_pendingUpdates s)\<rparr>;
          s = (if current > getd 0 (sv_pendingCurrent s) sourceID
               then s\<lparr>sv_pendingCurrent := gput sourceID current (sv_pendingCurrent s)\<rparr> else s)
      in if \<not> sv_flushScheduled s then (s\<lparr>sv_flushScheduled := True\<rparr>, True) else (s, False))"

record sourceUpdates =
  up_slots :: "SlotSummary list"
  up_current :: u64

definition by_source :: "Server \<Rightarrow> (string, sourceUpdates) gomap" where
  "by_source s =
     map (\<lambda>(sid, su). (sid, su\<lparr>up_current := getd 0 (sv_pendingCurrent s) sid\<rparr>))
       (foldl (\<lambda>m ((sid, slot), summary).
           let su = (case gget m sid of None \<Rightarrow> \<lparr>up_slots = [], up_current = 0\<rparr> | Some su \<Rightarrow> su)
           in gput sid (su\<lparr>up_slots := up_slots su @ [summary]\<rparr>) m)
         [] (sv_pendingUpdates s))"

definition clients_of :: "string \<Rightarrow> Server \<Rightarrow> nat list" where
  "clients_of sid s = map fst (filter (\<lambda>(conn, sourceID). sourceID = sid) (sv_clients s))"

definition batch_message :: "string \<Rightarrow> sourceUpdates \<Rightarrow> int \<Rightarrow> WsMessage" where
  "batch_message sid su pc =
     \<lparr>ws_Type = ''slot_batch'', ws_SourceID = sid, ws_Slot = None, ws_Slots = sort_slice (by_key_desc ss_Slot) (up_slots su),
      ws_Current = up_current su, ws_PeerCount = (if pc > 0 then Some pc else None)\<rparr>"

text \<open>\<open>writeToClients\<close>: a client whose write fails is dropped.\<close>

fun writeToClients :: "(nat \<Rightarrow> bool) \<Rightarrow> nat list \<Rightarrow> WsMessage \<Rightarrow> Server \<Rightarrow> Server \<times> ws_writes" where
  "writeToClients fails [] msg s = (s, [])"
| "writeToClients fails (conn # rest) msg s =
     (let s = (if fails conn then drop_client conn s else s) in
      case writeToClients fails rest msg s of (s, ws) \<Rightarrow> (s, (conn, msg) # ws))"

text \<open>The targets are collected under the mutex, before anything is written.\<close>

fun send_batches :: "(nat \<Rightarrow> bool) \<Rightarrow> (string \<Rightarrow> int) \<Rightarrow> (string \<Rightarrow> nat list) \<Rightarrow> (string, sourceUpdates) gomap \<Rightarrow> Server \<Rightarrow> Server \<times> ws_writes" where
  "send_batches fails peerCount clients [] s = (s, [])"
| "send_batches fails peerCount clients ((sid, su) # rest) s =
     (if length (up_slots su) = 0 then send_batches fails peerCount clients rest s
      else
        let targets = clients sid @ (if sid \<noteq> [] then clients [] else []) in
        case writeToClients fails targets (batch_message sid su (peerCount sid)) s of
          (s, ws1) \<Rightarrow> (case send_batches fails peerCount clients rest s of (s, ws2) \<Rightarrow> (s, ws1 @ ws2)))"

definition flushPendingUpdates :: "(nat \<Rightarrow> bool) \<Rightarrow> Processor \<Rightarrow> Server \<Rightarrow> Server \<times> ws_writes" where
  "flushPendingUpdates fails p s =
     (let batches = by_source s;
          clients = (\<lambda>sid. clients_of sid s);
          s = s\<lparr>sv_pendingUpdates := [], sv_pendingCurrent := [], sv_flushScheduled := False\<rparr>
      in send_batches fails (\<lambda>sid. PeerCount sid p) clients batches s)"

section \<open>Merging two listings\<close>

text \<open>
  The slot list is built from two components with the same contract: the processor lists the newest slots in memory, the
  storage the newest slots on disk.  Merging two such lists gives the newest entries of both
  together, where an entry of the first hides an entry of the second with the same key.
\<close>

locale merged_listing =
  mem: newest_listing key invar1 holds1 listing1 + disk: newest_listing key invar2 holds2 listing2
  for key :: "'a \<Rightarrow> 'k::linorder"
    and invar1 :: "'s \<Rightarrow> bool" and holds1 :: "'s \<Rightarrow> 'a set" and listing1 :: "int \<Rightarrow> 's \<Rightarrow> 'a list option"
    and invar2 :: "'t \<Rightarrow> bool" and holds2 :: "'t \<Rightarrow> 'a set" and listing2 :: "int \<Rightarrow> 't \<Rightarrow> 'a list option"
begin

definition both :: "'s \<Rightarrow> 't \<Rightarrow> 'a set" where
  "both s t = holds1 s \<union> {y \<in> holds2 t. key y \<notin> key ` holds1 s}"

definition merged :: "'a list \<Rightarrow> 'a list \<Rightarrow> 'a list" where
  "merged xs ys = xs @ filter (\<lambda>y. key y \<notin> key ` set xs) ys"

lemma merge_newest:
  assumes inv: "invar1 s" "invar2 t" "0 < n" and l: "listing1 n s = Some xs" "listing2 n t = Some ys"
    and rows: "newest key n (set (merged xs ys)) rows"
  shows "newest key n (both s t) rows"
proof -
  have xs: "newest key n (holds1 s) xs" and ys: "newest key n (holds2 t) ys"
    using mem.listing_newest [OF inv(1,3)] disk.listing_newest [OF inv(2,3)] l by auto
  have dist: "distinct (map key xs)" "distinct (map key ys)"
    using mem.listing_distinct [OF inv(1,3) l(1)] disk.listing_distinct [OF inv(2,3) l(2)] by simp_all
  have kx: "key ` set xs \<subseteq> key ` set (merged xs ys)" and ky: "key ` set ys \<subseteq> key ` set (merged xs ys)"
    by (auto simp: merged_def)
  have full: "int (length rows) = n \<and> (\<forall>x \<in> set rows. b < key x)"
    if "int (length zs) = n" "\<forall>z \<in> set zs. b < key z" "distinct (map key zs)" "key ` set zs \<subseteq> key ` set (merged xs ys)" for zs b
  proof -
    have "card (key ` set zs) = length zs" using distinct_card [OF that(3)] by simp
    then have "int (card (key ` set zs)) = n" using that(1) by simp
    from newest_crowded [OF rows inv(3) that(4) this, of b] that(2) show ?thesis by blast
  qed
  have cut1: "int (length rows) = n \<and> (\<forall>x \<in> set rows. key a < key x)" if "a \<in> holds1 s" "a \<notin> set xs" for a
    using xs that by (intro full [OF _ _ dist(1) kx]) (auto simp: newest_def)
  have cut2: "int (length rows) = n \<and> (\<forall>x \<in> set rows. key a < key x)" if "a \<in> holds2 t" "a \<notin> set ys" for a
    using ys that by (intro full [OF _ _ dist(2) ky]) (auto simp: newest_def)
  have sub: "set xs \<subseteq> holds1 s" "set ys \<subseteq> holds2 t" using xs ys by (simp_all add: newest_def)
  have "set rows \<subseteq> both s t"
  proof
    fix r assume r: "r \<in> set rows"
    then have "r \<in> set xs \<or> r \<in> set ys \<and> key r \<notin> key ` set xs" using rows by (auto simp: newest_def merged_def)
    moreover have "key r \<notin> key ` holds1 s" if "key r \<notin> key ` set xs"
    proof
      assume "key r \<in> key ` holds1 s"
      then obtain a where a: "a \<in> holds1 s" "key r = key a" by blast
      with that have "a \<notin> set xs" by auto
      from cut1 [OF a(1) this] r a(2) show False by auto
    qed
    ultimately show "r \<in> both s t" using sub by (auto simp: both_def)
  qed
  moreover have "a \<in> set rows \<or> int (length rows) = n \<and> (\<forall>x \<in> set rows. key a < key x)" if "a \<in> both s t" for a
  proof (cases "a \<in> set (merged xs ys)")
    case True
    with rows show ?thesis by (auto simp: newest_def)
  next
    case False
    then have "a \<in> holds1 s \<and> a \<notin> set xs \<or> a \<in> holds2 t \<and> a \<notin> set ys"
      using that sub by (auto simp: both_def merged_def)
    with cut1 cut2 show ?thesis by blast
  qed
  ultimately show ?thesis using rows inv(3) by (auto simp: newest_def)
qed

end

interpretation http_slots: merged_listing ss_Slot
    "\<lambda>p. proc_ok ext p \<and> clock_ok (pr_clock p)" "live_held uni now sid search" "\<lambda>n. ListSlots uni now sid search n"
    "storage_ok js" "stored_slots js (\<lambda>r. row_source r = sid)" "listed_summaries js sid" for ext uni now sid search js
  by unfold_locales

lemma slots_limit_pos: "0 < slots_limit q"
  by (auto simp: slots_limit_def split: option.splits prod.splits)

lemma merge_slots_newest:
  assumes "0 < n" and "distinct (map ss_Slot xs)" and "distinct (map ss_Slot ys)"
  shows "newest ss_Slot n (set (xs @ filter (\<lambda>y. ss_Slot y \<notin> ss_Slot ` set xs) ys)) (merge_slots n xs ys)"
proof -
  have "distinct (map ss_Slot (xs @ filter (\<lambda>y. ss_Slot y \<notin> ss_Slot ` set xs) ys))"
    using assms(2,3) by (auto simp: distinct_map_filter image_iff)
  from newest_sort [OF this, of n] show ?thesis unfolding merge_slots_def Let_def set_map by (simp only: assms(1) simp_thms)
qed

text \<open>
  C15: the slot page is right: for a source and a limit, \<open>/api/slots\<close> lists the newest slots that are in memory or on disk, newest
  first and each once, a slot in memory instead of its stored version, and leaves out only slots that
  are older than all it lists; the search text selects among the slots in memory only.
\<close>

theorem slots_page_newest:
  fixes uni :: "string \<Rightarrow> string" and now :: time
  assumes "proc_ok ext p" and "clock_ok (pr_clock p)" and "storage_ok js db" and "resolveSourceID q registry = Inr sid"
  defines "inMemory \<equiv> live_held uni now sid (q ''search'') p"
  shows "\<exists>rows. handleSlots js uni now None q registry (Some db) p = Some (SlotsJSON rows)
    \<and> newest ss_Slot (slots_limit q)
        (inMemory \<union> {s \<in> stored_slots js (\<lambda>r. row_source r = sid) db. ss_Slot s \<notin> ss_Slot ` inMemory}) rows"
proof -
  let ?n = "slots_limit q"
  have n: "0 < ?n" by (rule slots_limit_pos)
  obtain xs where xs: "ListSlots uni now sid (q ''search'') ?n p = Some xs"
    using live_list.listing_newest [of ext p ?n uni now sid "q ''search''"] assms(1,2) n by blast
  obtain ys where ys: "listed_summaries js sid ?n db = Some ys"
    using stored_list.listing_newest [OF assms(3) n] by blast
  have "distinct (map ss_Slot xs)" using live_list.listing_distinct [OF conjI [OF assms(1,2)] n xs] .
  moreover have "distinct (map ss_Slot ys)" using stored_list.listing_distinct [OF assms(3) n ys] .
  ultimately have "newest ss_Slot ?n (set (xs @ filter (\<lambda>y. ss_Slot y \<notin> ss_Slot ` set xs) ys)) (merge_slots ?n xs ys)"
    by (rule merge_slots_newest [OF n])
  from http_slots.merge_newest [OF conjI [OF assms(1,2)] assms(3) n xs ys, unfolded http_slots.merged_def, OF this]
  have "newest ss_Slot ?n (inMemory \<union> {s \<in> stored_slots js (\<lambda>r. row_source r = sid) db. ss_Slot s \<notin> ss_Slot ` inMemory}) (merge_slots ?n xs ys)"
    by (simp add: http_slots.both_def inMemory_def)
  moreover have "ListSummaries js None sid ?n db = Inr ys" using ys by (simp add: listed_summaries_def split: sum.splits)
  ultimately show ?thesis using xs assms(4) by (simp add: handleSlots_def)
qed

theorem slots_page_newest_witness:
  "\<exists>rows. handleSlots demo_json (\<lambda>s. s) (1606824047 * Second) None (\<lambda>k. if k = ''source'' then ''s1'' else []) None
      (Some (write_all demo_json demo_writes fresh_db)) (set_source ''s1'' demo_source demo_start) = Some (SlotsJSON rows)
    \<and> newest ss_Slot 256
        (live_held (\<lambda>s. s) (1606824047 * Second) ''s1'' [] (set_source ''s1'' demo_source demo_start)
         \<union> {s \<in> stored_slots demo_json (\<lambda>r. row_source r = ''s1'') (write_all demo_json demo_writes fresh_db).
             ss_Slot s \<notin> ss_Slot ` live_held (\<lambda>s. s) (1606824047 * Second) ''s1'' [] (set_source ''s1'' demo_source demo_start)}) rows"
proof -
  let ?q = "\<lambda>k. if k = ''source'' then ''s1'' else []" and ?p = "set_source ''s1'' demo_source demo_start"
  have clock: "clock_ok (pr_clock ?p)"
    using mainnet_clock_ok by (simp add: demo_start_def SetOnFinalize_def SetOnUpdate_def NewProcessor_def set_source_def)
  have db: "storage_ok demo_json (write_all demo_json demo_writes fresh_db)"
    by (rule storage_ok_write_all [OF json_law_demo storage_ok_fresh])
  have "resolveSourceID ?q None = Inr ''s1''" by (simp add: resolveSourceID_def)
  from slots_page_newest [OF demo_source_ok clock db this, of "\<lambda>s. s" "1606824047 * Second"]
  show ?thesis by (simp add: slots_limit_def)
qed

section \<open>Flushing updates\<close>

definition broadcast_all :: "(string \<times> SlotSummary \<times> u64) list \<Rightarrow> Server \<Rightarrow> Server" where
  "broadcast_all us s = fold (\<lambda>(sid, sm, cur) s. fst (broadcastUpdate sid sm cur s)) us s"

text \<open>The last update of each slot of each source, and the highest current slot of a source.\<close>

definition latest :: "(string \<times> SlotSummary \<times> u64) list \<Rightarrow> pendingKey \<rightharpoonup> SlotSummary" where
  "latest us = fold (\<lambda>(sid, sm, cur) m. m((sid, ss_Slot sm) \<mapsto> sm)) us Map.empty"

definition highest :: "string \<Rightarrow> (string \<times> SlotSummary \<times> u64) list \<Rightarrow> u64" where
  "highest sid us = fold (\<lambda>(sid', sm, cur) m. if sid' = sid then max cur m else m) us 0"

lemma broadcast_pending:
  "gm_ok (sv_pendingUpdates s) \<Longrightarrow> gm_ok (sv_pendingUpdates (broadcast_all us s))
     \<and> gget (sv_pendingUpdates (broadcast_all us s)) = fold (\<lambda>(sid, sm, cur) m. m((sid, ss_Slot sm) \<mapsto> sm)) us (gget (sv_pendingUpdates s))
     \<and> sv_clients (broadcast_all us s) = sv_clients s"
proof (induction us arbitrary: s)
  case (Cons u us)
  obtain sid sm cur where u: "u = (sid, sm, cur)" by (cases u)
  let ?s = "fst (broadcastUpdate sid sm cur s)"
  have st: "sv_pendingUpdates ?s = gput (sid, ss_Slot sm) sm (sv_pendingUpdates s)" "sv_clients ?s = sv_clients s"
    by (simp_all add: broadcastUpdate_def Let_def)
  with Cons.prems have "gm_ok (sv_pendingUpdates ?s)" by simp
  from Cons.IH [OF this] u st show ?case by (simp add: broadcast_all_def del: fun_upd_apply)
qed (simp add: broadcast_all_def)

lemma broadcast_current:
  "getd 0 (sv_pendingCurrent (broadcast_all us s)) sid =
     fold (\<lambda>(sid', sm, cur) m. if sid' = sid then max cur m else m) us (getd 0 (sv_pendingCurrent s) sid)"
proof (induction us arbitrary: s)
  case (Cons u us)
  obtain sid' sm cur where u: "u = (sid', sm, cur)" by (cases u)
  have "getd 0 (sv_pendingCurrent (fst (broadcastUpdate sid' sm cur s))) sid
      = (if sid' = sid then max cur (getd 0 (sv_pendingCurrent s) sid) else getd 0 (sv_pendingCurrent s) sid)"
    by (simp add: broadcastUpdate_def Let_def getd_def max_def not_less order_less_le)
  with Cons.IH [of "fst (broadcastUpdate sid' sm cur s)"] u show ?case by (simp add: broadcast_all_def)
qed (simp add: broadcast_all_def)

definition updates_of :: "string \<Rightarrow> (pendingKey, SlotSummary) gomap \<Rightarrow> SlotSummary list" where
  "updates_of sid ps = map snd (filter (\<lambda>kv. fst (fst kv) = sid) ps)"

lemma group_updates:
  defines "step \<equiv> (\<lambda>m ((sid, slot), summary).
           let su = (case gget m sid of None \<Rightarrow> \<lparr>up_slots = [], up_current = 0\<rparr> | Some su \<Rightarrow> su)
           in gput sid (su\<lparr>up_slots := up_slots su @ [summary]\<rparr>) m)"
  shows "gm_ok (foldl step [] ps) \<and> (\<forall>sid. gget (foldl step [] ps) sid =
    (if updates_of sid ps = [] then None else Some \<lparr>up_slots = updates_of sid ps, up_current = 0\<rparr>))"
proof (induction ps rule: rev_induct)
  case Nil
  then show ?case by (simp add: updates_of_def)
next
  case (snoc x ps)
  obtain sid' slot sm where x: "x = ((sid', slot), sm)" by (cases x) auto
  have "updates_of sid (ps @ [x]) = updates_of sid ps @ (if sid = sid' then [sm] else [])" for sid
    by (simp add: updates_of_def x)
  with snoc.IH show ?case by (auto simp: x step_def Let_def)
qed

lemma gget_map_val: "gget (map (\<lambda>(k, v). (k, f k v)) m) k = map_option (f k) (gget m k)"
  by (induction m) auto

lemma gm_ok_map_val: "gm_ok m \<Longrightarrow> gm_ok (map (\<lambda>(k, v). (k, f k v)) m)"
  by (simp add: gm_ok_def o_def split_def)

lemma by_source_get:
  "gm_ok (by_source s) \<and> (\<forall>sid. gget (by_source s) sid = (if updates_of sid (sv_pendingUpdates s) = [] then None
     else Some \<lparr>up_slots = updates_of sid (sv_pendingUpdates s), up_current = getd 0 (sv_pendingCurrent s) sid\<rparr>))"
  using group_updates [of "sv_pendingUpdates s"] unfolding by_source_def
  by (simp add: gm_ok_map_val gget_map_val [where f = "\<lambda>sid su. su\<lparr>up_current := getd 0 (sv_pendingCurrent s) sid\<rparr>"])

lemma writeToClients_writes: "snd (writeToClients fails cs msg s) = map (\<lambda>c. (c, msg)) cs"
  by (induction cs arbitrary: s) (simp_all add: Let_def split_def)

lemma writeToClients_frame:
  "sv_pendingUpdates (fst (writeToClients fails cs msg s)) = sv_pendingUpdates s
    \<and> sv_flushScheduled (fst (writeToClients fails cs msg s)) = sv_flushScheduled s"
  by (induction cs arbitrary: s) (simp_all add: Let_def split_def drop_client_def)

lemma send_batches_frame:
  "sv_pendingUpdates (fst (send_batches fails pc clients bs s)) = sv_pendingUpdates s
    \<and> sv_flushScheduled (fst (send_batches fails pc clients bs s)) = sv_flushScheduled s"
proof (induction bs arbitrary: s)
  case (Cons b bs)
  obtain sid su where "b = (sid, su)" by (cases b)
  with Cons show ?case by (simp add: Let_def split_def writeToClients_frame)
qed simp

lemma send_batches_mem:
  "(conn, msg) \<in> set (snd (send_batches fails pc clients bs s)) \<longleftrightarrow> (\<exists>sid su. (sid, su) \<in> set bs \<and> up_slots su \<noteq> []
     \<and> conn \<in> set (clients sid @ (if sid \<noteq> [] then clients [] else [])) \<and> msg = batch_message sid su (pc sid))"
proof (induction bs arbitrary: s)
  case (Cons b bs)
  obtain sid su where "b = (sid, su)" by (cases b)
  with Cons show ?case by (auto simp: Let_def split_def writeToClients_writes)
qed simp

lemma set_updates_of: "gm_ok ps \<Longrightarrow> sm \<in> set (updates_of sid ps) \<longleftrightarrow> (\<exists>slot. gget ps (sid, slot) = Some sm)"
  by (force simp: updates_of_def gget_iff [symmetric])

lemma latest_slot: "latest us (sid, slot) = Some sm \<Longrightarrow> ss_Slot sm = slot"
proof (induction us rule: rev_induct)
  case (snoc u us)
  then show ?case by (cases u) (auto simp: latest_def split: if_splits)
qed (simp add: latest_def)

text \<open>Which clients get the updates of a source: those of the source, and those without one.\<close>

definition subscribed :: "Server \<Rightarrow> nat \<Rightarrow> string \<Rightarrow> bool" where
  "subscribed s conn sid \<longleftrightarrow> gget (sv_clients s) conn = Some sid \<or> gget (sv_clients s) conn = Some []"

lemma clients_of_subscribed:
  assumes "gm_ok (sv_clients s)"
  shows "conn \<in> set (clients_of sid s @ (if sid \<noteq> [] then clients_of [] s else [])) \<longleftrightarrow> subscribed s conn sid"
proof -
  have "conn \<in> set (clients_of k s) \<longleftrightarrow> gget (sv_clients s) conn = Some k" for k
    using gget_iff [OF assms] by (force simp: clients_of_def)
  then show ?thesis by (auto simp: subscribed_def)
qed

lemma pending_slots_distinct:
  assumes "gm_ok ps" and "gget ps = latest us"
  shows "distinct (map ss_Slot (updates_of sid ps))"
proof -
  let ?kvs = "filter (\<lambda>kv. fst (fst kv) = sid) ps"
  have "distinct (map fst ?kvs)" using assms(1) by (simp add: gm_ok_def distinct_map_filter)
  moreover have "fst kv = (sid, ss_Slot (snd kv))" if kv: "kv \<in> set ?kvs" for kv
  proof -
    from kv have "fst (fst kv) = sid" and mem: "kv \<in> set ps" by simp_all
    then obtain slot sm where kv: "kv = ((sid, slot), sm)" by (metis prod.collapse)
    with mem have "latest us (sid, slot) = Some sm" using gget_iff [OF assms(1)] assms(2) by metis
    then show ?thesis using kv latest_slot by simp
  qed
  ultimately have "distinct (map (\<lambda>kv. ss_Slot (snd kv)) ?kvs)" 
    unfolding distinct_map inj_on_def by (metis prod_eq_iff)
  then show ?thesis by (simp add: updates_of_def o_def)
qed

text \<open>The batch of a source holds the latest summary of each of its slots, newest first.\<close>

lemma batch_latest:
  assumes "gm_ok ps" and "gget ps = latest us"
  shows "(slots \<noteq> [] \<and> msg = \<lparr>ws_Type = ''slot_batch'', ws_SourceID = sid, ws_Slot = None, ws_Slots = slots, ws_Current = cur,
            ws_PeerCount = (if n > 0 then Some n else None)\<rparr>
        \<and> sorted_wrt (\<lambda>a b. ss_Slot b < ss_Slot a) slots \<and> set slots = {sm. \<exists>slot. latest us (sid, slot) = Some sm})
      \<longleftrightarrow> (updates_of sid ps \<noteq> [] \<and> slots = sort_slice (by_key_desc ss_Slot) (updates_of sid ps) \<and>
       msg = batch_message sid \<lparr>up_slots = updates_of sid ps, up_current = cur\<rparr> n)"
proof -
  have upd: "set (updates_of sid ps) = {sm. \<exists>slot. latest us (sid, slot) = Some sm}"
    using set_updates_of [OF assms(1)] by (auto simp: assms(2))
  have order: "slots = sort_slice (by_key_desc ss_Slot) (updates_of sid ps) \<longleftrightarrow>
      sorted_wrt (\<lambda>a b. ss_Slot b < ss_Slot a) slots \<and> set slots = set (updates_of sid ps)"
    using sort_strict(1) [OF pending_slots_distinct [OF assms], of sid]
      strict_sorted_unique [of ss_Slot slots "sort_slice (by_key_desc ss_Slot) (updates_of sid ps)"]
    by auto
  show ?thesis
  proof (cases "slots = sort_slice (by_key_desc ss_Slot) (updates_of sid ps)")
    case True
    then have "sorted_wrt (\<lambda>a b. ss_Slot b < ss_Slot a) slots" "set slots = set (updates_of sid ps)" using order by blast+
    moreover from this(2) have "slots \<noteq> [] \<longleftrightarrow> updates_of sid ps \<noteq> []" by auto
    ultimately show ?thesis using True by (simp add: upd batch_message_def)
  next
    case False
    then show ?thesis unfolding upd [symmetric] using order by blast
  qed
qed



definition demo_clients :: Server where
  "demo_clients = NewServer\<lparr>sv_clients := [(7, ''s1''), (8, ''s2'')]\<rparr>"

definition demo_updates :: "(string \<times> SlotSummary \<times> u64) list" where
  "demo_updates = [(''s1'', demo_summary 4, 4), (''s1'', (demo_summary 5)\<lparr>ss_BytesIn := 9\<rparr>, 5), (''s1'', (demo_summary 4)\<lparr>ss_BytesIn := 3\<rparr>, 5)]"


end
