(* ===== verification/Http_Routes.thy ===== *)
theory Http_Routes
  imports Http_Server
begin

text \<open>
  \<open>Handler\<close> and \<open>Serve\<close> of \<open>internal/server/server.go\<close>: which handler answers a request.  A path is taken as
  \<open>http.ServeMux\<close> hands it on, without dots and double slashes, which it answers with a redirect.  Compression
  (\<open>gzipHandler\<close>) changes the encoding of an answer only and is left out.
\<close>

section \<open>Routing\<close>

datatype route = RouteSlots | RouteSlotDetail | RouteSources | RoutePeers | RouteSearch | RouteWS | RouteStatic

text \<open>\<open>http.ServeMux\<close>: a pattern that ends in a slash matches the paths below it; the longest matching pattern wins.\<close>

definition pattern_matches :: "string \<Rightarrow> string \<Rightarrow> bool" where
  "pattern_matches pat path \<longleftrightarrow> path = pat \<or> HasSuffix pat ''/'' \<and> HasPrefix path pat"

fun mux_match :: "(string \<times> 'h) list \<Rightarrow> string \<Rightarrow> (string \<times> 'h) option" where
  "mux_match [] path = None"
| "mux_match ((pat, h) # mux) path =
     (case mux_match mux path of
        None \<Rightarrow> if pattern_matches pat path then Some (pat, h) else None
      | Some (best, h') \<Rightarrow> if pattern_matches pat path \<and> length best < length pat then Some (pat, h) else Some (best, h'))"

definition Handler :: "string \<Rightarrow> (string \<times> route) list" where
  "Handler staticDir =
     [(''/api/slots'', RouteSlots), (''/api/slots/'', RouteSlotDetail), (''/api/sources'', RouteSources), (''/api/peers'', RoutePeers),
      (''/api/search'', RouteSearch), (''/api/ws'', RouteWS)]
     @ (if staticDir \<noteq> [] then [(''/'', RouteStatic)] else [])"

definition route_of :: "string \<Rightarrow> string \<Rightarrow> route option" where
  "route_of staticDir path = map_option snd (mux_match (Handler staticDir) path)"

section \<open>Requests\<close>

record request =
  rq_path :: string
  rq_query :: query
  rq_upgrade :: "nat option"

record backend =
  bk_processor :: Processor
  bk_registry :: "Registry option"
  bk_storage :: "Storage option"
  bk_staticDir :: string

text \<open>What the handlers take from outside: JSON, Unicode case, the text of a peer id, the time and a fault of the storage.\<close>

record surroundings_http =
  sh_json :: json_ops
  sh_unicode :: "string \<Rightarrow> string"
  sh_idString :: "bytes \<Rightarrow> string"
  sh_now :: time
  sh_fault :: "string option"

datatype reply = Answer http_response | Upgraded ws_outcome ws_writes | StaticFile string | NoRoute

text \<open>One request; a registry that is nil makes \<open>handleSources\<close> panic.\<close>

definition ServeHTTP :: "surroundings_http \<Rightarrow> request \<Rightarrow> backend \<Rightarrow> Server \<Rightarrow> (reply \<times> Server) go" where
  "ServeHTTP sh rq bk s =
     (let q = rq_query rq; p = bk_processor bk; reg = bk_registry bk; store = bk_storage bk in
      case route_of (bk_staticDir bk) (rq_path rq) of
        None \<Rightarrow> Some (NoRoute, s)
      | Some RouteSlots \<Rightarrow> do {
          r \<leftarrow> handleSlots (sh_json sh) (sh_unicode sh) (sh_now sh) (sh_fault sh) q reg store p;
          Some (Answer r, s)
        }
      | Some RouteSlotDetail \<Rightarrow> do {
          r \<leftarrow> handleSlotDetail (sh_json sh) (sh_now sh) (sh_fault sh) (rq_path rq) q reg store p;
          Some (Answer r, s)
        }
      | Some RouteSources \<Rightarrow> (case reg of None \<Rightarrow> None | Some r \<Rightarrow> Some (Answer (handleSources r), s))
      | Some RoutePeers \<Rightarrow> Some (Answer (handlePeers (sh_idString sh) q reg p), s)
      | Some RouteSearch \<Rightarrow> Some (Answer (handleSearch (sh_json sh) (sh_fault sh) q reg store), s)
      | Some RouteWS \<Rightarrow> do {
          (outcome, s, ws) \<leftarrow> handleWS (sh_now sh) q reg (rq_upgrade rq) p s;
          Some (Upgraded outcome ws, s)
        }
      | Some RouteStatic \<Rightarrow> Some (StaticFile (rq_path rq), s))"

section \<open>Which handler answers\<close>

lemma mux_match_Some:
  "mux_match mux path = Some (pat, h) \<Longrightarrow> (pat, h) \<in> set mux \<and> pattern_matches pat path
     \<and> (\<forall>(pat', h') \<in> set mux. pattern_matches pat' path \<longrightarrow> length pat' \<le> length pat)"
proof (induction mux path arbitrary: pat h rule: mux_match.induct)
  case (2 pat0 h0 mux path)
  show ?case
  proof (cases "mux_match mux path")
    case None
    have "\<not> pattern_matches pat' path" if "(pat', h') \<in> set mux" for pat' h'
    proof -
      have "mux_match mux path = None \<Longrightarrow> (pat', h') \<in> set mux \<Longrightarrow> \<not> pattern_matches pat' path" for mux :: "(string \<times> 'a) list"
        by (induction mux path rule: mux_match.induct) (auto split: option.splits if_splits)
      with None that show ?thesis by blast
    qed
    with None "2.prems" show ?thesis by (auto split: if_splits)
  next
    case (Some best)
    obtain b h' where best: "best = (b, h')" by (cases best)
    note IH = "2.IH" [of b h'] 
    show ?thesis using "2.prems" Some best IH by (fastforce split: if_splits)
  qed
qed simp

text \<open>Every path of the API reaches its own handler, with or without static files.\<close>

lemma Handler_routes:
  "route_of dir ''/api/slots'' = Some RouteSlots"
  "route_of dir ''/api/sources'' = Some RouteSources"
  "route_of dir ''/api/peers'' = Some RoutePeers"
  "route_of dir ''/api/search'' = Some RouteSearch"
  "route_of dir ''/api/ws'' = Some RouteWS"
  "route_of dir (slots_prefix @ num) = Some RouteSlotDetail"
  by (simp_all add: route_of_def Handler_def pattern_matches_def HasPrefix_def HasSuffix_def slots_prefix_def)

lemma route_only:
  assumes "route_of dir path = Some r"
  shows "case r of RouteSlots \<Rightarrow> path = ''/api/slots'' | RouteSources \<Rightarrow> path = ''/api/sources'' | RoutePeers \<Rightarrow> path = ''/api/peers''
    | RouteSearch \<Rightarrow> path = ''/api/search'' | RouteWS \<Rightarrow> path = ''/api/ws'' | RouteSlotDetail \<Rightarrow> (\<exists>num. path = slots_prefix @ num)
    | RouteStatic \<Rightarrow> dir \<noteq> []"
proof -
  from assms obtain pat where "mux_match (Handler dir) path = Some (pat, r)" by (auto simp: route_of_def)
  from mux_match_Some [OF this] have "(pat, r) \<in> set (Handler dir)" "pattern_matches pat path" by blast+
  then show ?thesis by (auto simp: Handler_def pattern_matches_def HasSuffix_def slots_prefix_def dest!: HasPrefix_obtain split: if_splits)
qed

section \<open>Answers\<close>

lemma SlotDetail_of_total: "clock_ok (pr_clock p) \<Longrightarrow> \<exists>d. SlotDetail_of now sid slot p = Some d"
  using currentSlot_total [of "pr_clock p" now] by (auto simp: SlotDetail_of_def split: option.split)

lemma handleSlots_total:
  assumes "proc_ok ext p" and "clock_ok (pr_clock p)"
  shows "\<exists>r. handleSlots js uni now fault q reg store p = Some r \<and> (\<forall>d raw. r \<noteq> DetailJSON d \<and> r \<noteq> RawJSON raw)"
proof (cases "resolveSourceID q reg")
  case (Inl err)
  then show ?thesis by (simp add: handleSlots_def Let_def)
next
  case (Inr sid)
  obtain rows where "ListSlots uni now sid (q ''search'') (slots_limit q) p = Some rows" using ListSlots_held [OF assms] by blast
  with Inr show ?thesis by (auto simp: handleSlots_def Let_def split: option.split sum.split)
qed

lemma handleSlotDetail_answers:
  assumes "proc_ok ext p" and "clock_ok (pr_clock p)"
  obtains (missing) "handleSlotDetail js now fault (slots_prefix @ num) q reg store p \<in> Some ` ({HttpNotFound} \<union> range BadRequest \<union> range InternalServerError)"
  | (live) d where "handleSlotDetail js now fault (slots_prefix @ num) q reg store p = Some (DetailJSON d)"
      "detail_ok d" "ParseUint num = (ss_Slot (sd_Summary d), None)"
  | (stored) raw sid slot db where "handleSlotDetail js now fault (slots_prefix @ num) q reg store p = Some (RawJSON raw)"
      "store = Some db" "ReadSlot js fault sid slot db = Inr raw" "resolveSourceID q reg = Inr sid" "ParseUint num = (slot, None)"
proof -
  have trim: "TrimPrefix (slots_prefix @ num) slots_prefix = num" by (simp add: TrimPrefix_def)
  obtain slot bad where n: "ParseUint num = (slot, bad)" by (rule prod.exhaust)
  show thesis
  proof (cases "bad = None \<and> (\<exists>sid. resolveSourceID q reg = Inr sid)")
    case False
    then show thesis using n by (intro missing) (auto simp: handleSlotDetail_def trim split: option.split sum.split)
  next
    case True
    then obtain sid where sid: "bad = None" "resolveSourceID q reg = Inr sid" by blast
    obtain d where d: "SlotDetail_of now sid slot p = Some d" using SlotDetail_of_total [OF assms(2)] by blast
    show thesis
    proof (cases d)
      case (Some d')
      with SlotDetail_ok [OF assms(1)] d have "detail_ok d'" "ss_Slot (sd_Summary d') = slot" by blast+
      with Some d n sid show thesis by (intro live [of d']) (simp_all add: handleSlotDetail_def trim)
    next
      case None
      show thesis
      proof (cases "\<exists>db raw. store = Some db \<and> ReadSlot js fault sid slot db = Inr raw")
        case True
        then obtain db raw where "store = Some db" "ReadSlot js fault sid slot db = Inr raw" by blast
        with None d n sid show thesis by (intro stored [of raw db sid slot]) (simp_all add: handleSlotDetail_def trim)
      next
        case False
        with None d n sid show thesis
          by (intro missing) (auto simp: handleSlotDetail_def trim split: option.split sum.split storage_error.split)
      qed
    qed
  qed
qed


definition demo_backend :: backend where
  "demo_backend = \<lparr>bk_processor = set_source ''s1'' demo_source demo_start, bk_registry = None, bk_storage = None, bk_staticDir = []\<rparr>"

definition demo_request :: request where
  "demo_request = \<lparr>rq_path = ''/api/slots/1'', rq_query = (\<lambda>k. if k = ''source'' then ''s1'' else []), rq_upgrade = None\<rparr>"

definition demo_outside :: surroundings_http where
  "demo_outside = \<lparr>sh_json = demo_json, sh_unicode = (\<lambda>s. s), sh_idString = (\<lambda>_. []), sh_now = 1606824047 * Second, sh_fault = None\<rparr>"


end
