(* ===== verification/Xray_Command.thy ===== *)
theory Xray_Command
  imports Ingest Http_Server
begin

text \<open>
  \<open>cmd/xray/main.go\<close>: the server process.  Its goroutines are the handlers of \<open>Ingest\<close>, the goroutine that stores
  finalized slots, the one that prunes once a day, and the flushes of \<open>Http_Server\<close>.  A handler runs the
  callbacks of an applied envelope before it goes on: an update goes to the server, a finalized slot into a
  channel of 64 places, where it waits when the channel is full.

  The process is the shared state with, for each handler, its phase and the callbacks it still has to run.  An entry of
  the channel carries the number of the handler that sent it.  After the context is done a handler may drop
  a waiting slot; that the context also ends the other goroutines is left out, so that the model allows more than the code.
\<close>

section \<open>State\<close>

record Flags =
  fl_genesisUnix :: int
  fl_secondsPerSlot :: u64
  fl_retentionDays :: int

type_synonym FinalizedSlot = "string \<times> SlotDetail"

record Xray =
  xr_listener :: Listener
  xr_phases :: "nat \<Rightarrow> phase"
  xr_callbacks :: "nat \<Rightarrow> effect list"
  xr_finalizeCh :: "(nat \<times> FinalizedSlot) list"
  xr_server :: Server
  xr_done :: bool

definition finalizeCap :: nat where "finalizeCap = 64"

text \<open>The sources known to the storage; a failing load is logged and gives none.\<close>

definition load_registry :: "json_ops \<Rightarrow> string option \<Rightarrow> Storage \<Rightarrow> Registry" where
  "load_registry js fault db =
     (case LoadSourceMetas js fault db of Inl err \<Rightarrow> NewSourceRegistry | Inr metas \<Rightarrow> fold Register metas NewSourceRegistry)"

definition start_xray :: "json_ops \<Rightarrow> Flags \<Rightarrow> string option \<Rightarrow> Storage \<Rightarrow> Xray" where
  "start_xray js fl fault db =
     (let clock = NewSlotClock (fl_genesisUnix fl * Second) (fl_secondsPerSlot fl);
          proc = SetOnUpdate True (SetOnFinalize True (NewProcessor clock))
      in \<lparr>xr_listener = NewListener proc (load_registry js fault db) (Some db), xr_phases = (\<lambda>_. Accepted),
          xr_callbacks = (\<lambda>_. []), xr_finalizeCh = [], xr_server = NewServer, xr_done = False\<rparr>)"

definition on_storage :: "(Storage \<Rightarrow> Storage) \<Rightarrow> Xray \<Rightarrow> Xray" where
  "on_storage f x = x\<lparr>xr_listener := (xr_listener x)\<lparr>ln_storage := map_option f (ln_storage (xr_listener x))\<rparr>\<rparr>"

section \<open>Goroutines\<close>

text \<open>The callbacks that a step of a handler leaves to run.\<close>

definition step_effects :: "ingest_params \<Rightarrow> int \<Rightarrow> phase \<Rightarrow> Listener \<Rightarrow> effect list" where
  "step_effects ip now ph l =
     (case ph of
        Applying sid env \<Rightarrow>
          (case ApplyForSource (ip_ext ip) now sid (Some env) (ln_processor l) of None \<Rightarrow> [] | Some (p, effs) \<Rightarrow> effs)
      | _ \<Rightarrow> [])"

definition handler_turn :: "ingest_params \<Rightarrow> nat \<Rightarrow> int \<Rightarrow> string option \<Rightarrow> conn_event \<Rightarrow> Xray \<Rightarrow> Xray option" where
  "handler_turn ip c now fault ev x =
     (if xr_callbacks x c \<noteq> [] then None
      else case handle_step ip c now fault ev (xr_phases x c) (xr_listener x) of
        None \<Rightarrow> None
      | Some (ph, l) \<Rightarrow>
          Some (x\<lparr>xr_listener := l, xr_phases := (xr_phases x)(c := ph),
                  xr_callbacks := (xr_callbacks x)(c := step_effects ip now (xr_phases x c) (xr_listener x))\<rparr>))"

definition run_callback :: "nat \<Rightarrow> Xray \<Rightarrow> Xray option" where
  "run_callback c x =
     (case xr_callbacks x c of
        [] \<Rightarrow> None
      | OnUpdate sourceID summary current # rest \<Rightarrow>
          Some (x\<lparr>xr_callbacks := (xr_callbacks x)(c := rest),
                  xr_server := fst (broadcastUpdate sourceID summary current (xr_server x))\<rparr>)
      | OnFinalize sourceID detail # rest \<Rightarrow>
          if length (xr_finalizeCh x) < finalizeCap
          then Some (x\<lparr>xr_callbacks := (xr_callbacks x)(c := rest),
                       xr_finalizeCh := xr_finalizeCh x @ [(c, sourceID, detail)]\<rparr>)
          else None)"

definition abandon_callback :: "nat \<Rightarrow> Xray \<Rightarrow> Xray option" where
  "abandon_callback c x =
     (case xr_callbacks x c of
        OnFinalize sourceID detail # rest \<Rightarrow>
          if xr_done x then Some (x\<lparr>xr_callbacks := (xr_callbacks x)(c := rest)\<rparr>) else None
      | _ \<Rightarrow> None)"

definition persist :: "json_ops \<Rightarrow> string option \<Rightarrow> Xray \<Rightarrow> Xray option" where
  "persist js fault x =
     (case xr_finalizeCh x of
        [] \<Rightarrow> None
      | (c, sourceID, detail) # rest \<Rightarrow>
          Some (on_storage (\<lambda>db. fst (WriteSlot js fault sourceID detail db)) (x\<lparr>xr_finalizeCh := rest\<rparr>)))"

text \<open>A tick of the retention goroutine; \<open>None\<close> when \<open>Prune\<close> panics.\<close>

definition prune_tick :: "Flags \<Rightarrow> (nat \<Rightarrow> string option) \<Rightarrow> int \<Rightarrow> Xray \<Rightarrow> Xray option" where
  "prune_tick fl faults nowUnix x =
     (case ln_storage (xr_listener x) of
        None \<Rightarrow> None
      | Some db \<Rightarrow>
          (case Prune faults nowUnix (fl_retentionDays fl) 32 (fl_secondsPerSlot fl) (fl_genesisUnix fl) db of
             None \<Rightarrow> None
           | Some (db, err) \<Rightarrow> Some (on_storage (\<lambda>_. db) x)))"

definition flush_tick :: "(nat \<Rightarrow> bool) \<Rightarrow> Xray \<Rightarrow> Xray" where
  "flush_tick fails x = x\<lparr>xr_server := fst (flushPendingUpdates fails (ln_processor (xr_listener x)) (xr_server x))\<rparr>"

definition finals :: "nat \<Rightarrow> effect list \<Rightarrow> (nat \<times> FinalizedSlot) list" where
  "finals c effs = List.map_filter (\<lambda>e. case e of OnFinalize sid d \<Rightarrow> Some (c, sid, d) | OnUpdate _ _ _ \<Rightarrow> None) effs"

text \<open>A turn of any goroutine, with the slots that the processor finalizes in it and the writes it tries.\<close>

type_synonym tried = "nat \<times> slot_write"

inductive turn :: "ingest_params \<Rightarrow> Flags \<Rightarrow> Xray \<Rightarrow> (nat \<times> FinalizedSlot) list \<Rightarrow> tried list \<Rightarrow> Xray \<Rightarrow> bool" for ip fl where
  handler: "handler_turn ip c now fault ev x = Some x' \<Longrightarrow> turn ip fl x (finals c (xr_callbacks x' c)) [] x'"
| callback: "run_callback c x = Some x' \<Longrightarrow> turn ip fl x [] [] x'"
| abandon: "abandon_callback c x = Some x' \<Longrightarrow> turn ip fl x [] [] x'"
| persist: "persist (ip_json ip) fault x = Some x' \<Longrightarrow> hd (xr_finalizeCh x) = (c, sid, d) \<Longrightarrow> turn ip fl x [] [(c, fault, sid, d)] x'"
| prune: "prune_tick fl faults nowUnix x = Some x' \<Longrightarrow> turn ip fl x [] [] x'"
| flush: "turn ip fl x [] [] (flush_tick fails x)"
| stop: "turn ip fl x [] [] (x\<lparr>xr_done := True\<rparr>)"

inductive running :: "ingest_params \<Rightarrow> Flags \<Rightarrow> Xray \<Rightarrow> (nat \<times> FinalizedSlot) list \<Rightarrow> tried list \<Rightarrow> Xray \<Rightarrow> bool" for ip fl x0 where
  start: "running ip fl x0 [] [] x0"
| turn: "running ip fl x0 h ws x \<Longrightarrow> turn ip fl x fs ts x' \<Longrightarrow> running ip fl x0 (h @ fs) (ws @ ts) x'"

section \<open>From the processor to the storage\<close>

definition of_handler :: "nat \<Rightarrow> (nat \<times> 'a) list \<Rightarrow> (nat \<times> 'a) list" where
  "of_handler c es = filter (\<lambda>e. fst e = c) es"

lemma of_handler_simps [simp]:
  "of_handler c [] = []" "of_handler c (xs @ ys) = of_handler c xs @ of_handler c ys"
  "of_handler c (e # es) = (if fst e = c then e # of_handler c es else of_handler c es)"
  by (simp_all add: of_handler_def)

lemma finals_simps [simp]:
  "finals c [] = []" "finals c (OnFinalize sid d # effs) = (c, sid, d) # finals c effs" "finals c (OnUpdate sid s cur # effs) = finals c effs"
  by (simp_all add: finals_def map_filter_simps)

lemma of_handler_finals [simp]: "of_handler c (finals c' effs) = (if c = c' then finals c effs else [])"
proof (induction effs)
  case (Cons e effs)
  then show ?case by (cases e) auto
qed simp

fun tried_slot :: "tried \<Rightarrow> nat \<times> FinalizedSlot" where
  "tried_slot (c, fault, sid, d) = (c, sid, d)"

text \<open>What one handler had finalized is, in order, what was tried to be written, what is in the channel and what it still holds.\<close>

definition delivery_ok :: "(nat \<times> FinalizedSlot) list \<Rightarrow> tried list \<Rightarrow> Xray \<Rightarrow> bool" where
  "delivery_ok h ws x \<longleftrightarrow> length (xr_finalizeCh x) \<le> finalizeCap \<and> set (xr_finalizeCh x) \<subseteq> set h
     \<and> (\<forall>c. set (finals c (xr_callbacks x c)) \<subseteq> set h)
     \<and> (\<not> xr_done x \<longrightarrow> (\<forall>c. of_handler c h =
          of_handler c (map tried_slot ws) @ of_handler c (xr_finalizeCh x) @ finals c (xr_callbacks x c)))"

lemma finals_Cons: "finals c (e # effs) = finals c [e] @ finals c effs"
  by (cases e) simp_all

lemma delivery_ok_callback:
  assumes "delivery_ok h ws x" and "xr_callbacks x c = e # rest" and "xr_callbacks x' = (xr_callbacks x)(c := rest)" and "xr_done x' = xr_done x"
    and "length (xr_finalizeCh x') \<le> finalizeCap" and "set (xr_finalizeCh x') \<subseteq> set (xr_finalizeCh x) \<union> set (finals c [e])"
    and "\<not> xr_done x \<Longrightarrow> xr_finalizeCh x' = xr_finalizeCh x @ finals c [e]"
  shows "delivery_ok h ws x'"
proof -
  have old: "set (finals c [e]) \<subseteq> set h" "set (finals c rest) \<subseteq> set h"
    using assms(1,2) finals_Cons [of c e rest] unfolding delivery_ok_def by (metis Un_subset_iff set_append)+
  have "of_handler c' h = of_handler c' (map tried_slot ws) @ of_handler c' (xr_finalizeCh x') @ finals c' (xr_callbacks x' c')"
    if "\<not> xr_done x" for c'
  proof (cases "c' = c")
    case True
    have "of_handler c h = of_handler c (map tried_slot ws) @ of_handler c (xr_finalizeCh x) @ finals c [e] @ finals c rest"
      using assms(1,2) that finals_Cons [of c e rest] by (simp add: delivery_ok_def)
    then show ?thesis using True assms(3) assms(7) [OF that] by simp
  next
    case False
    then show ?thesis using assms(1,3) assms(7) [OF that] that by (simp add: delivery_ok_def)
  qed
  then show ?thesis using assms(1,3-6) old unfolding delivery_ok_def by auto
qed

lemma delivery_ok_turn:
  assumes "turn ip fl x fs ts x'" and "delivery_ok h ws x"
  shows "delivery_ok (h @ fs) (ws @ ts) x'"
  using assms
proof (induction rule: turn.induct)
  case (handler c now fault ev x x')
  then have "xr_callbacks x c = []" "xr_finalizeCh x' = xr_finalizeCh x" "xr_done x' = xr_done x"
    "\<And>c'. c' \<noteq> c \<Longrightarrow> xr_callbacks x' c' = xr_callbacks x c'"
    by (auto simp: handler_turn_def split: if_splits option.splits)
  note st = this
  have "set (finals c' (xr_callbacks x' c')) \<subseteq> set h \<union> set (finals c (xr_callbacks x' c))" for c'
    using handler.prems st(4) by (cases "c' = c") (auto simp: delivery_ok_def)
  moreover have "of_handler c' h @ of_handler c' (finals c (xr_callbacks x' c)) =
      of_handler c' (map tried_slot ws) @ of_handler c' (xr_finalizeCh x) @ finals c' (xr_callbacks x' c')" if "\<not> xr_done x" for c'
    using handler.prems st(1,4) that by (cases "c' = c") (simp_all add: delivery_ok_def)
  ultimately show ?case using handler.prems st(2,3) by (auto simp: delivery_ok_def)
next
  case (callback c x x')
  then obtain e rest where e: "xr_callbacks x c = e # rest" by (cases "xr_callbacks x c") (simp_all add: run_callback_def)
  have len: "length (xr_finalizeCh x) \<le> finalizeCap" using callback.prems by (simp add: delivery_ok_def)
  show ?case
  proof (cases e)
    case (OnFinalize sid d)
    with callback.hyps e have "x' = x\<lparr>xr_callbacks := (xr_callbacks x)(c := rest), xr_finalizeCh := xr_finalizeCh x @ [(c, sid, d)]\<rparr>"
      "length (xr_finalizeCh x) < finalizeCap" by (simp_all add: run_callback_def split: if_splits)
    with OnFinalize delivery_ok_callback [OF callback.prems e, of x'] show ?thesis by simp
  next
    case (OnUpdate sid sm cur)
    with callback.hyps e have "x' = x\<lparr>xr_callbacks := (xr_callbacks x)(c := rest), xr_server := fst (broadcastUpdate sid sm cur (xr_server x))\<rparr>"
      by (simp add: run_callback_def)
    with OnUpdate len delivery_ok_callback [OF callback.prems e, of x'] show ?thesis by simp
  qed
next
  case (abandon c x x')
  then obtain sid d rest where "xr_callbacks x c = OnFinalize sid d # rest" "xr_done x" "x' = x\<lparr>xr_callbacks := (xr_callbacks x)(c := rest)\<rparr>"
    by (auto simp: abandon_callback_def split: list.splits effect.splits if_splits)
  with abandon.prems delivery_ok_callback [of h ws x c "OnFinalize sid d" rest x'] show ?case
    by (auto simp: delivery_ok_def [of _ _ x])
next
  case (persist fault x x' c sid d)
  then obtain rest where "xr_finalizeCh x = (c, sid, d) # rest" "x' = on_storage (\<lambda>db. fst (WriteSlot (ip_json ip) fault sid d db)) (x\<lparr>xr_finalizeCh := rest\<rparr>)"
    by (auto simp: persist_def split: list.splits)
  with persist.prems show ?case by (simp add: delivery_ok_def on_storage_def)
next
  case (prune faults nowUnix x x')
  then obtain l where "x' = x\<lparr>xr_listener := l\<rparr>" by (auto simp: prune_tick_def on_storage_def split: option.splits)
  with prune.prems show ?case by (simp add: delivery_ok_def)
qed (simp_all add: delivery_ok_def flush_tick_def)

text \<open>The rows of the storage are finalized slots, of the source and slot they are stored under.\<close>

definition row_final :: "json_ops \<Rightarrow> (nat \<times> FinalizedSlot) list \<Rightarrow> slot_row \<Rightarrow> bool" where
  "row_final js h r \<longleftrightarrow> (\<exists>c d. (c, row_source r, d) \<in> set h \<and> row_slot r = uint (ss_Slot (sd_Summary d)) \<and> js_detail js d = Inr (row_detail r))"

lemma row_final_mono: "row_final js h r \<Longrightarrow> set h \<subseteq> set h' \<Longrightarrow> row_final js h' r"
  by (auto simp: row_final_def)

definition xr_rows :: "Xray \<Rightarrow> slot_row list" where
  "xr_rows x = (case ln_storage (xr_listener x) of None \<Rightarrow> [] | Some db \<Rightarrow> db_slots db)"

lemma handle_step_rows:
  assumes "handle_step ip c now fault ev ph l = Some (ph', l')"
  shows "map_option db_slots (ln_storage l') = map_option db_slots (ln_storage l)"
  using assms by (cases ph; cases ev)
    (auto simp: silently_def close_conn_def cancel_def persist_info_def claim_session_def release_session_def
      WriteSourceMeta_def writeSourceMeta_def Let_def split: if_splits option.splits prod.splits sum.splits)

lemma xr_rows_cong: "map_option db_slots (ln_storage (xr_listener x')) = map_option db_slots (ln_storage (xr_listener x)) \<Longrightarrow> xr_rows x' = xr_rows x"
  by (auto simp: xr_rows_def split: option.splits)

lemma Prune_rows:
  assumes "Prune faults now days spe sps genesis db = Some (db', err)"
  shows "set (db_slots db') \<subseteq> set (db_slots db)" and "days \<le> 0 \<Longrightarrow> db' = db"
  using assms prune_loop_spec by (fastforce simp: Prune_def split: if_splits option.splits sum.splits prod.splits)+

lemma WriteSlot_rows:
  assumes "r \<in> set (db_slots (fst (WriteSlot js fault sid d db)))"
  shows "r \<in> set (db_slots db) \<or> row_source r = sid \<and> row_slot r = uint (ss_Slot (sd_Summary d)) \<and> js_detail js d = Inr (row_detail r)"
proof (cases rule: WriteSlot_cases [of js fault sid d db])
  case (added t u)
  with assms show ?thesis by auto
qed (use assms in simp)

lemma xr_rows_turn:
  assumes "turn ip fl x fs ts x'" and "r \<in> set (xr_rows x')"
  shows "r \<in> set (xr_rows x) \<or> row_final (ip_json ip) (xr_finalizeCh x) r"
  using assms
proof (induction rule: turn.induct)
  case (handler c now fault ev x x')
  then have "xr_rows x' = xr_rows x"
    by (intro xr_rows_cong) (auto simp: handler_turn_def dest: handle_step_rows split: if_splits option.splits)
  with handler.prems show ?case by simp
next
  case (callback c x x')
  then show ?case by (auto simp: run_callback_def xr_rows_def split: list.splits effect.splits if_splits)
next
  case (abandon c x x')
  then show ?case by (auto simp: abandon_callback_def xr_rows_def split: list.splits effect.splits if_splits)
next
  case (persist fault x x' c sid d)
  then obtain rest where ch: "xr_finalizeCh x = (c, sid, d) # rest"
    and x': "x' = on_storage (\<lambda>db. fst (WriteSlot (ip_json ip) fault sid d db)) (x\<lparr>xr_finalizeCh := rest\<rparr>)"
    by (auto simp: persist_def split: list.splits)
  with persist.prems obtain db where "ln_storage (xr_listener x) = Some db" "r \<in> set (db_slots (fst (WriteSlot (ip_json ip) fault sid d db)))"
    by (cases "ln_storage (xr_listener x)") (auto simp: on_storage_def xr_rows_def)
  with WriteSlot_rows show ?case by (fastforce simp: ch row_final_def xr_rows_def)
next
  case (prune faults nowUnix x x')
  then show ?case using Prune_rows(1) by (fastforce simp: prune_tick_def on_storage_def xr_rows_def split: option.splits)
qed (auto simp: xr_rows_def flush_tick_def)

text \<open>With retention switched off the rows are those of the writes, in their order.\<close>

lemma WriteSlot_cong:
  "db_slots db = db_slots db' \<Longrightarrow> db_slots (fst (WriteSlot js fault sid d db)) = db_slots (fst (WriteSlot js fault sid d db'))"
  by (auto simp: WriteSlot_def writeSlot_def split: sum.split option.split)

lemma write_all_append: "write_all js (ws @ [(fault, sid, d)]) db = fst (WriteSlot js fault sid d (write_all js ws db))"
  by (induction js ws db rule: write_all.induct) simp_all

lemma writes_turn:
  assumes "turn ip fl x fs ts x'" and "fl_retentionDays fl \<le> 0"
    and "map_option db_slots (ln_storage (xr_listener x)) = Some (db_slots (write_all (ip_json ip) (map snd ws) db))"
  shows "map_option db_slots (ln_storage (xr_listener x')) = Some (db_slots (write_all (ip_json ip) (map snd (ws @ ts)) db))"
  using assms
proof (induction rule: turn.induct)
  case (handler c now fault ev x x')
  then show ?case by (auto simp: handler_turn_def dest: handle_step_rows split: if_splits option.splits)
next
  case (callback c x x')
  then show ?case by (auto simp: run_callback_def split: list.splits effect.splits if_splits)
next
  case (abandon c x x')
  then show ?case by (auto simp: abandon_callback_def split: list.splits effect.splits if_splits)
next
  case (persist fault x x' c sid d)
  then show ?case by (auto simp: persist_def on_storage_def write_all_append intro: WriteSlot_cong split: list.splits)
next
  case (prune faults nowUnix x x')
  then show ?case by (auto simp: prune_tick_def on_storage_def dest: Prune_rows(2) split: option.splits)
qed (auto simp: flush_tick_def)

text \<open>The processor stays in order, and what it finalizes adds up.\<close>

definition finals_ok :: "(nat \<times> FinalizedSlot) list \<Rightarrow> bool" where
  "finals_ok h \<longleftrightarrow> (\<forall>(c, sid, d) \<in> set h. detail_ok d)"

lemma finals_ok_append [simp]: "finals_ok (xs @ ys) \<longleftrightarrow> finals_ok xs \<and> finals_ok ys"
  by (simp add: finals_ok_def ball_Un)

lemma finals_ok_effects: "list_all effect_ok effs \<Longrightarrow> finals_ok (finals c effs)"
proof (induction effs)
  case (Cons e effs)
  then show ?case by (cases e) (auto simp: finals_ok_def effect_ok_def)
qed (simp add: finals_ok_def)

lemma processor_turn:
  assumes "turn ip fl x fs ts x'" and "processor_fine ip (xr_listener x)"
  shows "processor_fine ip (xr_listener x') \<and> finals_ok fs"
  using assms
proof (induction rule: turn.induct)
  case (handler c now fault ev x x')
  then obtain ph where "handle_step ip c now fault ev (xr_phases x c) (xr_listener x) = Some (ph, xr_listener x')"
    and cb: "xr_callbacks x' c = step_effects ip now (xr_phases x c) (xr_listener x)"
    by (auto simp: handler_turn_def split: if_splits option.splits)
  moreover have "list_all effect_ok (step_effects ip now (xr_phases x c) (xr_listener x))"
    using handler.prems ApplyForSource_effects by (fastforce simp: step_effects_def processor_fine_def split: phase.split option.split)
  ultimately show ?case using handle_step_processor handler.prems finals_ok_effects by auto
next
  case (callback c x x')
  then show ?case by (auto simp: run_callback_def finals_ok_def split: list.splits effect.splits if_splits)
next
  case (abandon c x x')
  then show ?case by (auto simp: abandon_callback_def finals_ok_def split: list.splits effect.splits if_splits)
next
  case (persist fault x x' c sid d)
  then show ?case by (auto simp: persist_def on_storage_def finals_ok_def processor_fine_def split: list.splits)
next
  case (prune faults nowUnix x x')
  then show ?case by (auto simp: prune_tick_def on_storage_def finals_ok_def processor_fine_def split: option.splits)
qed (auto simp: flush_tick_def finals_ok_def)

section \<open>The process\<close>

lemma ReadSlot_row:
  assumes "ReadSlot js None sid slot db = Inr u"
  shows "\<exists>r \<in> set (db_slots db). row_source r = sid \<and> row_slot r = uint slot \<and> u = sql_json js (row_detail r)"
proof -
  obtain v where v: "int64Slot slot = Inr v" using assms by (cases "int64Slot slot") (simp_all add: ReadSlot_def)
  with assms obtain r where r: "find (\<lambda>r. row_source r = sid \<and> row_slot r = v) (db_slots db) = Some r" "u = sql_json js (row_detail r)"
    by (auto simp: ReadSlot_def split: option.splits)
  then obtain i where "i < length (db_slots db)" "r = db_slots db ! i" "row_source r = sid" "row_slot r = v"
    by (auto simp: find_Some_iff)
  then show ?thesis using int64Slot_Inr [OF v] r(2) nth_mem by auto
qed

lemma running_inv:
  assumes "running ip fl (start_xray js fl fault fresh_db) h ws x" and "clock_ok (NewSlotClock (fl_genesisUnix fl * Second) (fl_secondsPerSlot fl))"
  shows "delivery_ok h ws x \<and> processor_fine ip (xr_listener x) \<and> finals_ok h \<and> (\<forall>r \<in> set (xr_rows x). row_final (ip_json ip) h r)"
  using assms(1)
proof (induction rule: running.induct)
  case start
  have "processor_fine ip (xr_listener (start_xray js fl fault fresh_db))"
    using assms(2) proc_ok_New
    by (simp add: start_xray_def NewListener_def processor_fine_def SetOnUpdate_def SetOnFinalize_def NewProcessor_def proc_ok_def Let_def)
  then show ?case
    by (simp add: start_xray_def NewListener_def delivery_ok_def finals_ok_def xr_rows_def fresh_db_def Let_def)
next
  case (turn h ws x fs ts x')
  have "row_final (ip_json ip) (h @ fs) r" if "r \<in> set (xr_rows x')" for r
  proof -
    have "set h \<subseteq> set (h @ fs)" "set (xr_finalizeCh x) \<subseteq> set (h @ fs)" using turn.IH by (auto simp: delivery_ok_def)
    then show ?thesis using xr_rows_turn [OF turn.hyps(2) that] turn.IH row_final_mono by metis
  qed
  moreover have "delivery_ok (h @ fs) (ws @ ts) x'" using delivery_ok_turn [OF turn.hyps(2)] turn.IH by blast
  moreover have "processor_fine ip (xr_listener x')" "finals_ok (h @ fs)"
    using processor_turn [OF turn.hyps(2)] turn.IH by simp_all
  ultimately show ?case by blast
qed


text \<open>
  C13: no finalized slot is lost on its way to the storage: until the process is told to stop, the slots that one handler had
  finalized are, in order, those tried to be written, those in the channel and those it still holds; the channel never
  holds more than 64; and with retention switched off the stored rows are those of these writes.
\<close>

theorem finalized_slots_reach_storage:
  assumes "running ip fl (start_xray (ip_json ip) fl fault fresh_db) h ws x"
    and "clock_ok (NewSlotClock (fl_genesisUnix fl * Second) (fl_secondsPerSlot fl))"
  shows "length (xr_finalizeCh x) \<le> 64
    \<and> (\<not> xr_done x \<longrightarrow> (\<forall>c. of_handler c h =
         of_handler c (map tried_slot ws) @ of_handler c (xr_finalizeCh x) @ finals c (xr_callbacks x c)))
    \<and> (fl_retentionDays fl \<le> 0 \<longrightarrow> (\<exists>db. ln_storage (xr_listener x) = Some db
         \<and> db_slots db = db_slots (write_all (ip_json ip) (map snd ws) fresh_db)))"
proof -
  have "map_option db_slots (ln_storage (xr_listener x)) = Some (db_slots (write_all (ip_json ip) (map snd ws) fresh_db))"
    if "fl_retentionDays fl \<le> 0"
    using assms(1)
  proof (induction rule: running.induct)
    case start
    then show ?case by (simp add: start_xray_def NewListener_def Let_def)
  next
    case (turn h ws x fs ts x')
    from writes_turn [OF turn.hyps(2) that turn.IH] show ?case .
  qed
  then show ?thesis using running_inv [OF assms] by (auto simp: delivery_ok_def finalizeCap_def)
qed

section \<open>A run\<close>

datatype goroutine = Handler nat int conn_event | Callback nat | Persister

fun run_turn :: "ingest_params \<Rightarrow> goroutine \<Rightarrow> Xray \<Rightarrow> Xray option" where
  "run_turn ip (Handler c now ev) x = handler_turn ip c now None ev x"
| "run_turn ip (Callback c) x = run_callback c x"
| "run_turn ip Persister x = persist (ip_json ip) None x"

fun run_turns :: "ingest_params \<Rightarrow> goroutine list \<Rightarrow> Xray \<Rightarrow> Xray option" where
  "run_turns ip [] x = Some x"
| "run_turns ip (g # gs) x = (case run_turn ip g x of None \<Rightarrow> None | Some x \<Rightarrow> run_turns ip gs x)"

lemma run_turn_turn: "run_turn ip g x = Some x' \<Longrightarrow> \<exists>fs ts. turn ip fl x fs ts x'"
proof (cases g)
  case Persister
  obtain c sid d where "hd (xr_finalizeCh x) = (c, sid, d)" by (cases "hd (xr_finalizeCh x)")
  moreover assume "run_turn ip g x = Some x'"
  ultimately show ?thesis using Persister turn.persist by fastforce
qed (auto intro: turn.handler turn.callback)

lemma running_run_turns: "run_turns ip gs x = Some x' \<Longrightarrow> running ip fl x0 h ws x \<Longrightarrow> \<exists>h' ws'. running ip fl x0 h' ws' x'"
proof (induction gs arbitrary: x h ws)
  case (Cons g gs)
  then obtain x1 where x1: "run_turn ip g x = Some x1" "run_turns ip gs x1 = Some x'" by (auto split: option.splits)
  then obtain fs ts where "turn ip fl x fs ts x1" using run_turn_turn by blast
  from Cons.IH [OF x1(2) running.turn [OF Cons.prems(2) this]] show ?case .
qed auto

text \<open>A probe attaches, opens a stream and sends three bytes in slot 1 and one in slot 2; slot 1 is stored.\<close>

definition run_params :: ingest_params where
  "run_params = \<lparr>ip_ext = demo_ext, ip_idString = (\<lambda>_. ''s1''),
     ip_json = demo_json\<lparr>js_summary := (\<lambda>s. Inr (FormatUint (ss_Slot s)))\<rparr>\<rparr>"

definition run_flags :: Flags where
  "run_flags = \<lparr>fl_genesisUnix = 1606824023, fl_secondsPerSlot = 12, fl_retentionDays = 0\<rparr>"

definition demo_turns :: "goroutine list" where
  "demo_turns = map (Handler 0 0) (attach_events 1)
     @ concat (map (\<lambda>(t, sid, env). [Handler 0 t (GotEnvelope env), Handler 0 t Silent]
         @ replicate (if env_Seq env = 4 then 2 else if env_Seq env = 3 then 1 else 0) (Callback 0) @ [Handler 0 t Silent]) demo_deliveries)
     @ [Persister]"

definition demo_end :: "Xray option" where
  "demo_end = run_turns run_params demo_turns (start_xray (ip_json run_params) run_flags None fresh_db)"

lemma demo_end_eval:
  "map_option (\<lambda>x. (map_option (ReadSlot (ip_json run_params) None ''s1'' 1) (ln_storage (xr_listener x)), xr_callbacks x 0,
      xr_finalizeCh x, xr_done x)) demo_end = Some (Some (Inr ''1b''), [], [], False)"
  by code_simp

lemma demo_end_running:
  "\<exists>h ws x db. running run_params run_flags (start_xray (ip_json run_params) run_flags None fresh_db) h ws x
    \<and> ln_storage (xr_listener x) = Some db \<and> ReadSlot (ip_json run_params) None ''s1'' 1 db = Inr ''1b''
    \<and> xr_callbacks x 0 = [] \<and> xr_finalizeCh x = [] \<and> \<not> xr_done x"
proof -
  obtain x db where x: "demo_end = Some x" "ln_storage (xr_listener x) = Some db" "ReadSlot (ip_json run_params) None ''s1'' 1 db = Inr ''1b''"
    "xr_callbacks x 0 = []" "xr_finalizeCh x = []" "\<not> xr_done x"
    using demo_end_eval by auto
  then show ?thesis using running_run_turns [OF x(1) [unfolded demo_end_def] running.start] by blast
qed

lemma run_clock_ok: "clock_ok (NewSlotClock (fl_genesisUnix run_flags * Second) (fl_secondsPerSlot run_flags))"
  using mainnet_clock_ok by (simp add: mainnet_clock_def run_flags_def)


theorem finalized_slots_reach_storage_witness:
  "\<exists>h ws x db. running run_params run_flags (start_xray (ip_json run_params) run_flags None fresh_db) h ws x
    \<and> of_handler 0 h = of_handler 0 (map tried_slot ws)
    \<and> ln_storage (xr_listener x) = Some db \<and> db_slots db = db_slots (write_all (ip_json run_params) (map snd ws) fresh_db)
    \<and> db_slots db \<noteq> []"
proof -
  obtain h ws x db where r: "running run_params run_flags (start_xray (ip_json run_params) run_flags None fresh_db) h ws x"
    "ln_storage (xr_listener x) = Some db" "ReadSlot (ip_json run_params) None ''s1'' 1 db = Inr ''1b''"
    "xr_callbacks x 0 = []" "xr_finalizeCh x = []" "\<not> xr_done x"
    using demo_end_running by blast
  have "db_slots db \<noteq> []" using ReadSlot_row [OF r(3)] by auto
  moreover have "fl_retentionDays run_flags \<le> 0" by (simp add: run_flags_def)
  ultimately show ?thesis using finalized_slots_reach_storage [OF r(1) run_clock_ok] r by fastforce
qed

end
