(* ===== verification/Legacy_Migration.thy ===== *)
theory Legacy_Migration
  imports Slot_Storage "HOL-Library.Sublist"
begin

text \<open>
  \<open>internal/storage/storage.go\<close>, lines 35 to 207: opening the storage and moving the JSON files of an older
  version into the database.

  The disk is the part of the data directory that the migration touches: a directory per source with
  \<open>source.json\<close>, \<open>slots/\<close> and \<open>index/\<close>, the quarantine \<open>legacy-failed/\<close>, the marker file and the
  database.  Every call of the operating system or the driver takes the next answer from \<open>dk_faults\<close>: an error, or success;
  the list ended means success.  A transaction is a copy of the database that is put back by the commit.
\<close>

section \<open>State\<close>

datatype slot_entry = SlotFile string | SlotSubdir

datatype legacy_file = SourceJSON | SlotJSON string

record legacy_dir =
  ld_source :: "string option"
  ld_slots :: "(string, slot_entry) gomap option"
  ld_index :: bool

record Disk =
  dk_dirs :: "(string, legacy_dir) gomap"
  dk_failed :: "(string \<times> legacy_file, string) gomap"
  dk_marker :: bool
  dk_db :: Storage
  dk_faults :: "string option list"

datatype migration_error =
    MkdirFailed string | OpenFailed string | SchemaFailed string | ReadDataDir string | BeginFailed string
  | ReadLegacy string | QuarantineFailed string | MigrateRow storage_error | CommitFailed string
  | RemoveFailed string | MarkerFailed string

definition answer :: "Disk \<Rightarrow> string option \<times> Disk" where
  "answer d = (case dk_faults d of [] \<Rightarrow> (None, d) | f # fs \<Rightarrow> (f, d\<lparr>dk_faults := fs\<rparr>))"

definition on_dir :: "string \<Rightarrow> (legacy_dir \<Rightarrow> legacy_dir) \<Rightarrow> Disk \<Rightarrow> Disk" where
  "on_dir sid f d = (case gget (dk_dirs d) sid of None \<Rightarrow> d | Some ld \<Rightarrow> d\<lparr>dk_dirs := gput sid (f ld) (dk_dirs d)\<rparr>)"

definition slot_entries :: "legacy_dir \<Rightarrow> (string, slot_entry) gomap" where
  "slot_entries ld = (case ld_slots ld of None \<Rightarrow> [] | Some m \<Rightarrow> m)"

fun unlink :: "legacy_file \<Rightarrow> legacy_dir \<Rightarrow> legacy_dir" where
  "unlink SourceJSON ld = ld\<lparr>ld_source := None\<rparr>"
| "unlink (SlotJSON name) ld = ld\<lparr>ld_slots := map_option (gdel name) (ld_slots ld)\<rparr>"

section \<open>One source\<close>

definition quarantineLegacyFile :: "string \<Rightarrow> legacy_file \<Rightarrow> string \<Rightarrow> Disk \<Rightarrow> migration_error option \<times> Disk" where
  "quarantineLegacyFile sourceID f data d =
     (case answer d of
        (Some e, d) \<Rightarrow> (Some (QuarantineFailed e), d)
      | (None, d) \<Rightarrow>
          (case answer d of
             (Some e, d) \<Rightarrow> (Some (QuarantineFailed e), d)
           | (None, d) \<Rightarrow> (None, on_dir sourceID (unlink f) (d\<lparr>dk_failed := gput (sourceID, f) data (dk_failed d)\<rparr>))))"

text \<open>The migration of \<open>source.json\<close> within the transaction \<open>tx\<close>.\<close>

definition migrate_source_json ::
  "json_ops \<Rightarrow> string \<Rightarrow> Storage \<Rightarrow> Disk \<Rightarrow> (migration_error + Storage) \<times> Disk" where
  "migrate_source_json js sourceID tx d =
     (case answer d of
        (Some e, d) \<Rightarrow> (Inl (ReadLegacy e), d)
      | (None, d) \<Rightarrow>
          (case gget (dk_dirs d) sourceID \<bind> ld_source of
             None \<Rightarrow> (Inr tx, d)
           | Some data \<Rightarrow>
               (case un_info js data of
                  Inl _ \<Rightarrow>
                    (case quarantineLegacyFile sourceID SourceJSON data d of
                       (Some e, d) \<Rightarrow> (Inl e, d)
                     | (None, d) \<Rightarrow> (Inr tx, d))
                | Inr info \<Rightarrow>
                    (case answer d of
                       (fault, d) \<Rightarrow>
                         (case writeSourceMeta js fault info tx of
                            (tx, Some e) \<Rightarrow> (Inl (MigrateRow e), d)
                          | (tx, None) \<Rightarrow> (Inr tx, d))))))"

text \<open>The loop over the entries of \<open>slots/\<close>.\<close>

fun migrate_slots ::
  "json_ops \<Rightarrow> (string \<Rightarrow> string + SlotDetail) \<Rightarrow> string \<Rightarrow> (string \<times> slot_entry) list \<Rightarrow> Storage \<Rightarrow> Disk
     \<Rightarrow> (migration_error + Storage) \<times> Disk" where
  "migrate_slots js un_detail sourceID [] tx d = (Inr tx, d)"
| "migrate_slots js un_detail sourceID ((name, SlotSubdir) # rest) tx d = migrate_slots js un_detail sourceID rest tx d"
| "migrate_slots js un_detail sourceID ((name, SlotFile data) # rest) tx d =
     (if \<not> HasSuffix name ''.json'' then migrate_slots js un_detail sourceID rest tx d
      else case answer d of
        (Some e, d) \<Rightarrow> (Inl (ReadLegacy e), d)
      | (None, d) \<Rightarrow>
          (case un_detail data of
             Inl _ \<Rightarrow>
               (case quarantineLegacyFile sourceID (SlotJSON name) data d of
                  (Some e, d) \<Rightarrow> (Inl e, d)
                | (None, d) \<Rightarrow> migrate_slots js un_detail sourceID rest tx d)
           | Inr detail \<Rightarrow>
               (case answer d of
                  (fault, d) \<Rightarrow>
                    (case writeSlot js fault sourceID detail tx of
                       (tx, Some e) \<Rightarrow> (Inl (MigrateRow e), d)
                     | (tx, None) \<Rightarrow> migrate_slots js un_detail sourceID rest tx d))))"

text \<open>\<open>os.RemoveAll\<close> of \<open>slots/\<close>: an entry that cannot be removed stays, the others go.\<close>

fun remove_entries :: "(string \<times> slot_entry) list \<Rightarrow> Disk \<Rightarrow> (string \<times> slot_entry) list \<times> Disk" where
  "remove_entries [] d = ([], d)"
| "remove_entries (kv # rest) d =
     (case answer d of (fault, d) \<Rightarrow>
        (case remove_entries rest d of (left, d) \<Rightarrow> (if fault = None then left else kv # left, d)))"

definition remove_slots :: "string \<Rightarrow> Disk \<Rightarrow> string option \<times> Disk" where
  "remove_slots sourceID d =
     (case gget (dk_dirs d) sourceID \<bind> ld_slots of
        None \<Rightarrow> (None, d)
      | Some m \<Rightarrow>
          (case remove_entries m d of (left, d) \<Rightarrow>
             (case answer d of (fault, d) \<Rightarrow>
                if left = [] \<and> fault = None then (None, on_dir sourceID (\<lambda>ld. ld\<lparr>ld_slots := None\<rparr>) d)
                else (Some (case fault of None \<Rightarrow> [] | Some e \<Rightarrow> e), on_dir sourceID (\<lambda>ld. ld\<lparr>ld_slots := Some left\<rparr>) d))))"

definition removeLegacySourceFiles :: "string \<Rightarrow> Disk \<Rightarrow> migration_error option \<times> Disk" where
  "removeLegacySourceFiles sourceID d =
     (case answer d of
        (Some e, d) \<Rightarrow> (Some (RemoveFailed e), d)
      | (None, d) \<Rightarrow>
          (case remove_slots sourceID (on_dir sourceID (unlink SourceJSON) d) of
             (Some e, d) \<Rightarrow> (Some (RemoveFailed e), d)
           | (None, d) \<Rightarrow>
               (case answer d of
                  (Some e, d) \<Rightarrow> (Some (RemoveFailed e), d)
                | (None, d) \<Rightarrow> (None, on_dir sourceID (\<lambda>ld. ld\<lparr>ld_index := False\<rparr>) d))))"

definition migrateLegacySource ::
  "json_ops \<Rightarrow> (string \<Rightarrow> string + SlotDetail) \<Rightarrow> string \<Rightarrow> Disk \<Rightarrow> migration_error option \<times> Disk" where
  "migrateLegacySource js un_detail sourceID d =
     (case answer d of
        (Some e, d) \<Rightarrow> (Some (BeginFailed e), d)
      | (None, d) \<Rightarrow>
          (case migrate_source_json js sourceID (dk_db d) d of
             (Inl e, d) \<Rightarrow> (Some e, d)
           | (Inr tx, d) \<Rightarrow>
               (case answer d of
                  (Some e, d) \<Rightarrow> (Some (ReadLegacy e), d)
                | (None, d) \<Rightarrow>
                    let entries = (case gget (dk_dirs d) sourceID of None \<Rightarrow> [] | Some ld \<Rightarrow> sort_slice (by_key_asc fst) (slot_entries ld)) in
                    (case migrate_slots js un_detail sourceID entries tx d of
                       (Inl e, d) \<Rightarrow> (Some e, d)
                     | (Inr tx, d) \<Rightarrow>
                         (case answer d of
                            (Some e, d) \<Rightarrow> (Some (CommitFailed e), d)
                          | (None, d) \<Rightarrow> removeLegacySourceFiles sourceID (d\<lparr>dk_db := tx\<rparr>))))))"

section \<open>All sources\<close>

fun migrate_sources ::
  "json_ops \<Rightarrow> (string \<Rightarrow> string + SlotDetail) \<Rightarrow> string list \<Rightarrow> Disk \<Rightarrow> migration_error option \<times> Disk" where
  "migrate_sources js un_detail [] d = (None, d)"
| "migrate_sources js un_detail (name # rest) d =
     (if name = ''legacy-failed'' then migrate_sources js un_detail rest d
      else case migrateLegacySource js un_detail name d of
        (Some e, d) \<Rightarrow> (Some e, d)
      | (None, d) \<Rightarrow> migrate_sources js un_detail rest d)"

definition migrateLegacyFiles ::
  "json_ops \<Rightarrow> (string \<Rightarrow> string + SlotDetail) \<Rightarrow> Disk \<Rightarrow> migration_error option \<times> Disk" where
  "migrateLegacyFiles js un_detail d =
     (case answer d of
        (fault, d) \<Rightarrow>
          if fault = None \<and> dk_marker d then (None, d)
          else
            (case answer d of
               (Some e, d) \<Rightarrow> (Some (ReadDataDir e), d)
             | (None, d) \<Rightarrow>
                 (case migrate_sources js un_detail (map fst (sort_slice (by_key_asc fst) (dk_dirs d))) d of
                    (Some e, d) \<Rightarrow> (Some e, d)
                  | (None, d) \<Rightarrow>
                      (case answer d of
                         (Some e, d) \<Rightarrow> (Some (MarkerFailed e), d)
                       | (None, d) \<Rightarrow> (None, d\<lparr>dk_marker := True\<rparr>)))))"

text \<open>\<open>NewStorage\<close>; \<open>initSchema\<close> changes nothing in a database that has the tables.\<close>

definition NewStorage ::
  "json_ops \<Rightarrow> (string \<Rightarrow> string + SlotDetail) \<Rightarrow> Disk \<Rightarrow> migration_error option \<times> Disk" where
  "NewStorage js un_detail d =
     (case answer d of
        (Some e, d) \<Rightarrow> (Some (MkdirFailed e), d)
      | (None, d) \<Rightarrow>
          (case answer d of
             (Some e, d) \<Rightarrow> (Some (OpenFailed e), d)
           | (None, d) \<Rightarrow>
               (case answer d of
                  (Some e, d) \<Rightarrow> (Some (SchemaFailed e), d)
                | (None, d) \<Rightarrow> migrateLegacyFiles js un_detail d)))"

section \<open>What a run may change\<close>

fun read_file :: "legacy_file \<Rightarrow> legacy_dir \<Rightarrow> string option" where
  "read_file SourceJSON ld = ld_source ld"
| "read_file (SlotJSON name) ld = (case gget (slot_entries ld) name of Some (SlotFile data) \<Rightarrow> Some data | _ \<Rightarrow> None)"

definition legacy :: "Disk \<Rightarrow> string \<Rightarrow> legacy_file \<Rightarrow> string option" where
  "legacy d sid f = gget (dk_dirs d) sid \<bind> read_file f"

text \<open>The files that the migration is about; anything else in \<open>slots/\<close> is removed with it.\<close>

fun migratable :: "legacy_file \<Rightarrow> bool" where
  "migratable SourceJSON \<longleftrightarrow> True"
| "migratable (SlotJSON name) \<longleftrightarrow> HasSuffix name ''.json''"

fun unreadable :: "json_ops \<Rightarrow> (string \<Rightarrow> string + SlotDetail) \<Rightarrow> legacy_file \<Rightarrow> string \<Rightarrow> bool" where
  "unreadable js un SourceJSON data \<longleftrightarrow> (\<exists>e. un_info js data = Inl e)"
| "unreadable js un (SlotJSON name) data \<longleftrightarrow> (\<exists>e. un data = Inl e)"

fun stored :: "json_ops \<Rightarrow> (string \<Rightarrow> string + SlotDetail) \<Rightarrow> Storage \<Rightarrow> string \<Rightarrow> legacy_file \<Rightarrow> string \<Rightarrow> bool" where
  "stored js un db sid SourceJSON data \<longleftrightarrow> (\<exists>info. un_info js data = Inr info \<and> gget (db_sources db) (inf_SourceID info) \<noteq> None)"
| "stored js un db sid (SlotJSON name) data \<longleftrightarrow>
     (\<exists>detail. un data = Inr detail \<and> (sid, uint (ss_Slot (sd_Summary detail))) \<in> row_key ` set (db_slots db))"

text \<open>Where the contents of a file are: still in place, in quarantine, or in the database.\<close>

definition accounted :: "json_ops \<Rightarrow> (string \<Rightarrow> string + SlotDetail) \<Rightarrow> Disk \<Rightarrow> string \<Rightarrow> legacy_file \<Rightarrow> string \<Rightarrow> bool" where
  "accounted js un d sid f data \<longleftrightarrow> legacy d sid f = Some data
     \<or> legacy d sid f = None \<and> unreadable js un f data \<and> gget (dk_failed d) (sid, f) = Some data
     \<or> stored js un (dk_db d) sid f data"

definition db_grows :: "Storage \<Rightarrow> Storage \<Rightarrow> bool" where
  "db_grows db db' \<longleftrightarrow> prefix (db_slots db) (db_slots db') \<and> dom (gget (db_sources db)) \<subseteq> dom (gget (db_sources db'))"

definition disk_ok :: "Disk \<Rightarrow> bool" where
  "disk_ok d \<longleftrightarrow> gm_ok (dk_dirs d) \<and> (\<forall>sid ld. gget (dk_dirs d) sid = Some ld \<longrightarrow> gm_ok (slot_entries ld))"

definition shrinks :: "Disk \<Rightarrow> Disk \<Rightarrow> bool" where
  "shrinks d d' \<longleftrightarrow> dom (gget (dk_dirs d')) = dom (gget (dk_dirs d)) \<and> (\<forall>sid f. legacy d' sid f = None \<or> legacy d' sid f = legacy d sid f)"

definition safe :: "json_ops \<Rightarrow> (string \<Rightarrow> string + SlotDetail) \<Rightarrow> Disk \<Rightarrow> Disk \<Rightarrow> bool" where
  "safe js un d d' \<longleftrightarrow> disk_ok d' \<and> shrinks d d' \<and> db_grows (dk_db d) (dk_db d')
     \<and> (\<forall>sid f data. migratable f \<longrightarrow> accounted js un d sid f data \<longrightarrow> accounted js un d' sid f data)"

lemma db_grows_refl [simp]: "db_grows db db"
  by (simp add: db_grows_def)

lemma db_grows_trans: "db_grows a b \<Longrightarrow> db_grows b c \<Longrightarrow> db_grows a c"
  by (auto simp: db_grows_def intro: prefix_order.trans)

lemma stored_grows: "db_grows db db' \<Longrightarrow> stored js un db sid f data \<Longrightarrow> stored js un db' sid f data"
  by (cases f) (auto simp: db_grows_def prefix_def dom_def image_Un)

lemma safe_refl: "disk_ok d \<Longrightarrow> safe js un d d"
  by (simp add: safe_def shrinks_def)

lemma shrinks_trans: "shrinks a b \<Longrightarrow> shrinks b c \<Longrightarrow> shrinks a c"
  unfolding shrinks_def by metis

lemma safe_trans: "safe js un a b \<Longrightarrow> safe js un b c \<Longrightarrow> safe js un a c"
  unfolding safe_def by (auto intro: db_grows_trans shrinks_trans)

section \<open>Answers\<close>

lemma answer_eq: "answer d = (case dk_faults d of [] \<Rightarrow> None | f # _ \<Rightarrow> f, d\<lparr>dk_faults := tl (dk_faults d)\<rparr>)"
  by (simp add: answer_def split: list.split)

lemma faults_frame [simp]:
  "legacy (d\<lparr>dk_faults := fs\<rparr>) = legacy d" "disk_ok (d\<lparr>dk_faults := fs\<rparr>) = disk_ok d"
  "accounted js un (d\<lparr>dk_faults := fs\<rparr>) = accounted js un d" "safe js un (d\<lparr>dk_faults := fs\<rparr>) d' = safe js un d d'"
  "safe js un d (d'\<lparr>dk_faults := fs\<rparr>) = safe js un d d'"
  by (simp_all add: legacy_def disk_ok_def accounted_def safe_def shrinks_def fun_eq_iff)

section \<open>Changes of a directory\<close>

lemma read_file_unlink: "read_file g (unlink f ld) = (if g = f then None else read_file g ld)"
  by (cases f; cases g; cases "ld_slots ld") (auto simp: slot_entries_def)

lemma legacy_on_dir:
  "legacy (on_dir sid h d) sid' f = (if sid' = sid then gget (dk_dirs d) sid \<bind> (\<lambda>ld. read_file f (h ld)) else legacy d sid' f)"
  by (auto simp: legacy_def on_dir_def split: option.split)

lemma on_dir_frame [simp]:
  "dk_db (on_dir sid h d) = dk_db d" "dk_failed (on_dir sid h d) = dk_failed d" "dk_marker (on_dir sid h d) = dk_marker d"
  "dk_faults (on_dir sid h d) = dk_faults d" "dom (gget (dk_dirs (on_dir sid h d))) = dom (gget (dk_dirs d))"
  by (auto simp: on_dir_def split: option.split if_splits)

lemma disk_ok_on_dir:
  assumes "disk_ok d" and "\<And>ld. gget (dk_dirs d) sid = Some ld \<Longrightarrow> gm_ok (slot_entries ld) \<Longrightarrow> gm_ok (slot_entries (h ld))"
  shows "disk_ok (on_dir sid h d)"
  using assms by (auto simp: disk_ok_def on_dir_def split: option.split if_splits)

lemma gm_ok_unlink: "gm_ok (slot_entries ld) \<Longrightarrow> gm_ok (slot_entries (unlink f ld))"
  by (cases f; cases "ld_slots ld") (auto simp: slot_entries_def)

section \<open>Within a transaction\<close>

text \<open>A part of a run that leaves the database alone and touches the files in \<open>S\<close> only.\<close>

definition moves :: "json_ops \<Rightarrow> (string \<Rightarrow> string + SlotDetail) \<Rightarrow> (string \<times> legacy_file) set \<Rightarrow> Disk \<Rightarrow> Disk \<Rightarrow> bool" where
  "moves js un S d d' \<longleftrightarrow> safe js un d d' \<and> dk_db d' = dk_db d \<and> (\<forall>sid f. (sid, f) \<notin> S \<longrightarrow> legacy d' sid f = legacy d sid f)"

lemma moves_refl: "disk_ok d \<Longrightarrow> moves js un S d (d\<lparr>dk_faults := fs\<rparr>)"
  by (simp add: moves_def safe_refl)

lemma moves_trans: "moves js un S a b \<Longrightarrow> moves js un T b c \<Longrightarrow> S \<subseteq> U \<Longrightarrow> T \<subseteq> U \<Longrightarrow> moves js un U a c"
  unfolding moves_def using safe_trans by (metis subsetD)

lemma quarantine_moves:
  assumes "quarantineLegacyFile sid f data d = (r, d')" and "disk_ok d" and "legacy d sid f = Some data" and "unreadable js un f data"
  shows "moves js un {(sid, f)} d d' \<and> (r = None \<longrightarrow> legacy d' sid f = None)"
proof -
  let ?q = "\<lambda>fs. on_dir sid (unlink f) (d\<lparr>dk_faults := fs, dk_failed := gput (sid, f) data (dk_failed d)\<rparr>)"
  consider fs where "d' = d\<lparr>dk_faults := fs\<rparr>" "r \<noteq> None" | fs where "d' = ?q fs"
    using assms(1) by (auto simp: quarantineLegacyFile_def answer_eq split: option.splits list.splits)
  then show ?thesis
  proof cases
    case 1
    with assms(2) show ?thesis by (auto simp: moves_refl)
  next
    case 2
    have leg: "legacy (?q fs) sid' g = (if (sid', g) = (sid, f) then None else legacy d sid' g)" for sid' g
      by (simp add: legacy_on_dir) (auto simp: legacy_def read_file_unlink split: bind_split)
    have "disk_ok (?q fs)"
      using assms(2) by (intro disk_ok_on_dir) (auto simp: disk_ok_def gm_ok_unlink)
    moreover have "shrinks d (?q fs)" unfolding shrinks_def leg by simp
    moreover have "accounted js un (?q fs) sid' g data'" if "accounted js un d sid' g data'" for sid' g data'
      using that assms(3,4) unfolding accounted_def leg by auto
    ultimately show ?thesis using 2 leg unfolding moves_def safe_def by simp
  qed
qed

lemma writeSourceMeta_grows:
  "writeSourceMeta js fault info tx = (tx', r) \<Longrightarrow> db_grows tx tx' \<and> (r = None \<longrightarrow> gget (db_sources tx') (inf_SourceID info) \<noteq> None)"
  by (auto simp: writeSourceMeta_def db_grows_def split: sum.splits option.splits)

lemma writeSlot_grows:
  assumes "writeSlot js fault sid detail tx = (tx', r)"
  shows "db_grows tx tx' \<and> (r = None \<longrightarrow> (sid, uint (ss_Slot (sd_Summary detail))) \<in> row_key ` set (db_slots tx'))"
  using assms by (auto simp: writeSlot_def db_grows_def row_key_def image_iff dest!: int64Slot_Inr split: sum.splits option.splits if_splits)

lemma migrate_source_json_moves:
  assumes "migrate_source_json js sid tx d = (r, d')" and "disk_ok d"
  shows "moves js un {(sid, SourceJSON)} d d' \<and> (\<forall>tx'. r = Inr tx' \<longrightarrow> db_grows tx tx'
    \<and> (\<forall>data. legacy d' sid SourceJSON = Some data \<longrightarrow> stored js un tx' sid SourceJSON data))"
proof -
  let ?d1 = "d\<lparr>dk_faults := tl (dk_faults d)\<rparr>"
  have src: "gget (dk_dirs d) sid \<bind> ld_source = legacy d sid SourceJSON" by (simp add: legacy_def cong: bind_option_cong)
  consider (failed) e where "fst (answer d) = Some e" | (absent) "fst (answer d) = None" "legacy d sid SourceJSON = None"
    | (bad) data e where "fst (answer d) = None" "legacy d sid SourceJSON = Some data" "un_info js data = Inl e"
    | (good) data info where "fst (answer d) = None" "legacy d sid SourceJSON = Some data" "un_info js data = Inr info"
    by (cases "fst (answer d)"; cases "legacy d sid SourceJSON") (metis sum.exhaust)+
  then show ?thesis
  proof cases
    case failed
    with assms show ?thesis by (auto simp: migrate_source_json_def answer_eq moves_refl)
  next
    case absent
    with assms src show ?thesis by (auto simp: migrate_source_json_def answer_eq moves_refl)
  next
    case bad
    obtain q d2 where q: "quarantineLegacyFile sid SourceJSON data ?d1 = (q, d2)" by (rule prod.exhaust)
    have mv: "moves js un {(sid, SourceJSON)} ?d1 d2 \<and> (q = None \<longrightarrow> legacy d2 sid SourceJSON = None)"
      using quarantine_moves [OF q, of js un] assms(2) bad by simp
    have "d' = d2 \<and> (r = Inr tx \<and> q = None \<or> (\<exists>e. r = Inl e))"
      using assms(1) bad src q by (auto simp: migrate_source_json_def answer_eq split: option.splits)
    with mv show ?thesis by (auto simp: moves_def)
  next
    case good
    obtain fault d2 where a: "answer ?d1 = (fault, d2)" by (rule prod.exhaust)
    obtain tx1 w where w: "writeSourceMeta js fault info tx = (tx1, w)" by (rule prod.exhaust)
    have "d' = d2 \<and> (r = Inr tx1 \<and> w = None \<or> (\<exists>e. r = Inl e))"
      using assms(1) good src a w by (auto simp: migrate_source_json_def answer_eq split: option.splits)
    moreover have "moves js un {(sid, SourceJSON)} d d2" "legacy d2 sid SourceJSON = Some data"
      using a assms(2) good by (auto simp: answer_eq moves_refl)
    ultimately show ?thesis using writeSourceMeta_grows [OF w] good by auto
  qed
qed

text \<open>One entry of \<open>slots/\<close>: the loop stops with an error, or goes on with the entry dealt with.\<close>

lemma migrate_slot_entry:
  assumes "disk_ok d" and leg: "\<forall>name data. kv = (name, SlotFile data) \<longrightarrow> legacy d sid (SlotJSON name) = Some data"
  obtains (stops) e d1 where "migrate_slots js un sid (kv # rest) tx d = (Inl e, d1)" "moves js un {(sid, SlotJSON (fst kv))} d d1"
  | (goes) tx1 d1 where "migrate_slots js un sid (kv # rest) tx d = migrate_slots js un sid rest tx1 d1"
      "moves js un {(sid, SlotJSON (fst kv))} d d1" "db_grows tx tx1"
      "\<forall>name data. kv = (name, SlotFile data) \<longrightarrow> HasSuffix name ''.json'' \<longrightarrow> legacy d1 sid (SlotJSON name) \<noteq> None
        \<longrightarrow> stored js un tx1 sid (SlotJSON name) data"
proof (cases "\<exists>name data. kv = (name, SlotFile data) \<and> HasSuffix name ''.json''")
  case False
  then have "migrate_slots js un sid (kv # rest) tx d = migrate_slots js un sid rest tx d"
    by (cases kv; cases "snd kv") auto
  then show thesis using goes [of tx d] moves_refl [OF assms(1), of js un _ "dk_faults d"] False by auto
next
  case True
  then obtain name data where kv: "kv = (name, SlotFile data)" "HasSuffix name ''.json''" by blast
  let ?d1 = "d\<lparr>dk_faults := tl (dk_faults d)\<rparr>"
  have refl: "moves js un {(sid, SlotJSON (fst kv))} d (d\<lparr>dk_faults := fs\<rparr>)" for fs by (rule moves_refl [OF assms(1)])
  consider (failed) e where "fst (answer d) = Some e" | (bad) e where "fst (answer d) = None" "un data = Inl e"
    | (good) detail where "fst (answer d) = None" "un data = Inr detail"
    by (cases "fst (answer d)"; cases "un data") auto
  then show thesis
  proof cases
    case failed
    with kv refl show thesis by (intro stops [of "ReadLegacy e" ?d1]) (simp_all add: answer_eq)
  next
    case bad
    obtain q d2 where q: "quarantineLegacyFile sid (SlotJSON name) data ?d1 = (q, d2)" by (rule prod.exhaust)
    have "moves js un {(sid, SlotJSON (fst kv))} d d2" "q = None \<Longrightarrow> legacy d2 sid (SlotJSON name) = None"
      using quarantine_moves [OF q, of js un] assms(1) leg bad kv(1) by (simp_all add: moves_def)
    with bad kv q show thesis
      by (cases q) (auto simp: answer_eq intro: stops goes [of tx d2])
  next
    case good
    obtain fault d2 where a: "answer ?d1 = (fault, d2)" by (rule prod.exhaust)
    obtain tx1 w where w: "writeSlot js fault sid detail tx = (tx1, w)" by (rule prod.exhaust)
    have "moves js un {(sid, SlotJSON (fst kv))} d d2" using a refl by (auto simp: answer_eq)
    with good kv a w writeSlot_grows [OF w] show thesis
      by (cases w) (auto simp: answer_eq intro: stops goes [of tx1 d2])
  qed
qed

lemma migrate_slots_moves:
  assumes "migrate_slots js un sid es tx d = (r, d')" and "disk_ok d" and "distinct (map fst es)"
    and "\<And>name data. (name, SlotFile data) \<in> set es \<Longrightarrow> legacy d sid (SlotJSON name) = Some data"
  shows "moves js un ((\<lambda>kv. (sid, SlotJSON (fst kv))) ` set es) d d' \<and> (\<forall>tx'. r = Inr tx' \<longrightarrow> db_grows tx tx'
    \<and> (\<forall>name data. (name, SlotFile data) \<in> set es \<longrightarrow> HasSuffix name ''.json'' \<longrightarrow> legacy d' sid (SlotJSON name) \<noteq> None
        \<longrightarrow> stored js un tx' sid (SlotJSON name) data))"
  using assms
proof (induction es arbitrary: tx d)
  case Nil
  then show ?case using moves_refl [of d js un "{}" "dk_faults d"] by auto
next
  case (Cons kv rest)
  let ?keys = "\<lambda>es. (\<lambda>kv. (sid, SlotJSON (fst kv))) ` set es"
  have leg: "\<forall>name data. kv = (name, SlotFile data) \<longrightarrow> legacy d sid (SlotJSON name) = Some data" using Cons.prems(4) by auto
  from Cons.prems(2) leg show ?case
  proof (cases rule: migrate_slot_entry [where js = js and un = un and rest = rest and tx = tx])
    case (stops e d1)
    then have "r = Inl e" "d' = d1" using Cons.prems(1) by simp_all
    then show ?thesis using stops(2) by (auto simp: moves_def)
  next
    case (goes tx1 d1)
    have "legacy d1 sid (SlotJSON name) = Some data" if "(name, SlotFile data) \<in> set rest" for name data
    proof -
      have "name \<noteq> fst kv" using that Cons.prems(3) by (auto simp: rev_image_eqI)
      then show ?thesis using goes(2) Cons.prems(4) that by (simp add: moves_def)
    qed
    moreover have "disk_ok d1" "migrate_slots js un sid rest tx1 d1 = (r, d')"
      using goes(1,2) Cons.prems(1) by (simp_all add: moves_def safe_def)
    ultimately have ih: "moves js un (?keys rest) d1 d'" "\<And>tx'. r = Inr tx' \<Longrightarrow> db_grows tx1 tx'"
      "\<And>tx' name data. r = Inr tx' \<Longrightarrow> (name, SlotFile data) \<in> set rest \<Longrightarrow> HasSuffix name ''.json''
        \<Longrightarrow> legacy d' sid (SlotJSON name) \<noteq> None \<Longrightarrow> stored js un tx' sid (SlotJSON name) data"
      using Cons.IH [of tx1 d1] Cons.prems(3) by auto
    have "moves js un (?keys (kv # rest)) d d'" by (rule moves_trans [OF goes(2) ih(1)]) auto
    moreover have "legacy d1 sid (SlotJSON name) \<noteq> None" if "legacy d' sid (SlotJSON name) \<noteq> None" for name
      using ih(1) that unfolding moves_def safe_def shrinks_def by metis
    ultimately show ?thesis using ih(2,3) goes(3,4) by (auto simp del: stored.simps intro: db_grows_trans stored_grows)
  qed
qed

section \<open>After the commit\<close>

text \<open>Every file left of the source is in the database, so that removing some or all of them is safe.\<close>

definition migrated :: "json_ops \<Rightarrow> (string \<Rightarrow> string + SlotDetail) \<Rightarrow> string \<Rightarrow> Disk \<Rightarrow> bool" where
  "migrated js un sid d \<longleftrightarrow> (\<forall>f data. migratable f \<longrightarrow> legacy d sid f = Some data \<longrightarrow> stored js un (dk_db d) sid f data)"

lemma remove_safe:
  assumes "migrated js un sid d" and "disk_ok (on_dir sid h d)" and h: "\<And>ld f. gget (dk_dirs d) sid = Some ld \<Longrightarrow> read_file f (h ld) = None \<or> read_file f (h ld) = read_file f ld"
  shows "safe js un d (on_dir sid h d) \<and> migrated js un sid (on_dir sid h d)"
proof -
  have leg: "legacy (on_dir sid h d) sid' f = None \<or> legacy (on_dir sid h d) sid' f = legacy d sid' f" for sid' f
  proof (cases "sid' = sid")
    case True
    with h show ?thesis by (cases "gget (dk_dirs d) sid") (simp_all add: legacy_on_dir, simp add: legacy_def)
  qed (simp add: legacy_on_dir)
  have other: "legacy (on_dir sid h d) sid' f = legacy d sid' f" if "sid' \<noteq> sid" for sid' f
    using that by (simp add: legacy_on_dir)
  have "accounted js un (on_dir sid h d) sid' f data" if "migratable f" "accounted js un d sid' f data" for sid' f data
  proof (cases "sid' = sid")
    case True
    with that leg [of sid f] assms(1) show ?thesis unfolding accounted_def migrated_def on_dir_frame by auto
  next
    case False
    with that other [of sid' f] show ?thesis by (simp add: accounted_def)
  qed
  moreover have "migrated js un sid (on_dir sid h d)"
  proof -
    have "legacy d sid f = Some data" if "legacy (on_dir sid h d) sid f = Some data" for f data using that leg [of sid f] by simp
    then show ?thesis using assms(1) by (simp add: migrated_def)
  qed
  ultimately show ?thesis using assms(2) leg by (auto simp: safe_def shrinks_def)
qed

lemma remove_entries_spec:
  "remove_entries es d = (left, d') \<Longrightarrow> (\<exists>fs. d' = d\<lparr>dk_faults := fs\<rparr>) \<and> set left \<subseteq> set es \<and> (gm_ok es \<longrightarrow> gm_ok left)"
proof (induction es arbitrary: d left d')
  case Nil
  then show ?case by (auto intro: exI [of _ "dk_faults d"])
next
  case (Cons kv es)
  obtain l d1 where r: "remove_entries es (snd (answer d)) = (l, d1)" by (rule prod.exhaust)
  from Cons.IH [OF this] Cons.prems r show ?case
    by (cases kv) (auto 0 3 simp: answer_eq rev_image_eqI split: if_splits)
qed

lemma remove_slots_safe:
  assumes "remove_slots sid d = (r, d')" and "migrated js un sid d" and "disk_ok d"
  shows "safe js un d d' \<and> migrated js un sid d' \<and> (r = None \<longrightarrow> (\<forall>name. legacy d' sid (SlotJSON name) = None))"
proof (cases "gget (dk_dirs d) sid \<bind> ld_slots")
  case None
  then have "legacy d sid (SlotJSON name) = None" for name
    by (auto simp: legacy_def slot_entries_def split: bind_split option.splits)
  with None assms show ?thesis by (simp add: remove_slots_def safe_refl)
next
  case (Some m)
  then obtain ld where ld: "gget (dk_dirs d) sid = Some ld" "ld_slots ld = Some m" by (cases "gget (dk_dirs d) sid") auto
  obtain left d1 where r: "remove_entries m d = (left, d1)" by (rule prod.exhaust)
  obtain fault d2 where a: "answer d1 = (fault, d2)" by (rule prod.exhaust)
  have m: "gm_ok m" using assms(3) ld unfolding disk_ok_def slot_entries_def by (metis option.simps(5))
  from remove_entries_spec [OF r] a m obtain fs where d2: "d2 = d\<lparr>dk_faults := fs\<rparr>" and sub: "set left \<subseteq> set m" "gm_ok left"
    by (auto simp: answer_eq)
  have keep: "gget left name = None \<or> gget left name = gget m name" for name
    using gget_iff [OF m] gget_iff [OF sub(2)] sub(1) by (metis not_None_eq subsetD)
  let ?left = "if left = [] \<and> fault = None then None else Some left"
  have d': "d' = on_dir sid (\<lambda>ld. ld\<lparr>ld_slots := ?left\<rparr>) d2" "r = None \<Longrightarrow> ?left = None"
    using assms(1) Some r a by (auto simp: remove_slots_def split: if_splits)
  have "safe js un d2 d' \<and> migrated js un sid d'"
    unfolding d'(1)
  proof (rule remove_safe)
    show "migrated js un sid d2" using assms(2) d2 by (simp add: migrated_def)
    show "disk_ok (on_dir sid (\<lambda>ld. ld\<lparr>ld_slots := ?left\<rparr>) d2)"
      using assms(3) sub(2) d2 by (intro disk_ok_on_dir) (auto simp: slot_entries_def)
    fix ld' f assume "gget (dk_dirs d2) sid = Some ld'"
    with ld d2 have "ld' = ld" by simp
    moreover have "read_file (SlotJSON name) (ld\<lparr>ld_slots := ?left\<rparr>) = None
        \<or> read_file (SlotJSON name) (ld\<lparr>ld_slots := ?left\<rparr>) = read_file (SlotJSON name) ld" for name
      using keep [of name] ld(2) by (cases "gget left name") (auto simp: slot_entries_def)
    ultimately show "read_file f (ld'\<lparr>ld_slots := ?left\<rparr>) = None \<or> read_file f (ld'\<lparr>ld_slots := ?left\<rparr>) = read_file f ld'"
      by (cases f) simp_all
  qed
  moreover have "legacy d' sid (SlotJSON name) = None" if "r = None" for name
    using d'(2) [OF that] ld d2 unfolding d'(1) by (simp add: legacy_on_dir slot_entries_def)
  ultimately show ?thesis using d2 by simp
qed

lemma removeLegacySourceFiles_safe:
  assumes "removeLegacySourceFiles sid d = (r, d')" and "migrated js un sid d" and "disk_ok d"
  shows "safe js un d d' \<and> (r = None \<longrightarrow> (\<forall>f. legacy d' sid f = None))"
proof -
  let ?d1 = "d\<lparr>dk_faults := tl (dk_faults d)\<rparr>"
  let ?d2 = "on_dir sid (unlink SourceJSON) ?d1"
  have ok: "migrated js un sid ?d1" "disk_ok ?d1" using assms(2,3) by (simp_all add: migrated_def)
  have 2: "safe js un ?d1 ?d2 \<and> migrated js un sid ?d2"
    using ok by (intro remove_safe disk_ok_on_dir) (auto simp: read_file_unlink gm_ok_unlink simp del: unlink.simps)
  have src: "legacy ?d2 sid SourceJSON = None"
    by (simp add: legacy_on_dir split: bind_split)
  obtain q d3 where q: "remove_slots sid ?d2 = (q, d3)" by (rule prod.exhaust)
  have 3: "safe js un ?d2 d3" "migrated js un sid d3" "q = None \<Longrightarrow> legacy d3 sid (SlotJSON name) = None" for name
    using remove_slots_safe [OF q] 2 by (auto simp: safe_def)
  have 13: "safe js un d d3" using 2 3(1) safe_trans by (metis faults_frame(4))
  show ?thesis
  proof (cases "fst (answer d) = None \<and> q = None \<and> fst (answer d3) = None")
    case False
    then have "r \<noteq> None \<and> (\<exists>fs. d' = d\<lparr>dk_faults := fs\<rparr> \<or> d' = d3\<lparr>dk_faults := fs\<rparr>)"
      using assms(1) q by (auto simp: removeLegacySourceFiles_def answer_eq split: option.splits) (metis Disk.surjective Disk.update_convs(5))
    with 13 show ?thesis using safe_refl [OF assms(3)] by auto
  next
    case True
    let ?d4 = "d3\<lparr>dk_faults := tl (dk_faults d3)\<rparr>"
    have d': "d' = on_dir sid (\<lambda>ld. ld\<lparr>ld_index := False\<rparr>) ?d4"
      using assms(1) q True by (simp add: removeLegacySourceFiles_def answer_eq)
    have idx: "read_file f (ld\<lparr>ld_index := b\<rparr>) = read_file f ld" for f ld b by (cases f) (simp_all add: slot_entries_def)
    have leg: "legacy d' = legacy d3" by (simp add: d' fun_eq_iff legacy_on_dir) (simp add: legacy_def idx)
    have "safe js un ?d4 d'" unfolding d'
      using 3 13 by (intro remove_safe [THEN conjunct1] disk_ok_on_dir) (auto simp: idx migrated_def safe_def slot_entries_def)
    then have "safe js un d d'" using 13 safe_trans by (metis faults_frame(4))
    moreover have "legacy d' sid f = None" for f
      using 3(1,3) True src unfolding leg by (cases f) (auto simp: safe_def shrinks_def, metis)
    ultimately show ?thesis by blast
  qed
qed

definition dir_entries :: "string \<Rightarrow> Disk \<Rightarrow> (string \<times> slot_entry) list" where
  "dir_entries sid d = (case gget (dk_dirs d) sid of None \<Rightarrow> [] | Some ld \<Rightarrow> sort_slice (by_key_asc fst) (slot_entries ld))"

lemma dir_entries_legacy:
  assumes "disk_ok d"
  shows "distinct (map fst (dir_entries sid d))"
    and "\<And>name data. (name, SlotFile data) \<in> set (dir_entries sid d) \<longleftrightarrow> legacy d sid (SlotJSON name) = Some data"
proof -
  have gm: "gm_ok (slot_entries ld)" if "gget (dk_dirs d) sid = Some ld" for ld using assms that by (simp add: disk_ok_def)
  have "distinct (map fst (sort_slice (by_key_asc fst) m)) = gm_ok m" for m :: "(string, slot_entry) gomap"
    using mset_sort_slice [of "by_key_asc fst" m] by (metis gm_ok_def mset_eq_imp_distinct_iff mset_map)
  with gm show "distinct (map fst (dir_entries sid d))" by (simp add: dir_entries_def split: option.split)
  show "(name, SlotFile data) \<in> set (dir_entries sid d) \<longleftrightarrow> legacy d sid (SlotJSON name) = Some data" for name data
    using gget_iff [OF gm] by (cases "gget (dk_dirs d) sid") (auto simp: dir_entries_def legacy_def split: option.splits slot_entry.splits)
qed

lemma commit_safe:
  assumes "disk_ok d" and "db_grows (dk_db d) tx"
  shows "safe js un d (d\<lparr>dk_db := tx\<rparr>)"
proof -
  have "legacy (d\<lparr>dk_db := tx\<rparr>) = legacy d" "disk_ok (d\<lparr>dk_db := tx\<rparr>)"
    using assms(1) by (simp_all add: legacy_def disk_ok_def fun_eq_iff)
  then show ?thesis using stored_grows [OF assms(2)] assms(2) unfolding safe_def shrinks_def accounted_def by auto
qed

text \<open>The transaction up to the commit: everything left of the source is in \<open>tx\<close>.\<close>

lemma transaction_migrates:
  assumes ok: "disk_ok d" and j: "migrate_source_json js sid (dk_db d) d = (Inr tx1, d1)"
    and sl: "migrate_slots js un sid (dir_entries sid d1) tx1 (d1\<lparr>dk_faults := fs\<rparr>) = (Inr tx, d2)"
  shows "safe js un d (d2\<lparr>dk_db := tx\<rparr>) \<and> migrated js un sid (d2\<lparr>dk_db := tx\<rparr>)"
proof -
  let ?d = "d2\<lparr>dk_db := tx\<rparr>"
  have m1: "moves js un {(sid, SourceJSON)} d d1" "db_grows (dk_db d) tx1"
    "\<And>data. legacy d1 sid SourceJSON = Some data \<Longrightarrow> stored js un tx1 sid SourceJSON data"
    using migrate_source_json_moves [OF j ok, of un] by auto
  have ok1: "disk_ok (d1\<lparr>dk_faults := fs\<rparr>)" using m1(1) by (simp add: moves_def safe_def)
  have m2: "moves js un ((\<lambda>kv. (sid, SlotJSON (fst kv))) ` set (dir_entries sid d1)) (d1\<lparr>dk_faults := fs\<rparr>) d2" "db_grows tx1 tx"
    "\<And>name data. (name, SlotFile data) \<in> set (dir_entries sid d1) \<Longrightarrow> HasSuffix name ''.json'' \<Longrightarrow> legacy d2 sid (SlotJSON name) \<noteq> None
        \<Longrightarrow> stored js un tx sid (SlotJSON name) data"
    using migrate_slots_moves [OF sl ok1] dir_entries_legacy [where d = d1 and sid = sid] ok1 by (simp_all del: stored.simps)
  have db: "dk_db d2 = dk_db d" and s12: "safe js un d d2"
    using m1(1) m2(1) by (auto simp: moves_def intro: safe_trans)
  have "safe js un d2 ?d"
    using s12 db db_grows_trans [OF m1(2) m2(2)] by (intro commit_safe) (simp_all add: safe_def)
  moreover have "stored js un tx sid f data" if f: "migratable f" "legacy d2 sid f = Some data" for f data
  proof (cases f)
    case SourceJSON
    have "(sid, SourceJSON) \<notin> (\<lambda>kv. (sid, SlotJSON (fst kv))) ` set (dir_entries sid d1)" by auto
    with SourceJSON have "legacy d1 sid SourceJSON = Some data" using m2(1) f(2) by (simp add: moves_def)
    then show ?thesis using m1(3) stored_grows [OF m2(2)] SourceJSON by metis
  next
    case (SlotJSON name)
    then have "legacy d1 sid (SlotJSON name) = Some data"
      using m2(1) f(2) unfolding moves_def safe_def shrinks_def faults_frame by (metis option.simps(3))
    then show ?thesis using m2(3) [of name data] dir_entries_legacy(2) [of d1] ok1 f SlotJSON by simp
  qed
  moreover have "legacy ?d = legacy d2" by (simp add: legacy_def fun_eq_iff)
  ultimately show ?thesis using s12 by (auto simp: migrated_def intro: safe_trans)
qed

text \<open>The end of \<open>migrateLegacySource\<close>: the transaction is committed and only then are the files removed.\<close>

lemma commit_and_remove:
  assumes "(r, d') = (case (r2, d4) of (Inl e, d) \<Rightarrow> (Some e, d) | (Inr tx, d) \<Rightarrow>
        (case answer d of (Some e, d) \<Rightarrow> (Some (CommitFailed e), d) | (None, d) \<Rightarrow> removeLegacySourceFiles sid (d\<lparr>dk_db := tx\<rparr>)))"
    and "safe js un d d4" and "\<forall>tx. r2 = Inr tx \<longrightarrow> safe js un d (d4\<lparr>dk_db := tx\<rparr>) \<and> migrated js un sid (d4\<lparr>dk_db := tx\<rparr>)"
  shows "safe js un d d' \<and> (r = None \<longrightarrow> (\<forall>f. legacy d' sid f = None))"
proof (cases "(\<exists>tx. r2 = Inr tx) \<and> fst (answer d4) = None")
  case False
  then have "r \<noteq> None \<and> (\<exists>fs. d' = d4\<lparr>dk_faults := fs\<rparr>)"
    using assms(1) by (auto simp: answer_eq split: option.splits sum.splits) (metis Disk.surjective Disk.update_convs(5))
  with assms(2) show ?thesis by auto
next
  case True
  then obtain tx where tx: "r2 = Inr tx" by blast
  let ?d5 = "d4\<lparr>dk_faults := tl (dk_faults d4), dk_db := tx\<rparr>"
  have d5: "?d5 = (d4\<lparr>dk_db := tx\<rparr>)\<lparr>dk_faults := tl (dk_faults d4)\<rparr>" by (cases d4) simp
  have s5: "safe js un d ?d5" "migrated js un sid ?d5" unfolding d5 using assms(3) tx by (simp_all add: migrated_def)
  have "removeLegacySourceFiles sid ?d5 = (r, d')" using assms(1) True tx by (simp add: answer_eq)
  moreover have "disk_ok ?d5" using s5(1) by (simp add: safe_def)
  ultimately show ?thesis using removeLegacySourceFiles_safe s5(2) safe_trans [OF s5(1)] by blast
qed

lemma migrateLegacySource_safe:
  assumes "migrateLegacySource js un sid d = (r, d')" and "disk_ok d"
  shows "safe js un d d' \<and> (r = None \<longrightarrow> (\<forall>f. legacy d' sid f = None))"
proof -
  let ?d1 = "d\<lparr>dk_faults := tl (dk_faults d)\<rparr>"
  have sd: "safe js un d ?d1" using safe_refl [OF assms(2)] by simp
  obtain r1 d2 where j: "migrate_source_json js sid (dk_db ?d1) ?d1 = (r1, d2)" by (rule prod.exhaust)
  have s2: "safe js un d d2" using migrate_source_json_moves [OF j, of un] assms(2) by (simp add: moves_def)
  show ?thesis
  proof (cases "fst (answer d) = None \<and> (\<exists>tx. r1 = Inr tx) \<and> fst (answer d2) = None")
    case False
    then have "r \<noteq> None \<and> (\<exists>fs. d' = d\<lparr>dk_faults := fs\<rparr> \<or> d' = d2\<lparr>dk_faults := fs\<rparr>)"
      using assms(1) j by (auto simp: migrateLegacySource_def answer_eq split: option.splits sum.splits) (metis Disk.surjective Disk.update_convs(5))
    with s2 safe_refl [OF assms(2)] show ?thesis by auto
  next
    case True
    then obtain tx1 where tx1: "r1 = Inr tx1" by blast
    let ?d3 = "d2\<lparr>dk_faults := tl (dk_faults d2)\<rparr>"
    obtain r2 d4 where sl: "migrate_slots js un sid (dir_entries sid d2) tx1 ?d3 = (r2, d4)" by (rule prod.exhaust)
    have "(case gget (dk_dirs d2) sid of None \<Rightarrow> [] | Some ld \<Rightarrow> sort_slice (by_key_asc fst) (slot_entries ld)) = dir_entries sid d2"
      by (simp add: dir_entries_def)
    then have run: "(r, d') = (case (r2, d4) of (Inl e, d) \<Rightarrow> (Some e, d) | (Inr tx, d) \<Rightarrow>
        (case answer d of (Some e, d) \<Rightarrow> (Some (CommitFailed e), d) | (None, d) \<Rightarrow> removeLegacySourceFiles sid (d\<lparr>dk_db := tx\<rparr>)))"
      using assms(1) j True tx1 sl by (simp add: migrateLegacySource_def answer_eq)
    have s4: "safe js un d d4"
    proof -
      have "disk_ok ?d3" using s2 by (simp add: safe_def)
      then have "safe js un ?d3 d4" using migrate_slots_moves [OF sl] dir_entries_legacy [where d = d2 and sid = sid] by (simp add: moves_def)
      then show ?thesis using s2 safe_trans by (metis faults_frame(4))
    qed
    have "safe js un d (d4\<lparr>dk_db := tx\<rparr>) \<and> migrated js un sid (d4\<lparr>dk_db := tx\<rparr>)" if "r2 = Inr tx" for tx
      using transaction_migrates [of ?d1 js sid tx1 d2 un _ tx d4] j sl that tx1 assms(2) by simp
    with commit_and_remove [OF run s4] show ?thesis by blast
  qed
qed

lemma migrate_sources_safe:
  assumes "migrate_sources js un names d = (r, d')" and "disk_ok d"
  shows "safe js un d d' \<and> (r = None \<longrightarrow> (\<forall>sid \<in> set names - {''legacy-failed''}. \<forall>f. legacy d' sid f = None))"
  using assms
proof (induction names arbitrary: d)
  case Nil
  then show ?case by (simp add: safe_refl)
next
  case (Cons name rest)
  obtain r1 d1 where m: "migrateLegacySource js un name d = (r1, d1)" by (rule prod.exhaust)
  note one = migrateLegacySource_safe [OF m Cons.prems(2)]
  consider (skip) "name = ''legacy-failed''" | (stops) "name \<noteq> ''legacy-failed''" "r1 \<noteq> None" | (goes) "name \<noteq> ''legacy-failed''" "r1 = None" by blast
  then show ?case
  proof cases
    case skip
    with Cons.IH [of d] Cons.prems show ?thesis by auto
  next
    case stops
    with Cons.prems(1) m one show ?thesis by auto
  next
    case goes
    with Cons.prems(1) m one Cons.IH [of d1] have "safe js un d1 d'"
      and "r = None \<longrightarrow> (\<forall>sid \<in> set rest - {''legacy-failed''}. \<forall>f. legacy d' sid f = None)" by (auto simp: safe_def [of _ _ d d1])
    moreover from this(1) have "legacy d' name f = None" for f
      using one goes unfolding safe_def shrinks_def by metis
    ultimately show ?thesis using one by (auto intro: safe_trans)
  qed
qed

lemma marker_frame [simp]:
  "safe js un d (d'\<lparr>dk_marker := b\<rparr>) = safe js un d d'" "legacy (d\<lparr>dk_marker := b\<rparr>) = legacy d"
  by (simp_all add: safe_def shrinks_def accounted_def legacy_def disk_ok_def fun_eq_iff)

lemma migrateLegacyFiles_safe:
  assumes "migrateLegacyFiles js un d = (r, d')" and "disk_ok d"
  shows "safe js un d d' \<and> (r = None \<longrightarrow> dk_marker d' \<and> (dk_marker d \<or> (\<forall>sid f. sid \<noteq> ''legacy-failed'' \<longrightarrow> legacy d' sid f = None)))"
proof -
  let ?d1 = "d\<lparr>dk_faults := tl (dk_faults d)\<rparr>"
  let ?d2 = "?d1\<lparr>dk_faults := tl (dk_faults ?d1)\<rparr>"
  let ?names = "map fst (sort_slice (by_key_asc fst) (dk_dirs d))"
  obtain r1 d3 where m: "migrate_sources js un ?names ?d2 = (r1, d3)" by (rule prod.exhaust)
  have s3: "safe js un d d3" and gone: "r1 = None \<longrightarrow> (\<forall>sid \<in> set ?names - {''legacy-failed''}. \<forall>f. legacy d3 sid f = None)"
    using migrate_sources_safe [OF m] assms(2) by simp_all
  have out: "legacy d3 sid f = None" if "r1 = None" "sid \<noteq> ''legacy-failed''" for sid f
  proof (cases "sid \<in> set ?names")
    case False
    then have "gget (dk_dirs d) sid = None" by (force simp: map_of_eq_None_iff)
    then have "legacy d sid f = None" by (simp add: legacy_def)
    then show ?thesis using s3 unfolding safe_def shrinks_def by metis
  qed (use gone that in auto)
  have "(r \<noteq> None \<or> dk_marker d) \<and> (\<exists>fs. d' = d\<lparr>dk_faults := fs\<rparr>) \<or> r \<noteq> None \<and> (\<exists>fs. d' = d3\<lparr>dk_faults := fs\<rparr>)
      \<or> r1 = None \<and> (\<exists>fs. d' = d3\<lparr>dk_faults := fs, dk_marker := True\<rparr>)"
    using assms(1) m by (auto simp: migrateLegacyFiles_def answer_eq split: option.splits if_splits)
      (metis Disk.surjective Disk.update_convs(5))+
  then show ?thesis using s3 out safe_refl [OF assms(2), of js un] by auto
qed

lemma NewStorage_safe:
  assumes "NewStorage js un d = (r, d')" and "disk_ok d"
  shows "safe js un d d' \<and> (r = None \<longrightarrow> dk_marker d' \<and> (dk_marker d \<or> (\<forall>sid f. sid \<noteq> ''legacy-failed'' \<longrightarrow> legacy d' sid f = None)))"
proof -
  consider fs where "d' = d\<lparr>dk_faults := fs\<rparr>" "r \<noteq> None" | fs where "migrateLegacyFiles js un (d\<lparr>dk_faults := fs\<rparr>) = (r, d')"
    using assms(1) by (auto simp: NewStorage_def answer_eq split: option.splits)
  then show ?thesis
  proof cases
    case 1
    then show ?thesis using safe_refl [OF assms(2)] by auto
  next
    case 2
    from migrateLegacyFiles_safe [OF this] assms(2) show ?thesis by simp
  qed
qed

section \<open>Without faults\<close>

lemma answer_ok: "dk_faults d = [] \<Longrightarrow> answer d = (None, d)"
  by (simp add: answer_def)

lemma quarantine_ok:
  "dk_faults d = [] \<Longrightarrow> quarantineLegacyFile sid f data d =
     (None, on_dir sid (unlink f) (d\<lparr>dk_failed := gput (sid, f) data (dk_failed d)\<rparr>))"
  by (simp add: quarantineLegacyFile_def answer_ok)

lemma migrate_source_json_ok:
  assumes "migrate_source_json js sid tx d = (r, d')" and "dk_faults d = []"
  shows "dk_faults d' = [] \<and> (\<forall>e. r = Inl e \<longrightarrow> (\<exists>x. e = MigrateRow x))"
  using assms by (auto simp: migrate_source_json_def answer_ok quarantine_ok split: option.splits sum.splits prod.splits)

lemma migrate_slots_ok:
  assumes "migrate_slots js un sid es tx d = (r, d')" and "dk_faults d = []"
  shows "dk_faults d' = [] \<and> (\<forall>e. r = Inl e \<longrightarrow> (\<exists>x. e = MigrateRow x))"
  using assms
proof (induction es arbitrary: tx d)
  case (Cons kv rest)
  show ?case
  proof (cases "\<exists>name data. kv = (name, SlotFile data) \<and> HasSuffix name ''.json''")
    case False
    then have "migrate_slots js un sid rest tx d = (r, d')" using Cons.prems(1) by (cases kv; cases "snd kv") auto
    then show ?thesis using Cons.IH Cons.prems(2) by blast
  next
    case True
    then obtain name data where kv: "kv = (name, SlotFile data)" "HasSuffix name ''.json''" by blast
    then show ?thesis
      using Cons.prems Cons.IH by (auto simp: answer_ok quarantine_ok split: sum.splits option.splits prod.splits)
  qed
qed auto

lemma remove_entries_ok: "dk_faults d = [] \<Longrightarrow> remove_entries es d = ([], d)"
  by (induction es) (simp_all add: answer_ok)

lemma removeLegacySourceFiles_ok: "dk_faults d = [] \<Longrightarrow> \<exists>d'. removeLegacySourceFiles sid d = (None, d') \<and> dk_faults d' = []"
  by (auto simp: removeLegacySourceFiles_def remove_slots_def remove_entries_ok answer_ok split: option.splits)

lemma migrateLegacySource_ok:
  assumes "migrateLegacySource js un sid d = (r, d')" and "dk_faults d = []"
  shows "dk_faults d' = [] \<and> (\<forall>e. r = Some e \<longrightarrow> (\<exists>x. e = MigrateRow x))"
proof -
  obtain r1 d1 where j: "migrate_source_json js sid (dk_db d) d = (r1, d1)" by (rule prod.exhaust)
  note j1 = migrate_source_json_ok [OF j assms(2)]
  show ?thesis
  proof (cases r1)
    case (Inl e)
    with j1 j assms show ?thesis by (auto simp: migrateLegacySource_def answer_ok)
  next
    case (Inr tx1)
    obtain r2 d2 where sl: "migrate_slots js un sid (dir_entries sid d1) tx1 d1 = (r2, d2)" by (rule prod.exhaust)
    with migrate_slots_ok [OF sl] j1 have ok2: "dk_faults d2 = []" "\<forall>e. r2 = Inl e \<longrightarrow> (\<exists>x. e = MigrateRow x)" by simp_all
    obtain d3 where d3: "removeLegacySourceFiles sid (d2\<lparr>dk_db := tx\<rparr>) = (None, d3 tx) \<and> dk_faults (d3 tx) = []" for tx
      using removeLegacySourceFiles_ok [of "d2\<lparr>dk_db := _\<rparr>" sid] ok2(1) by simp metis
    show ?thesis using assms j Inr sl j1 ok2 d3
      by (auto simp: migrateLegacySource_def answer_ok dir_entries_def split: sum.splits)
  qed
qed

lemma migrate_sources_ok:
  assumes "migrate_sources js un names d = (r, d')" and "dk_faults d = []"
  shows "dk_faults d' = [] \<and> (\<forall>e. r = Some e \<longrightarrow> (\<exists>x. e = MigrateRow x))"
  using assms
proof (induction names arbitrary: d)
  case (Cons name rest)
  obtain r1 d1 where m: "migrateLegacySource js un name d = (r1, d1)" by (rule prod.exhaust)
  with migrateLegacySource_ok [OF m Cons.prems(2)] Cons show ?case by (auto split: if_splits option.splits)
qed simp

lemma NewStorage_ok:
  assumes "NewStorage js un d = (r, d')" and "dk_faults d = []"
  shows "\<forall>e. r = Some e \<longrightarrow> (\<exists>x. e = MigrateRow x)"
proof -
  obtain r1 d1 where m: "migrate_sources js un (map fst (sort_slice (by_key_asc fst) (dk_dirs d))) d = (r1, d1)" by (rule prod.exhaust)
  with migrate_sources_ok [OF m assms(2)] assms show ?thesis
    by (auto simp: NewStorage_def migrateLegacyFiles_def answer_ok split: if_splits option.splits)
qed

section \<open>The migration\<close>

text \<open>Starting the server again and again, each time with other faults.\<close>

definition restarts ::
  "json_ops \<Rightarrow> (string \<Rightarrow> string + SlotDetail) \<Rightarrow> string option list list \<Rightarrow> Disk \<Rightarrow> Disk" where
  "restarts js un runs d = fold (\<lambda>faults d. snd (NewStorage js un (d\<lparr>dk_faults := faults\<rparr>))) runs d"

lemma restarts_safe: "disk_ok d \<Longrightarrow> safe js un d (restarts js un runs d)"
proof (induction runs arbitrary: d)
  case (Cons fs runs)
  obtain r d1 where n: "NewStorage js un (d\<lparr>dk_faults := fs\<rparr>) = (r, d1)" by (rule prod.exhaust)
  from NewStorage_safe [OF this] Cons.prems have s1: "safe js un d d1" by simp
  then have "safe js un d1 (restarts js un runs d1)" using Cons.IH by (simp add: safe_def)
  then show ?case using safe_trans [OF s1] n by (simp add: restarts_def)
qed (simp add: restarts_def safe_refl)



text \<open>A data directory with a readable slot, an unreadable one and an unreadable \<open>source.json\<close>.\<close>

definition demo_disk :: Disk where
  "demo_disk = \<lparr>dk_dirs = [(''s1'', \<lparr>ld_source = Some ''old'',
       ld_slots = Some [(''7.json'', SlotFile ''7''), (''8.json'', SlotFile ''torn''), (''notes.txt'', SlotFile [])], ld_index = True\<rparr>)],
     dk_failed = [], dk_marker = False, dk_db = fresh_db, dk_faults = []\<rparr>"

definition demo_un_detail :: "string \<Rightarrow> string + SlotDetail" where
  "demo_un_detail t = (if t = ''7'' then Inr (demo_detail 7 []) else Inl ''syntax'')"

lemma demo_disk_ok: "disk_ok demo_disk" "\<not> dk_marker demo_disk" "legacy demo_disk ''s1'' (SlotJSON ''7.json'') = Some ''7''"
  by (auto simp: disk_ok_def demo_disk_def slot_entries_def legacy_def gm_ok_def)



text \<open>A file whose slot number does not fit a signed integer is not put into quarantine but stops every start.\<close>

definition huge_slot_disk :: Disk where
  "huge_slot_disk = \<lparr>dk_dirs = [(''s1'', \<lparr>ld_source = None, ld_slots = Some [(''9.json'', SlotFile ''9'')], ld_index = False\<rparr>)],
     dk_failed = [], dk_marker = False, dk_db = fresh_db, dk_faults = []\<rparr>"

lemma huge_slot_stops_every_start:
  "NewStorage demo_json (\<lambda>_. Inr (demo_detail (2 ^ 63) [])) huge_slot_disk = (Some (MigrateRow (SlotRange (2 ^ 63))), huge_slot_disk)"
  by code_simp

end
