(* ===== verification/Slot_Tracker.thy ===== *)
theory Slot_Tracker
  imports Slot_Clock Gossipsub
begin

text \<open>
  \<open>internal/eth/slot_tracker.go\<close>: a handler of decoded messages that reports when the slot changes between two messages of a
  gossipsub stream.  The parsed message is an RPC or something else; the slots that its publications name are decoded
  and not used.
\<close>

record slotTracker =
  tk_prevSlot :: u64
  tk_initialized :: bool

text \<open>The factory: a handler for pubsub protocols, none for others.\<close>

definition SlotTracker :: "string \<Rightarrow> slotTracker option" where
  "SlotTracker protocol =
     (if \<not> HasPrefix protocol ''/meshsub/'' \<and> \<not> HasPrefix protocol ''/floodsub/'' then None
      else Some \<lparr>tk_prevSlot = 0, tk_initialized = False\<rparr>)"

fun decode_published :: "snappy \<Rightarrow> PbMessage list \<Rightarrow> unit go" where
  "decode_published snappy [] = Some ()"
| "decode_published snappy (pub # rest) =
     (case pm_Topic pub of
        None \<Rightarrow> decode_published snappy rest
      | Some topic \<Rightarrow> do {
          _ \<leftarrow> DecodeSlot snappy (normalizeTopic topic) (pm_Data pub);
          decode_published snappy rest
        })"

text \<open>The handler; the second result is the call of \<open>onBoundary\<close>, if there is one.\<close>

definition track_message ::
  "SlotClock \<Rightarrow> bool \<Rightarrow> snappy \<Rightarrow> time \<Rightarrow> RPC option \<Rightarrow> slotTracker \<Rightarrow> (slotTracker \<times> (u64 \<times> u64) option) go" where
  "track_message clock hasBoundary snappy now parsed t = do {
     ref \<leftarrow> At clock now;
     case ref of
       None \<Rightarrow> Some (t, None)
     | Some r \<Rightarrow> do {
         let call = (if tk_initialized t \<and> ref_Slot r \<noteq> tk_prevSlot t \<and> hasBoundary then Some (tk_prevSlot t, ref_Slot r) else None);
         let t = t\<lparr>tk_prevSlot := ref_Slot r, tk_initialized := True\<rparr>;
         case parsed of
           None \<Rightarrow> Some (t, call)
         | Some rpc \<Rightarrow> do {
             _ \<leftarrow> decode_published snappy (rpc_Publish rpc);
             Some (t, call)
           }
       }
   }"

section \<open>Boundaries\<close>

fun track_all ::
  "SlotClock \<Rightarrow> snappy \<Rightarrow> (time \<times> RPC option) list \<Rightarrow> slotTracker \<Rightarrow> (slotTracker \<times> (u64 \<times> u64) list) go" where
  "track_all clock snappy [] t = Some (t, [])"
| "track_all clock snappy ((now, parsed) # rest) t = do {
     (t, call) \<leftarrow> track_message clock True snappy now parsed t;
     (t, calls) \<leftarrow> track_all clock snappy rest t;
     Some (t, (case call of None \<Rightarrow> calls | Some c \<Rightarrow> c # calls))
   }"

text \<open>The slots of the messages that arrive after genesis, and the changes in a list of slots.\<close>

definition slots_of :: "SlotClock \<Rightarrow> time list \<Rightarrow> u64 list" where
  "slots_of clock ts = map (\<lambda>r. ref_Slot r) (List.map_filter (\<lambda>t. case At clock t of Some (Some r) \<Rightarrow> Some r | _ \<Rightarrow> None) ts)"

definition changes :: "u64 list \<Rightarrow> (u64 \<times> u64) list" where
  "changes ss = filter (\<lambda>(a, b). a \<noteq> b) (zip ss (tl ss))"

lemma decode_published_total: "decode_published snappy pubs = Some ()"
proof (induction pubs)
  case (Cons pub pubs)
  have "\<exists>r. DecodeSlot snappy topic data = Some r" for topic data
    using slot_at_total by (auto simp: DecodeSlot_def Let_def)
  then obtain f where "\<And>topic data. DecodeSlot snappy topic data = Some (f topic data)" by metis
  with Cons show ?case by (simp split: option.split)
qed simp

lemma track_message_slot:
  "At clock now = Some (Some r) \<Longrightarrow> track_message clock True snappy now parsed t =
     Some (t\<lparr>tk_prevSlot := ref_Slot r, tk_initialized := True\<rparr>,
       if tk_initialized t \<and> ref_Slot r \<noteq> tk_prevSlot t then Some (tk_prevSlot t, ref_Slot r) else None)"
  by (cases parsed) (auto simp: track_message_def Let_def decode_published_total)

lemma track_message_early: "At clock now = Some None \<Longrightarrow> track_message clock True snappy now parsed t = Some (t, None)"
  by (simp add: track_message_def)

lemma track_all_changes:
  assumes "clock_ok clock"
  shows "\<exists>t'. track_all clock snappy msgs t =
    Some (t', changes ((if tk_initialized t then [tk_prevSlot t] else []) @ slots_of clock (map fst msgs)))"
proof (induction msgs arbitrary: t)
  case Nil
  then show ?case by (simp add: slots_of_def changes_def map_filter_def)
next
  case (Cons msg msgs)
  obtain now parsed where msg: "msg = (now, parsed)" by (cases msg)
  from assms show ?case
  proof (cases rule: At_cases [where t = now])
    case before
    with Cons.IH [of t] msg show ?thesis by (auto simp: track_message_early slots_of_def map_filter_simps)
  next
    case (slot r)
    let ?t = "t\<lparr>tk_prevSlot := ref_Slot r, tk_initialized := True\<rparr>"
    from Cons.IH [of ?t] obtain t' where "track_all clock snappy msgs ?t = Some (t', changes (ref_Slot r # slots_of clock (map fst msgs)))"
      by auto
    with slot msg show ?thesis by (auto simp: track_message_slot slots_of_def map_filter_simps changes_def)
  qed
qed

text \<open>
  the tracker of a pubsub stream never panics and calls its boundary function exactly when the slot changes from one
  message to the next, with the two slots, in order; messages before genesis are ignored.
\<close>

lemma slot_tracker_boundaries:
  assumes "clock_ok clock" and "SlotTracker protocol = Some t"
  shows "\<exists>t'. track_all clock snappy msgs t = Some (t', changes (slots_of clock (map fst msgs)))"
  using track_all_changes [OF assms(1), of snappy msgs t] assms(2) by (auto simp: SlotTracker_def split: if_splits)

end
