(* ===== verification/Spec2Isabelle.thy ===== *)
theory Spec2Isabelle
  imports Sessions Concurrent_Emitting Http_Routes Xray_Command Legacy_Migration Slot_Tracker
begin

text \<open>
  \<^bold>\<open>xray\<close>: a probe inside a libp2p host that records what the host sends and receives, and a server that books the recorded
  traffic to the slots of the beacon chain, shows it and stores it.

  \<^bold>\<open>The program.\<close>  The probe wraps the network of a host (\<open>probe/stream.go\<close>, \<open>probe/host.go\<close>).  It numbers connections,
  streams and peers, interns strings (\<open>probe/intern.go\<close>) and hands numbered envelopes to an emitter (\<open>probe/emitter.go\<close>), which keeps the
  last ones in a ring and passes each to its sinks: a file (\<open>probe/sink_file.go\<close>) and a connection to the server
  (\<open>probe/sink_ingest.go\<close>).  Messages are framed by \<open>proto/xray/wire/wire.go\<close>.  The server (\<open>cmd/xray/main.go\<close>)
  accepts probes (\<open>internal/ingest\<close>), tells each the last number it has applied, and receives the missing envelopes or
  a snapshot.  The processor (\<open>internal/processor\<close>) applies them: it decodes gossipsub streams (\<open>internal/gossipsub\<close>,
  \<open>internal/decode\<close>, \<open>internal/eth\<close>), books every byte to a slot, a bucket and a row, keeps the peers, and finalizes a slot
  when traffic of a later one arrives.  Finalized slots go through a channel into SQLite (\<open>internal/storage\<close>).  The HTTP server
  (\<open>internal/server\<close>) lists live and stored slots and sends updates over web sockets; \<open>internal/sources\<close> knows the probes.

  \<^bold>\<open>The theories\<close>, in the order of their imports:
    \<^item> \<open>Prelude\<close>: Go maps as association lists with their contract (locale \<open>keyed_store\<close>), \<open>sort.Slice\<close> and its contract, panics as
      \<open>None\<close> (type \<open>go\<close>), lists of the newest entries (predicate \<open>newest\<close>, locale \<open>newest_listing\<close>).
    \<^item> \<open>Go_Lib\<close>: the functions of Go's library that the code uses: varints, little-endian integers, \<open>strconv\<close>, \<open>strings\<close>, conversions that wrap.
    \<^item> \<open>Messages\<close>: the messages of \<open>proto/xray\<close> and the types of \<open>api/api.go\<close>.
    \<^item> \<open>Wire\<close>: \<open>WriteTyped\<close>, \<open>ReadTyped\<close> and the functions for each message; round trip, oversized and truncated frames.
    \<^item> \<open>Slot_Clock\<close>, \<open>Slot_Tracker\<close>, \<open>Ssz\<close>: \<open>internal/eth\<close>: from a time to a slot, changes of the slot, slots and block metadata in payloads, the payload cache.
    \<^item> \<open>Gossipsub\<close>: \<open>observe\<close> and the decoder of a stream; independence of chunking, byte accounting, bounded buffers.
    \<^item> \<open>Peers\<close>, \<open>Slots\<close>, \<open>Processing\<close>: \<open>internal/processor\<close>: \<open>PeerMap\<close>, slot aggregates, and \<open>ApplyForSource\<close> with everything below it.
      \<open>detail_ok\<close> says that a slot detail adds up; \<open>proc_ok\<close> is the invariant of the processor.
    \<^item> \<open>Emitting\<close>: \<open>Emit\<close>, the ring, \<open>EventsFromSeq\<close>, \<open>Intern\<close>; \<open>history_ok\<close> relates an emitter to all envelopes it has numbered.
    \<^item> \<open>Probe_Network\<close>, \<open>Sinks\<close>, \<open>Probe_Host\<close>: the wrapped network, both sinks, options and \<open>Wrap\<close>.
    \<^item> \<open>Mirroring\<close>: \<open>mirrors\<close> relates the tables of a probe to those of the server; every operation of a probe is \<open>sound\<close>: its envelopes
      make the mirror follow (\<open>run_op_sound\<close>).
    \<^item> \<open>Linking\<close>: a probe and a server with any breaks of the connection between them (\<open>linked\<close>), and the catch-up after a handshake.
    \<^item> \<open>Delivery\<close>: both sinks down to the bytes: what a server reads after a turn of \<open>connectLoop\<close>, and a trace file from \<open>Wrap\<close> on
      (\<open>recording\<close>), read back and replayed.
    \<^item> \<open>Concurrent_Emitting\<close>: \<open>Emit\<close> and \<open>Intern\<close> by several goroutines, split where they release their mutex (\<open>emit_step\<close>, \<open>emitting\<close>).
    \<^item> \<open>Source_Registry\<close>, \<open>Slot_Storage\<close>, \<open>Legacy_Migration\<close>: known probes, the two tables with their statements, opening the storage
      and moving the files of an older version.
    \<^item> \<open>Ingest\<close>: sessions; a handler as a sequence of atomic steps (\<open>handle_step\<close>), any number of handlers in any order (\<open>ingest_step\<close>, \<open>serving\<close>);
      \<open>ListenAndServe\<close>.
    \<^item> \<open>Sessions\<close>: the sink of a probe and a handler of the server joined by the bytes between them (\<open>serve\<close>).
    \<^item> \<open>Http_Server\<close>, \<open>Http_Routes\<close>: the handlers of requests, the clients and the batches of updates; which handler answers (\<open>ServeHTTP\<close>).
    \<^item> \<open>Xray_Command\<close>: the server process: handlers, callbacks, the channel, the goroutines that store, prune and flush (\<open>turn\<close>, \<open>running\<close>).

  \<^bold>\<open>How code becomes definitions.\<close>  A struct is a record, a protobuf \<open>oneof\<close> a datatype, an integer a word of its width (\<open>int\<close> and
  \<open>time.Duration\<close> are integers with the wrap-around written out where it matters).  A Go map is an association list, so that iteration has an order;
  results that depend on it are sorted by the code, and the theorems hold for every order.  A method becomes a function from state to state with
  the name of the method; \<open>None\<close> is a panic, \<open>Inl\<close> an error.  Callbacks, writes to sinks and to sockets are returned in the order in which they happen.
  A critical section is one step; where the order of critical sections matters, in \<open>Ingest\<close>, \<open>Linking\<close>, \<open>Concurrent_Emitting\<close> and \<open>Xray_Command\<close>, they
  interleave freely in an inductive relation.

  \<^bold>\<open>What the theorems show.\<close>
    \<^item> Accounting: what the processor answers or finalizes adds up, every byte of a stream is decoded independently of chunking and booked once,
      and whatever the storage returns was finalized and adds up, in every state the process can reach.
    \<^item> Transport: envelopes arrive as sent; replays change nothing; the ring returns every missing envelope or says that it cannot; after every
      handshake, followed down to the bytes that both ends write, the server holds exactly what the probe tracks, and a trace file leads to the
      same tables.  Concurrent emissions reach every sink exactly once, but not always in order.
    \<^item> Lists: the slot page, the search and the live list hold the newest entries and leave out only older ones (one contract, interpreted
      for memory and disk, merged in \<open>merged_listing\<close>); a flush sends the latest state of every changed slot once.
      Every request is answered, and a slot detail is the one that was asked for.
    \<^item> Sessions: at most one open connection serves a source; a closed handler ends.
    \<^item> Storage: the first write of a slot wins, pruning removes exactly the old rows, no finalized slot is lost before shutdown, and the migration
      loses no file, whatever fails.
    \<^item> Errors: lost, stale and repeated envelopes, each shown on a run of the model, and the frames that the writer sends but the reader refuses.

  \<^bold>\<open>Bounds and termination.\<close>  No fuel is used: every loop is a recursion with a termination proof (\<open>observe_loop\<close> by the bytes left, \<open>prune_loop\<close> by the rows left,
  varints by ten bytes).  Where a counter could wrap, the theorems assume room in it (\<open>room\<close>: fewer than \<open>2 ^ 64\<close> envelopes, \<open>2 ^ 32\<close>
  strings and connections); \<open>clock_ok\<close> says that a slot is at least a second and fits a duration.

  \<^bold>\<open>Parameters.\<close>  Protobuf, JSON, Snappy, the text of a peer id, lower-casing of non-ASCII text, libp2p's values, dialling, files, faults of the database and of the
  operating system, and the readings of the clock are arguments.  The laws assumed of them are named: \<open>json_law\<close> (a stored summary reads
  back), the marshalling law of \<open>Wire\<close>, collision freedom of the payload hash in \<open>Ssz\<close>.

  \<^bold>\<open>Not modelled.\<close>  Generated protobuf accessors; flag parsing, signals and logging in \<open>main\<close>; the redirects of the HTTP multiplexer, compression, static
  files and JSON encoding, which are calls of the library; \<open>alias.go\<close> and \<open>doc.go\<close>, which rename; the dashboard and
  the clients in other languages.  In \<open>Probe_Network\<close> an operation of the probe runs without another one in between; what goroutines of the probe
  do to each other inside \<open>Emit\<close> and \<open>Intern\<close> is the subject of \<open>Concurrent_Emitting\<close>.
\<close>

end
